(* ===== verification/Go_Prelude.thy ===== *)
theory Go_Prelude
  imports Main "HOL-Library.Word"
begin

text \<open>
  The vocabulary shared by the development: fixed-width integers and byte strings of
  Go as types, the conversions between bytes and characters, the byte searches of
  the internal package \<^verbatim>\<open>internal/bytealg\<close>, and the collections of simplification
  rules that the component theories extend.

  A Go string is a sequence of bytes, and so is a HOL \<^typ>\<open>string\<close> (a \<^typ>\<open>char\<close> has
  eight bits). A Go \<^verbatim>\<open>[]byte\<close> is a list of \<open>8 word\<close>. The index functions of Go
  return \<^verbatim>\<open>-1\<close> for \<open>not found\<close>; here that is \<^term>\<open>None\<close>.
\<close>

unbundle bit_operations_syntax

type_synonym byte = "8 word"
type_synonym u8 = "8 word"
type_synonym u16 = "16 word"
type_synonym u32 = "32 word"
type_synonym u64 = "64 word"
type_synonym i64 = "64 word"

named_theorems byte_laws \<open>what the encoders and decoders of byte strings compute\<close>
named_theorems index_laws \<open>results of the byte searches\<close>
named_theorems io_laws \<open>what the readers return\<close>

subsection \<open>Bytes and characters\<close>

definition byte_of_char :: "char \<Rightarrow> byte" where
  "byte_of_char c = of_nat (of_char c)"

definition char_of_byte :: "byte \<Rightarrow> char" where
  "char_of_byte b = char_of (unat b)"

abbreviation string_of_bytes :: "byte list \<Rightarrow> string" where
  "string_of_bytes \<equiv> map char_of_byte"

abbreviation bytes_of_string :: "string \<Rightarrow> byte list" where
  "bytes_of_string \<equiv> map byte_of_char"

lemma unat_byte_of_char [simp]: "unat (byte_of_char c) = of_char c"
  by (simp add: byte_of_char_def unat_of_nat take_bit_nat_def)

lemma char_of_byte_of_char [simp]: "char_of_byte (byte_of_char c) = c"
  by (simp add: char_of_byte_def)

lemma byte_of_char_of_byte [simp]: "byte_of_char (char_of_byte b) = b"
proof -
  have "unat b < 256"
    using unsigned_less [of b, where 'a = nat] by simp
  then have "of_char (char_of (unat b)) = unat b"
    by simp
  then show ?thesis
    by (simp add: byte_of_char_def char_of_byte_def)
qed

lemma string_of_bytes_of_string [simp]: "string_of_bytes (bytes_of_string s) = s"
  by (simp add: comp_def)

lemma bytes_of_string_of_bytes [simp]: "bytes_of_string (string_of_bytes b) = b"
  by (simp add: comp_def)

subsection \<open>Byte searches\<close>

fun IndexByteString :: "'a list \<Rightarrow> 'a \<Rightarrow> nat option" where
  "IndexByteString [] c = None"
| "IndexByteString (x # xs) c =
     (if x = c then Some 0 else map_option Suc (IndexByteString xs c))"

definition LastIndexByteString :: "'a list \<Rightarrow> 'a \<Rightarrow> nat option" where
  "LastIndexByteString s c =
     map_option (\<lambda>i. length s - 1 - i) (IndexByteString (rev s) c)"

lemma IndexByteString_None [index_laws]: "IndexByteString s c = None \<longleftrightarrow> c \<notin> set s"
  by (induction s) auto

lemma IndexByteString_append [index_laws]:
  "c \<notin> set a \<Longrightarrow> IndexByteString (a @ c # b) c = Some (length a)"
  by (induction a) auto

lemma IndexByteString_split:
  assumes "IndexByteString s c = Some i"
  obtains b where "s = take i s @ c # b" and "c \<notin> set (take i s)" and "i < length s"
  using assms
proof (induction s arbitrary: i thesis)
  case Nil
  then show ?case by simp
next
  case (Cons x xs)
  show ?case
  proof (cases "x = c")
    case True
    with Cons.prems show ?thesis by simp
  next
    case False
    with Cons.prems(2) obtain k where k: "IndexByteString xs c = Some k" "i = Suc k"
      by auto
    obtain b where "xs = take k xs @ c # b" "c \<notin> set (take k xs)" "k < length xs"
      using Cons.IH k(1) by blast
    with False k(2) Cons.prems(1) show ?thesis by auto
  qed
qed

lemma IndexByteString_Some_lt: "IndexByteString s c = Some i \<Longrightarrow> i < length s \<and> s ! i = c"
  by (induction s arbitrary: i) (auto split: if_splits)

lemma LastIndexByteString_None [index_laws]: "LastIndexByteString s c = None \<longleftrightarrow> c \<notin> set s"
  by (simp add: LastIndexByteString_def IndexByteString_None)

lemma LastIndexByteString_append [index_laws]:
  assumes "c \<notin> set b"
  shows "LastIndexByteString (a @ c # b) c = Some (length a)"
proof -
  have "IndexByteString (rev b @ c # rev a) c = Some (length (rev b))"
    using assms by (intro IndexByteString_append) simp
  then show ?thesis
    by (simp add: LastIndexByteString_def)
qed

lemma LastIndexByteString_split:
  assumes "LastIndexByteString s c = Some i"
  obtains b where "s = take i s @ c # b" and "c \<notin> set b" and "i < length s"
proof -
  obtain k where k: "IndexByteString (rev s) c = Some k" and i: "i = length s - 1 - k"
    using assms by (auto simp: LastIndexByteString_def)
  obtain t where t: "rev s = take k (rev s) @ c # t" and c: "c \<notin> set (take k (rev s))"
    and lt: "k < length (rev s)"
    using k by (rule IndexByteString_split)
  have s: "s = rev t @ c # rev (take k (rev s))"
    using arg_cong [OF t, of rev] by simp
  have "length s = length t + 1 + k"
    using arg_cong [OF s, of length] lt by simp
  then have "length t = i"
    using i by simp
  then have "take i s = rev t"
    using s by (metis append_eq_conv_conj length_rev)
  moreover have "c \<notin> set (rev (take k (rev s)))"
    using c by simp
  ultimately show thesis
    using that s lt i by (metis \<open>length t = i\<close> \<open>length s = length t + 1 + k\<close> less_add_one
        trans_less_add1)
qed

end
