(* ===== verification/Go_IO.thy ===== *)
theory Go_IO
  imports Go_Prelude
begin

text \<open>
  Readers, and the two reading loops of package \<^verbatim>\<open>io\<close> that the proxy relies on:
  \<^verbatim>\<open>ReadAtLeast\<close> and \<^verbatim>\<open>ReadFull\<close>.

  The reader itself (a WebTransport stream, a network connection) is code outside the
  repository. What it does is an input of the model: a \<open>reader\<close> is the list of the
  chunks its successive calls of \<^verbatim>\<open>Read\<close> deliver (an empty chunk is a call that
  returned \<^verbatim>\<open>0, nil\<close>), the error that ends it, and whether that error comes with the
  last chunk (\<open>eager\<close>) or with a call of its own; the documentation of \<^verbatim>\<open>io.Reader\<close>
  allows both. A chunk longer than the buffer is delivered in pieces.

  The results: \<^verbatim>\<open>ReadFull\<close> depends on the bytes of the reader and not on how they
  are cut into chunks, and which error it returns on a short stream.
\<close>

datatype io_error = EOF | ErrUnexpectedEOF | ErrShortBuffer | errOverflow | OtherError string

record reader =
  chunks :: "byte list list"
  finErr :: io_error
  eager :: bool

definition avail :: "reader \<Rightarrow> byte list" where
  "avail r = concat (chunks r)"

text \<open>One call of \<^verbatim>\<open>Read\<close> with a buffer of \<open>n\<close> bytes: what it stored, its error, the
  reader afterwards.\<close>

definition Read :: "reader \<Rightarrow> nat \<Rightarrow> byte list \<times> io_error option \<times> reader" where
  "Read r n =
     (case chunks r of
        [] \<Rightarrow> ([], Some (finErr r), r)
      | d # ds \<Rightarrow>
          if length d \<le> n
          then (d, if ds = [] \<and> eager r then Some (finErr r) else None, r\<lparr>chunks := ds\<rparr>)
          else (take n d, None, r\<lparr>chunks := drop n d # ds\<rparr>))"

definition reader_size :: "reader \<Rightarrow> nat" where
  "reader_size r = length (chunks r) + length (avail r)"

lemma Read_length: "length (fst (Read r n)) \<le> n"
  by (simp add: Read_def split: list.splits)

lemma Read_avail: "Read r n = (d, e, r') \<Longrightarrow> avail r = d @ avail r'"
  by (auto simp: Read_def avail_def split: list.splits if_splits)

lemma Read_fin: "Read r n = (d, e, r') \<Longrightarrow> finErr r' = finErr r \<and> eager r' = eager r"
  by (auto simp: Read_def split: list.splits if_splits)

lemma Read_error: "Read r n = (d, Some e, r') \<Longrightarrow> e = finErr r \<and> avail r' = []"
  by (auto simp: Read_def avail_def split: list.splits if_splits)

lemma Read_progress:
  "Read r n = (d, None, r') \<Longrightarrow> length d < n \<Longrightarrow> reader_size r' < reader_size r"
  by (auto simp: Read_def reader_size_def avail_def split: list.splits if_splits)

lemma Read_None_progress:
  assumes "Read r n = (d, None, r')" and "0 < n"
  shows "d = [] \<and> reader_size r' < reader_size r \<or> 0 < length d \<and> length d \<le> n"
  using Read_progress [OF assms(1)] Read_length [of r n] assms by auto

subsection \<open>ReadAtLeast and ReadFull\<close>

text \<open>
  The loop of \<^verbatim>\<open>ReadAtLeast\<close>: \<open>got\<close> is what the buffer holds so far
  (\<^verbatim>\<open>buf[:n]\<close>), \<open>bufLen\<close> its length. The loop ends: a call that neither fails nor
  fills the buffer uses up a part of the reader.
\<close>

function ReadAtLeast_loop ::
  "reader \<Rightarrow> nat \<Rightarrow> nat \<Rightarrow> byte list \<Rightarrow> byte list \<times> io_error option \<times> reader" where
  "ReadAtLeast_loop r bufLen minLen got =
     (if length got < minLen \<and> minLen \<le> bufLen then
        (case Read r (bufLen - length got) of
           (d, Some e, r') \<Rightarrow> (got @ d, Some e, r')
         | (d, None, r') \<Rightarrow> ReadAtLeast_loop r' bufLen minLen (got @ d))
      else (got, None, r))"
  by pat_completeness auto
termination
  by (relation "measures [\<lambda>(r, bufLen, minLen, got). bufLen - length got,
                          \<lambda>(r, bufLen, minLen, got). reader_size r]")
     (auto dest!: Read_None_progress [OF sym] simp flip: length_greater_0_conv)

declare ReadAtLeast_loop.simps [simp del]

definition ReadAtLeast ::
  "reader \<Rightarrow> nat \<Rightarrow> nat \<Rightarrow> byte list \<times> io_error option \<times> reader" where
  "ReadAtLeast r bufLen minLen =
     (if bufLen < minLen then ([], Some ErrShortBuffer, r)
      else
        let (got, err, r') = ReadAtLeast_loop r bufLen minLen []
        in (got,
            if minLen \<le> length got then None
            else if 0 < length got \<and> err = Some EOF then Some ErrUnexpectedEOF
            else err,
            r'))"

definition ReadFull :: "reader \<Rightarrow> nat \<Rightarrow> byte list \<times> io_error option \<times> reader" where
  "ReadFull r bufLen = ReadAtLeast r bufLen bufLen"

lemma ReadFull_loop_enough:
  assumes "n \<le> length got + length (avail r)" and "length got \<le> n" and "m = n"
  shows "\<exists>e r'. ReadAtLeast_loop r m n got = (got @ take (n - length got) (avail r), e, r')
           \<and> avail r' = drop (n - length got) (avail r) \<and> finErr r' = finErr r"
  using assms
proof (induction r m n got rule: ReadAtLeast_loop.induct)
  case (1 r m n got)
  have eq [simp]: "m = n" by (fact 1)
  show ?case
  proof (cases "length got < n")
    case False
    with 1(3) show ?thesis
      by (simp add: ReadAtLeast_loop.simps)
  next
    case True
    obtain d e r1 where rd: "Read r (n - length got) = (d, e, r1)"
      by (cases "Read r (n - length got)") auto
    have av: "avail r = d @ avail r1" and fin: "finErr r1 = finErr r"
      using Read_avail [OF rd] Read_fin [OF rd] by auto
    have ld: "length d \<le> n - length got"
      using Read_length [of r "n - length got"] rd by simp
    show ?thesis
    proof (cases e)
      case (Some e')
      with rd have "avail r1 = []"
        using Read_error by blast
      with av ld True 1(2) have "length d = n - length got"
        by simp
      with rd Some True av \<open>avail r1 = []\<close> fin show ?thesis
        by (simp add: ReadAtLeast_loop.simps)
    next
      case None
      have "length (got @ d) \<le> n" and "n \<le> length (got @ d) + length (avail r1)"
        using ld True 1(2) av by auto
      with 1(1) [of d "(e, r1)" e r1] rd None True eq
      obtain e' r' where
        "ReadAtLeast_loop r1 n n (got @ d) = (got @ d @ take (n - length (got @ d)) (avail r1), e', r')"
        "avail r' = drop (n - length (got @ d)) (avail r1)" "finErr r' = finErr r1"
        by auto
      with rd None True av ld fin show ?thesis
        by (simp add: ReadAtLeast_loop.simps [of r] take_append drop_append)
    qed
  qed
qed

lemma ReadFull_loop_short:
  assumes "length got + length (avail r) < n" and "m = n"
  shows "\<exists>r'. ReadAtLeast_loop r m n got = (got @ avail r, Some (finErr r), r') \<and> avail r' = []"
  using assms
proof (induction r m n got rule: ReadAtLeast_loop.induct)
  case (1 r m n got)
  have eq [simp]: "m = n" by (fact 1)
  obtain d e r1 where rd: "Read r (n - length got) = (d, e, r1)"
    by (cases "Read r (n - length got)") auto
  have av: "avail r = d @ avail r1" and fin: "finErr r1 = finErr r"
    using Read_avail [OF rd] Read_fin [OF rd] by auto
  have lt: "length got < n"
    using 1(2) by simp
  show ?case
  proof (cases e)
    case (Some e')
    with rd have "avail r1 = []" "e' = finErr r"
      using Read_error by blast+
    with rd Some lt av show ?thesis
      by (simp add: ReadAtLeast_loop.simps)
  next
    case None
    with 1(1) [of d "(e, r1)" e r1] rd eq lt 1(2) av
    obtain r' where "ReadAtLeast_loop r1 n n (got @ d) = (got @ d @ avail r1, Some (finErr r1), r')"
      "avail r' = []"
      by auto
    with rd None lt av fin show ?thesis
      by (simp add: ReadAtLeast_loop.simps [of r])
  qed
qed

lemma ReadFull_enough [io_laws]:
  assumes "n \<le> length (avail r)"
  shows "\<exists>r'. ReadFull r n = (take n (avail r), None, r') \<and> avail r' = drop n (avail r)
           \<and> finErr r' = finErr r"
proof -
  obtain e r' where "ReadAtLeast_loop r n n [] = (take n (avail r), e, r')"
    "avail r' = drop n (avail r)" "finErr r' = finErr r"
    using ReadFull_loop_enough [of n "[]" r n] assms by auto
  with assms show ?thesis
    by (simp add: ReadFull_def ReadAtLeast_def)
qed

lemma ReadFull_short [io_laws]:
  assumes "length (avail r) < n"
  shows "\<exists>r'. ReadFull r n =
           (avail r,
            Some (if avail r \<noteq> [] \<and> finErr r = EOF then ErrUnexpectedEOF else finErr r), r')
           \<and> avail r' = []"
proof -
  obtain r' where "ReadAtLeast_loop r n n [] = (avail r, Some (finErr r), r')" "avail r' = []"
    using ReadFull_loop_short [of "[]" r n n] assms by auto
  with assms show ?thesis
    by (simp add: ReadFull_def ReadAtLeast_def)
qed

lemma ReadFull_cases:
  obtains (enough) r' where "n \<le> length (avail r)"
      "ReadFull r n = (take n (avail r), None, r')" "avail r' = drop n (avail r)"
    | (short) e r' where "length (avail r) < n" "ReadFull r n = (avail r, Some e, r')"
  using ReadFull_enough [of n r] ReadFull_short [of r n] by (cases "n \<le> length (avail r)") force+

end
