(* ===== verification/Go_Binary.thy ===== *)
theory Go_Binary
  imports Go_IO
begin

text \<open>
  Package \<^verbatim>\<open>encoding/binary\<close>: the two fixed byte orders. The
  variable-length integers are in \<open>Go_Varint\<close>.

  A function that Go would let panic on a short slice (each starts with a bounds check
  such as \<^verbatim>\<open>_ = b[3]\<close>) returns \<^term>\<open>None\<close>. The Go interfaces \<^verbatim>\<open>ByteOrder\<close> and
  \<^verbatim>\<open>AppendByteOrder\<close> are the locale \<open>byte_order\<close>, three instances (one for each width)
  of the locale \<open>uint_codec\<close>, whose assumptions are the laws of one encoder and decoder;
  \<^verbatim>\<open>BigEndian\<close> and \<^verbatim>\<open>LittleEndian\<close> interpret it.
\<close>

subsection \<open>Little endian\<close>

definition littleEndian_Uint16 :: "byte list \<Rightarrow> u16 option" where
  "littleEndian_Uint16 b =
     (if length b \<le> 1 then None
      else Some (ucast (b ! 0) OR push_bit 8 (ucast (b ! 1))))"

definition littleEndian_PutUint16 :: "byte list \<Rightarrow> u16 \<Rightarrow> byte list option" where
  "littleEndian_PutUint16 b v =
     (if length b \<le> 1 then None
      else Some (b[0 := ucast v, 1 := ucast (drop_bit 8 v)]))"

definition littleEndian_AppendUint16 :: "byte list \<Rightarrow> u16 \<Rightarrow> byte list" where
  "littleEndian_AppendUint16 b v = b @ [ucast v, ucast (drop_bit 8 v)]"

definition littleEndian_Uint32 :: "byte list \<Rightarrow> u32 option" where
  "littleEndian_Uint32 b =
     (if length b \<le> 3 then None
      else Some (ucast (b ! 0) OR push_bit 8 (ucast (b ! 1)) OR push_bit 16 (ucast (b ! 2))
                 OR push_bit 24 (ucast (b ! 3))))"

definition littleEndian_PutUint32 :: "byte list \<Rightarrow> u32 \<Rightarrow> byte list option" where
  "littleEndian_PutUint32 b v =
     (if length b \<le> 3 then None
      else Some (b[0 := ucast v, 1 := ucast (drop_bit 8 v), 2 := ucast (drop_bit 16 v),
                   3 := ucast (drop_bit 24 v)]))"

definition littleEndian_AppendUint32 :: "byte list \<Rightarrow> u32 \<Rightarrow> byte list" where
  "littleEndian_AppendUint32 b v =
     b @ [ucast v, ucast (drop_bit 8 v), ucast (drop_bit 16 v), ucast (drop_bit 24 v)]"

definition littleEndian_Uint64 :: "byte list \<Rightarrow> u64 option" where
  "littleEndian_Uint64 b =
     (if length b \<le> 7 then None
      else Some (ucast (b ! 0) OR push_bit 8 (ucast (b ! 1)) OR push_bit 16 (ucast (b ! 2))
                 OR push_bit 24 (ucast (b ! 3)) OR push_bit 32 (ucast (b ! 4))
                 OR push_bit 40 (ucast (b ! 5)) OR push_bit 48 (ucast (b ! 6))
                 OR push_bit 56 (ucast (b ! 7))))"

definition littleEndian_PutUint64 :: "byte list \<Rightarrow> u64 \<Rightarrow> byte list option" where
  "littleEndian_PutUint64 b v =
     (if length b \<le> 7 then None
      else Some (b[0 := ucast v, 1 := ucast (drop_bit 8 v), 2 := ucast (drop_bit 16 v),
                   3 := ucast (drop_bit 24 v), 4 := ucast (drop_bit 32 v),
                   5 := ucast (drop_bit 40 v), 6 := ucast (drop_bit 48 v),
                   7 := ucast (drop_bit 56 v)]))"

definition littleEndian_AppendUint64 :: "byte list \<Rightarrow> u64 \<Rightarrow> byte list" where
  "littleEndian_AppendUint64 b v =
     b @ [ucast v, ucast (drop_bit 8 v), ucast (drop_bit 16 v), ucast (drop_bit 24 v),
          ucast (drop_bit 32 v), ucast (drop_bit 40 v), ucast (drop_bit 48 v),
          ucast (drop_bit 56 v)]"

subsection \<open>Big endian\<close>

definition bigEndian_Uint16 :: "byte list \<Rightarrow> u16 option" where
  "bigEndian_Uint16 b =
     (if length b \<le> 1 then None
      else Some (ucast (b ! 1) OR push_bit 8 (ucast (b ! 0))))"

definition bigEndian_PutUint16 :: "byte list \<Rightarrow> u16 \<Rightarrow> byte list option" where
  "bigEndian_PutUint16 b v =
     (if length b \<le> 1 then None
      else Some (b[0 := ucast (drop_bit 8 v), 1 := ucast v]))"

definition bigEndian_AppendUint16 :: "byte list \<Rightarrow> u16 \<Rightarrow> byte list" where
  "bigEndian_AppendUint16 b v = b @ [ucast (drop_bit 8 v), ucast v]"

definition bigEndian_Uint32 :: "byte list \<Rightarrow> u32 option" where
  "bigEndian_Uint32 b =
     (if length b \<le> 3 then None
      else Some (ucast (b ! 3) OR push_bit 8 (ucast (b ! 2)) OR push_bit 16 (ucast (b ! 1))
                 OR push_bit 24 (ucast (b ! 0))))"

definition bigEndian_PutUint32 :: "byte list \<Rightarrow> u32 \<Rightarrow> byte list option" where
  "bigEndian_PutUint32 b v =
     (if length b \<le> 3 then None
      else Some (b[0 := ucast (drop_bit 24 v), 1 := ucast (drop_bit 16 v),
                   2 := ucast (drop_bit 8 v), 3 := ucast v]))"

definition bigEndian_AppendUint32 :: "byte list \<Rightarrow> u32 \<Rightarrow> byte list" where
  "bigEndian_AppendUint32 b v =
     b @ [ucast (drop_bit 24 v), ucast (drop_bit 16 v), ucast (drop_bit 8 v), ucast v]"

definition bigEndian_Uint64 :: "byte list \<Rightarrow> u64 option" where
  "bigEndian_Uint64 b =
     (if length b \<le> 7 then None
      else Some (ucast (b ! 7) OR push_bit 8 (ucast (b ! 6)) OR push_bit 16 (ucast (b ! 5))
                 OR push_bit 24 (ucast (b ! 4)) OR push_bit 32 (ucast (b ! 3))
                 OR push_bit 40 (ucast (b ! 2)) OR push_bit 48 (ucast (b ! 1))
                 OR push_bit 56 (ucast (b ! 0))))"

definition bigEndian_PutUint64 :: "byte list \<Rightarrow> u64 \<Rightarrow> byte list option" where
  "bigEndian_PutUint64 b v =
     (if length b \<le> 7 then None
      else Some (b[0 := ucast (drop_bit 56 v), 1 := ucast (drop_bit 48 v),
                   2 := ucast (drop_bit 40 v), 3 := ucast (drop_bit 32 v),
                   4 := ucast (drop_bit 24 v), 5 := ucast (drop_bit 16 v),
                   6 := ucast (drop_bit 8 v), 7 := ucast v]))"

definition bigEndian_AppendUint64 :: "byte list \<Rightarrow> u64 \<Rightarrow> byte list" where
  "bigEndian_AppendUint64 b v =
     b @ [ucast (drop_bit 56 v), ucast (drop_bit 48 v), ucast (drop_bit 40 v),
          ucast (drop_bit 32 v), ucast (drop_bit 24 v), ucast (drop_bit 16 v),
          ucast (drop_bit 8 v), ucast v]"

subsection \<open>Splitting a word into bytes and joining the bytes\<close>

lemma ucast_ucast_byte [byte_laws]: "ucast (ucast w :: byte) = take_bit 8 (w :: 'a::len word)"
  by (rule bit_word_eqI) (auto simp: bit_simps)

lemma take_bit_join_or [byte_laws]:
  "take_bit n v OR (push_bit n (take_bit m (drop_bit n v)) OR r)
     = take_bit (n + m) v OR (r :: 'a::len word)"
  by (rule bit_word_eqI) (auto simp: bit_simps)

lemma take_bit_join [byte_laws]:
  "take_bit n v OR push_bit n (take_bit m (drop_bit n v)) = take_bit (n + m) (v :: 'a::len word)"
  using take_bit_join_or [of n v m 0] by simp

lemma take_bit_all [byte_laws]: "LENGTH('a) \<le> n \<Longrightarrow> take_bit n (v :: 'a::len word) = v"
  by (rule bit_word_eqI) (auto simp: bit_simps)

lemma byte_drop_or:
  "(ucast (drop_bit n (a OR b :: 'a::len word)) :: byte)
     = ucast (drop_bit n a) OR ucast (drop_bit n b)"
  by (rule bit_word_eqI) (auto simp: bit_simps)

lemma byte_drop_push_same:
  "n + 8 \<le> LENGTH('a) \<Longrightarrow> ucast (drop_bit n (push_bit n (ucast b :: 'a::len word))) = (b :: byte)"
  by (rule bit_word_eqI) (auto simp: bit_simps)

lemma byte_drop_push_above:
  "n + 8 \<le> m \<Longrightarrow> ucast (drop_bit n (push_bit m (ucast (b :: byte) :: 'a::len word))) = (0 :: byte)"
  by (rule bit_word_eqI) (auto simp: bit_simps)

lemma byte_drop_push_below:
  "m + 8 \<le> n \<Longrightarrow> ucast (drop_bit n (push_bit m (ucast (b :: byte) :: 'a::len word))) = (0 :: byte)"
  by (rule bit_word_eqI) (auto simp: bit_simps dest: bit_imp_le_length)

lemmas byte_drop_push =
  byte_drop_or byte_drop_push_same byte_drop_push_above byte_drop_push_below
  byte_drop_or [where n = 0, simplified] byte_drop_push_same [where n = 0, simplified]
  byte_drop_push_above [where n = 0, simplified] byte_drop_push_below [where m = 0, simplified]

lemma length_ge_2E:
  assumes "2 \<le> length b"
  obtains b0 b1 r where "b = b0 # b1 # r"
  using assms by (auto simp: numeral_eq_Suc Suc_le_length_iff)

lemma length_ge_4E:
  assumes "4 \<le> length b"
  obtains b0 b1 b2 b3 r where "b = b0 # b1 # b2 # b3 # r"
  using assms by (auto simp: numeral_eq_Suc Suc_le_length_iff)

lemma length_ge_8E:
  assumes "8 \<le> length b"
  obtains b0 b1 b2 b3 b4 b5 b6 b7 r where "b = b0 # b1 # b2 # b3 # b4 # b5 # b6 # b7 # r"
  using assms by (auto simp: numeral_eq_Suc Suc_le_length_iff)

lemma split_at_length: "n \<le> length b \<Longrightarrow> \<exists>p r. b = p @ r \<and> length p = n"
  by (rule exI [of _ "take n b"]) (metis append_take_drop_id length_take min.absorb2)

subsection \<open>The byte-order interface\<close>

locale uint_codec =
  fixes width :: nat
    and get :: "byte list \<Rightarrow> 'v option"
    and put :: "byte list \<Rightarrow> 'v \<Rightarrow> byte list option"
    and app :: "byte list \<Rightarrow> 'v \<Rightarrow> byte list"
  assumes get_short: "length b < width \<Longrightarrow> get b = None"
    and put_short: "length b < width \<Longrightarrow> put b v = None"
    and app_app: "app b v = b @ app [] v"
    and length_app: "length (app [] v) = width"
    and put_app: "width \<le> length b \<Longrightarrow> put b v = Some (app [] v @ drop width b)"
    and get_app: "get (app [] v @ r) = Some v"
    and app_surj: "length b = width \<Longrightarrow> \<exists>v. b = app [] v"
begin

lemma get_defined: "get b = None \<longleftrightarrow> length b < width"
proof
  assume none: "get b = None"
  show "length b < width"
  proof (rule ccontr)
    assume "\<not> length b < width"
    then obtain p r where "b = p @ r" "length p = width"
      using split_at_length by (metis not_less)
    moreover obtain v where "p = app [] v"
      using app_surj \<open>length p = width\<close> by blast
    ultimately show False
      using none get_app by simp
  qed
qed (rule get_short)

lemma get_of_put:
  assumes "put b v = Some b'"
  shows "get b' = Some v \<and> length b' = length b \<and> drop width b' = drop width b"
proof -
  have "width \<le> length b"
    using assms put_short by (metis not_less option.distinct(1))
  with assms have "b' = app [] v @ drop width b"
    using put_app by simp
  with \<open>width \<le> length b\<close> show ?thesis
    by (simp add: get_app length_app)
qed

lemma app_of_get: "get b = Some v \<Longrightarrow> take width b = app [] v"
proof -
  assume g: "get b = Some v"
  then have "width \<le> length b"
    using get_short by (metis not_less option.distinct(1))
  then obtain p r where b: "b = p @ r" "length p = width"
    using split_at_length by blast
  moreover obtain w where "p = app [] w"
    using app_surj b(2) by blast
  ultimately show "take width b = app [] v"
    using g get_app by auto
qed

lemma app_inj:
  assumes "app [] v @ r = app [] w @ s"
  shows "v = w \<and> r = s"
proof -
  have "Some v = Some w"
    using get_app [of v r] get_app [of w s] assms by simp
  with assms show ?thesis by simp
qed

end

locale byte_order =
  w16: uint_codec 2 Uint16 PutUint16 AppendUint16 +
  w32: uint_codec 4 Uint32 PutUint32 AppendUint32 +
  w64: uint_codec 8 Uint64 PutUint64 AppendUint64
  for Uint16 :: "byte list \<Rightarrow> u16 option" and PutUint16 and AppendUint16
    and Uint32 :: "byte list \<Rightarrow> u32 option" and PutUint32 and AppendUint32
    and Uint64 :: "byte list \<Rightarrow> u64 option" and PutUint64 and AppendUint64

lemmas little_endian_defs =
  littleEndian_Uint16_def littleEndian_PutUint16_def littleEndian_AppendUint16_def
  littleEndian_Uint32_def littleEndian_PutUint32_def littleEndian_AppendUint32_def
  littleEndian_Uint64_def littleEndian_PutUint64_def littleEndian_AppendUint64_def

lemmas big_endian_defs =
  bigEndian_Uint16_def bigEndian_PutUint16_def bigEndian_AppendUint16_def
  bigEndian_Uint32_def bigEndian_PutUint32_def bigEndian_AppendUint32_def
  bigEndian_Uint64_def bigEndian_PutUint64_def bigEndian_AppendUint64_def

lemma littleEndian_codec16:
  "uint_codec 2 littleEndian_Uint16 littleEndian_PutUint16 littleEndian_AppendUint16"
proof
  fix b and v :: u16
  show "2 \<le> length b \<Longrightarrow>
      littleEndian_PutUint16 b v = Some (littleEndian_AppendUint16 [] v @ drop 2 b)"
    by (erule length_ge_2E) (simp add: little_endian_defs)
  assume len: "length b = 2"
  from len [symmetric] have "b = littleEndian_AppendUint16 [] (the (littleEndian_Uint16 b))"
    by (rule length_ge_2E [OF eq_refl]) (use len in \<open>simp add: little_endian_defs byte_drop_push\<close>)
  then show "\<exists>v. b = littleEndian_AppendUint16 [] v" ..
qed (simp_all add: little_endian_defs byte_laws)

lemma bigEndian_codec16:
  "uint_codec 2 bigEndian_Uint16 bigEndian_PutUint16 bigEndian_AppendUint16"
proof
  fix b and v :: u16
  show "2 \<le> length b \<Longrightarrow>
      bigEndian_PutUint16 b v = Some (bigEndian_AppendUint16 [] v @ drop 2 b)"
    by (erule length_ge_2E) (simp add: big_endian_defs)
  assume len: "length b = 2"
  from len [symmetric] have "b = bigEndian_AppendUint16 [] (the (bigEndian_Uint16 b))"
    by (rule length_ge_2E [OF eq_refl]) (use len in \<open>simp add: big_endian_defs byte_drop_push\<close>)
  then show "\<exists>v. b = bigEndian_AppendUint16 [] v" ..
qed (simp_all add: big_endian_defs byte_laws)

lemma littleEndian_codec32:
  "uint_codec 4 littleEndian_Uint32 littleEndian_PutUint32 littleEndian_AppendUint32"
proof
  fix b and v :: u32
  show "4 \<le> length b \<Longrightarrow>
      littleEndian_PutUint32 b v = Some (littleEndian_AppendUint32 [] v @ drop 4 b)"
    by (erule length_ge_4E) (simp add: little_endian_defs)
  assume len: "length b = 4"
  from len [symmetric] have "b = littleEndian_AppendUint32 [] (the (littleEndian_Uint32 b))"
    by (rule length_ge_4E [OF eq_refl]) (use len in \<open>simp add: little_endian_defs byte_drop_push\<close>)
  then show "\<exists>v. b = littleEndian_AppendUint32 [] v" ..
qed (simp_all add: little_endian_defs byte_laws)

lemma bigEndian_codec32:
  "uint_codec 4 bigEndian_Uint32 bigEndian_PutUint32 bigEndian_AppendUint32"
proof
  fix b and v :: u32
  show "4 \<le> length b \<Longrightarrow>
      bigEndian_PutUint32 b v = Some (bigEndian_AppendUint32 [] v @ drop 4 b)"
    by (erule length_ge_4E) (simp add: big_endian_defs)
  assume len: "length b = 4"
  from len [symmetric] have "b = bigEndian_AppendUint32 [] (the (bigEndian_Uint32 b))"
    by (rule length_ge_4E [OF eq_refl]) (use len in \<open>simp add: big_endian_defs byte_drop_push\<close>)
  then show "\<exists>v. b = bigEndian_AppendUint32 [] v" ..
qed (simp_all add: big_endian_defs byte_laws)

lemma littleEndian_codec64:
  "uint_codec 8 littleEndian_Uint64 littleEndian_PutUint64 littleEndian_AppendUint64"
proof
  fix b and v :: u64
  show "8 \<le> length b \<Longrightarrow>
      littleEndian_PutUint64 b v = Some (littleEndian_AppendUint64 [] v @ drop 8 b)"
    by (erule length_ge_8E) (simp add: little_endian_defs)
  assume len: "length b = 8"
  from len [symmetric] have "b = littleEndian_AppendUint64 [] (the (littleEndian_Uint64 b))"
    by (rule length_ge_8E [OF eq_refl]) (use len in \<open>simp add: little_endian_defs byte_drop_push\<close>)
  then show "\<exists>v. b = littleEndian_AppendUint64 [] v" ..
qed (simp_all add: little_endian_defs byte_laws)

lemma bigEndian_codec64:
  "uint_codec 8 bigEndian_Uint64 bigEndian_PutUint64 bigEndian_AppendUint64"
proof
  fix b and v :: u64
  show "8 \<le> length b \<Longrightarrow>
      bigEndian_PutUint64 b v = Some (bigEndian_AppendUint64 [] v @ drop 8 b)"
    by (erule length_ge_8E) (simp add: big_endian_defs)
  assume len: "length b = 8"
  from len [symmetric] have "b = bigEndian_AppendUint64 [] (the (bigEndian_Uint64 b))"
    by (rule length_ge_8E [OF eq_refl]) (use len in \<open>simp add: big_endian_defs byte_drop_push\<close>)
  then show "\<exists>v. b = bigEndian_AppendUint64 [] v" ..
qed (simp_all add: big_endian_defs byte_laws)

interpretation LittleEndian: byte_order
  littleEndian_Uint16 littleEndian_PutUint16 littleEndian_AppendUint16
  littleEndian_Uint32 littleEndian_PutUint32 littleEndian_AppendUint32
  littleEndian_Uint64 littleEndian_PutUint64 littleEndian_AppendUint64
  by (intro byte_order.intro littleEndian_codec16 littleEndian_codec32 littleEndian_codec64)

interpretation BigEndian: byte_order
  bigEndian_Uint16 bigEndian_PutUint16 bigEndian_AppendUint16
  bigEndian_Uint32 bigEndian_PutUint32 bigEndian_AppendUint32
  bigEndian_Uint64 bigEndian_PutUint64 bigEndian_AppendUint64
  by (intro byte_order.intro bigEndian_codec16 bigEndian_codec32 bigEndian_codec64)

end
