(* ===== verification/Go_Varint.thy ===== *)
theory Go_Varint
  imports Go_Binary
begin

text \<open>
  The variable-length integers of \<^verbatim>\<open>encoding/binary/varint.go\<close>: seven bits of the value
  in each byte, least significant group first, the top bit set on every byte but the
  last. The proxy reads the type of each request with \<^verbatim>\<open>ReadUvarint\<close>.

  Results: decoding inverts encoding, on a buffer (\<open>Uvarint\<close>) and on a byte reader
  (\<open>ReadUvarint\<close>); an encoding has at most ten bytes; the two decoders agree; the
  zig-zag mapping of \<open>Varint\<close> inverts that of \<open>AppendVarint\<close>.
\<close>

definition MaxVarintLen64 :: nat where
  "MaxVarintLen64 = 10"

subsection \<open>Encoding\<close>

lemma unat_drop_7_less: "0x80 \<le> x \<Longrightarrow> unat (drop_bit 7 x) < unat (x :: u64)"
  by (simp add: word_le_nat_alt drop_bit_eq_div unat_div)

function AppendUvarint :: "byte list \<Rightarrow> u64 \<Rightarrow> byte list" where
  "AppendUvarint buf x =
     (if 0x80 \<le> x then AppendUvarint (buf @ [ucast x OR 0x80]) (drop_bit 7 x)
      else buf @ [ucast x])"
  by pat_completeness auto
termination
  by (relation "measure (\<lambda>(buf, x). unat x)") (simp_all add: unat_drop_7_less)

declare AppendUvarint.simps [simp del]

text \<open>\<^verbatim>\<open>PutUvarint\<close> writes into a buffer of its caller and panics when it is too small.\<close>

function PutUvarint_loop :: "byte list \<Rightarrow> nat \<Rightarrow> u64 \<Rightarrow> (byte list \<times> nat) option" where
  "PutUvarint_loop buf i x =
     (if 0x80 \<le> x then
        if i < length buf
        then PutUvarint_loop (buf[i := ucast x OR 0x80]) (i + 1) (drop_bit 7 x)
        else None
      else if i < length buf then Some (buf[i := ucast x], i + 1) else None)"
  by pat_completeness auto
termination
  by (relation "measure (\<lambda>(buf, i, x). unat x)") (simp_all add: unat_drop_7_less)

declare PutUvarint_loop.simps [simp del]

definition PutUvarint :: "byte list \<Rightarrow> u64 \<Rightarrow> (byte list \<times> nat) option" where
  "PutUvarint buf x = PutUvarint_loop buf 0 x"

definition AppendVarint :: "byte list \<Rightarrow> i64 \<Rightarrow> byte list" where
  "AppendVarint buf x =
     (let ux = push_bit 1 x in AppendUvarint buf (if x <s 0 then NOT ux else ux))"

definition PutVarint :: "byte list \<Rightarrow> i64 \<Rightarrow> (byte list \<times> nat) option" where
  "PutVarint buf x =
     (let ux = push_bit 1 x in PutUvarint buf (if x <s 0 then NOT ux else ux))"

subsection \<open>Decoding\<close>

fun Uvarint_loop :: "nat \<Rightarrow> u64 \<Rightarrow> nat \<Rightarrow> byte list \<Rightarrow> u64 \<times> int" where
  "Uvarint_loop i x s [] = (0, 0)"
| "Uvarint_loop i x s (b # bs) =
     (if i = MaxVarintLen64 then (0, - (int i + 1))
      else if b < 0x80 then
        if i = MaxVarintLen64 - 1 \<and> 1 < b then (0, - (int i + 1))
        else (x OR push_bit s (ucast b), int i + 1)
      else Uvarint_loop (i + 1) (x OR push_bit s (ucast (b AND 0x7f))) (s + 7) bs)"

definition Uvarint :: "byte list \<Rightarrow> u64 \<times> int" where
  "Uvarint buf = Uvarint_loop 0 0 0 buf"

definition Varint :: "byte list \<Rightarrow> i64 \<times> int" where
  "Varint buf =
     (let (ux, n) = Uvarint buf; x = drop_bit 1 ux
      in (if ux AND 1 \<noteq> 0 then NOT x else x, n))"

text \<open>The byte reader is an argument: its state, and what \<^verbatim>\<open>ReadByte\<close> returns there.\<close>

function ReadUvarint_loop ::
  "('r \<Rightarrow> byte \<times> io_error option \<times> 'r) \<Rightarrow> nat \<Rightarrow> u64 \<Rightarrow> nat \<Rightarrow> 'r \<Rightarrow> u64 \<times> io_error option \<times> 'r" where
  "ReadUvarint_loop rb i x s r =
     (if i < MaxVarintLen64 then
        (case rb r of
           (b, Some err, r') \<Rightarrow>
             (x, Some (if 0 < i \<and> err = EOF then ErrUnexpectedEOF else err), r')
         | (b, None, r') \<Rightarrow>
             if b < 0x80 then
               if i = MaxVarintLen64 - 1 \<and> 1 < b then (x, Some errOverflow, r')
               else (x OR push_bit s (ucast b), None, r')
             else ReadUvarint_loop rb (i + 1) (x OR push_bit s (ucast (b AND 0x7f))) (s + 7) r')
      else (x, Some errOverflow, r))"
  by pat_completeness auto
termination
  by (relation "measure (\<lambda>(rb, i, x, s, r). MaxVarintLen64 - i)") auto

declare ReadUvarint_loop.simps [simp del]

definition ReadUvarint ::
  "('r \<Rightarrow> byte \<times> io_error option \<times> 'r) \<Rightarrow> 'r \<Rightarrow> u64 \<times> io_error option \<times> 'r" where
  "ReadUvarint rb r = ReadUvarint_loop rb 0 0 0 r"

definition ReadVarint ::
  "('r \<Rightarrow> byte \<times> io_error option \<times> 'r) \<Rightarrow> 'r \<Rightarrow> i64 \<times> io_error option \<times> 'r" where
  "ReadVarint rb r =
     (let (ux, err, r') = ReadUvarint rb r; x = drop_bit 1 ux
      in (if ux AND 1 \<noteq> 0 then NOT x else x, err, r'))"

text \<open>The byte reader over a list of bytes that ends with \<^const>\<open>EOF\<close>.\<close>

fun list_ReadByte :: "byte list \<Rightarrow> byte \<times> io_error option \<times> byte list" where
  "list_ReadByte [] = (0, Some EOF, [])"
| "list_ReadByte (b # bs) = (b, None, bs)"

text \<open>\<open>delivers rb r bs r'\<close>: from \<open>r\<close>, successive calls of \<^verbatim>\<open>ReadByte\<close> return the bytes
  \<open>bs\<close> without an error and leave \<open>r'\<close>.\<close>

fun delivers :: "('r \<Rightarrow> byte \<times> io_error option \<times> 'r) \<Rightarrow> 'r \<Rightarrow> byte list \<Rightarrow> 'r \<Rightarrow> bool" where
  "delivers rb r [] r' \<longleftrightarrow> r' = r"
| "delivers rb r (b # bs) r' \<longleftrightarrow> (\<exists>r1. rb r = (b, None, r1) \<and> delivers rb r1 bs r')"

subsection \<open>Encodings as lists\<close>

lemma AppendUvarint_append: "AppendUvarint buf x = buf @ AppendUvarint [] x"
proof (induction x arbitrary: buf rule: measure_induct_rule [of unat])
  case (less x)
  show ?case
  proof (cases "0x80 \<le> x")
    case True
    have step: "AppendUvarint b (drop_bit 7 x) = b @ AppendUvarint [] (drop_bit 7 x)" for b
      using less unat_drop_7_less [OF True] by blast
    show ?thesis
      using True step [of "buf @ [ucast x OR 0x80]"] step [of "[ucast x OR 0x80]"]
      by (simp add: AppendUvarint.simps [of _ x])
  next
    case False
    then show ?thesis by (simp add: AppendUvarint.simps [of _ x])
  qed
qed

lemma AppendUvarint_Nil:
  "AppendUvarint [] x =
     (if 0x80 \<le> x then (ucast x OR 0x80) # AppendUvarint [] (drop_bit 7 x) else [ucast x])"
  by (subst AppendUvarint.simps) (simp add: AppendUvarint_append [of "[_]"])

lemma PutUvarint_loop_append:
  "PutUvarint_loop buf i x =
     (let e = AppendUvarint [] x
      in if i + length e \<le> length buf
         then Some (take i buf @ e @ drop (i + length e) buf, i + length e) else None)"
proof (induction buf i x rule: PutUvarint_loop.induct)
  case (1 buf i x)
  then show ?case
    by (subst PutUvarint_loop.simps, subst AppendUvarint_Nil)
       (auto simp: Let_def take_Suc_conv_app_nth upd_conv_take_nth_drop ac_simps)
qed

lemma PutUvarint_append:
  "PutUvarint buf x =
     (let e = AppendUvarint [] x
      in if length e \<le> length buf then Some (e @ drop (length e) buf, length e) else None)"
  by (simp add: PutUvarint_def PutUvarint_loop_append Let_def)

subsection \<open>Decoding inverts encoding\<close>

lemma and_0x7f: "b AND 0x7f = take_bit 7 (b :: byte)"
  by (simp add: take_bit_eq_mask mask_numeral)

lemma low_group: "ucast ((ucast x OR 0x80 :: byte) AND 0x7f) = take_bit 7 (x :: u64)"
proof -
  have "take_bit 7 (ucast x OR 0x80 :: byte) = take_bit 7 (ucast x)"
    by simp
  then have "ucast ((ucast x OR 0x80 :: byte) AND 0x7f) = (ucast (take_bit 7 (ucast x :: byte)) :: u64)"
    by (simp only: and_0x7f)
  also have "\<dots> = take_bit 7 x"
    by (rule bit_word_eqI) (auto simp: bit_simps)
  finally show ?thesis .
qed

lemma continuation_byte: "\<not> (b OR 0x80 :: byte) < 0x80"
  using le_word_or1 [of "0x80 :: byte" b] by simp

lemma drop_bit_63_le: "drop_bit 63 (x :: u64) \<le> 1"
proof -
  have "unat x < 2 ^ 64"
    using unsigned_less [of x, where 'a = nat] by simp
  then have "unat (drop_bit 63 x) \<le> 1"
    by (simp add: unat_drop_bit_eq drop_bit_eq_div unat_div)
  then show ?thesis
    by (simp add: word_le_nat_alt)
qed

lemma take_bit_or_drop_bit: "take_bit n x OR push_bit n (drop_bit n x) = (x :: 'a::len word)"
  by (rule bit_word_eqI) (auto simp: bit_simps not_less, metis le_add_diff_inverse not_less)

lemma take_bit_8_small: "x < 0x80 \<Longrightarrow> take_bit 8 (x :: u64) = x"
  by (simp add: take_bit_eq_mod word_less_nat_alt word_eq_iff_unsigned [where 'a = nat] unat_mod)

lemma ucast_small: "(x :: u64) < 0x80 \<Longrightarrow> unat (ucast x :: byte) = unat x"
  by (simp add: unsigned_ucast_eq word_less_nat_alt take_bit_nat_eq_self)

lemma ucast_small_less: "(x :: u64) < 0x80 \<Longrightarrow> (ucast x :: byte) < 0x80"
  using ucast_small [of x] by (simp add: word_less_nat_alt)

text \<open>After \<open>k\<close> bytes the accumulator holds the low \<open>7 * k\<close> bits of the value, and what
  is still to be read encodes the rest of it.\<close>

lemma varint_step:
  assumes "0x80 \<le> drop_bit (7 * k) (x :: u64)"
  shows "AppendUvarint [] (drop_bit (7 * k) x) =
      (ucast (drop_bit (7 * k) x) OR 0x80) # AppendUvarint [] (drop_bit (7 * Suc k) x)"
    and "take_bit (7 * k) x OR push_bit (7 * k)
          (ucast ((ucast (drop_bit (7 * k) x) OR 0x80 :: byte) AND 0x7f)) = take_bit (7 * Suc k) x"
    and "\<not> 9 \<le> k"
proof -
  show "AppendUvarint [] (drop_bit (7 * k) x) =
      (ucast (drop_bit (7 * k) x) OR 0x80) # AppendUvarint [] (drop_bit (7 * Suc k) x)"
    using assms by (subst AppendUvarint_Nil) simp
  show "take_bit (7 * k) x OR push_bit (7 * k)
          (ucast ((ucast (drop_bit (7 * k) x) OR 0x80 :: byte) AND 0x7f)) = take_bit (7 * Suc k) x"
    unfolding low_group take_bit_join by (simp add: add.commute)
  show "\<not> 9 \<le> k"
  proof
    assume "9 \<le> k"
    then have "drop_bit (7 * k) x = drop_bit (7 * k - 63) (drop_bit 63 x)"
      by simp
    also have "\<dots> \<le> drop_bit 63 x"
      unfolding word_le_nat_alt unat_drop_bit_eq by (simp add: drop_bit_eq_div)
    also have "\<dots> \<le> 1"
      by (rule drop_bit_63_le)
    finally show False
      using assms by (simp add: word_le_nat_alt)
  qed
qed

lemma varint_last:
  assumes "drop_bit (7 * k) (x :: u64) < 0x80"
  shows "AppendUvarint [] (drop_bit (7 * k) x) = [ucast (drop_bit (7 * k) x)]"
    and "(ucast (drop_bit (7 * k) x) :: byte) < 0x80"
    and "take_bit (7 * k) x OR push_bit (7 * k) (ucast (ucast (drop_bit (7 * k) x) :: byte)) = x"
    and "k = 9 \<Longrightarrow> \<not> 1 < (ucast (drop_bit (7 * k) x) :: byte)"
proof -
  show "AppendUvarint [] (drop_bit (7 * k) x) = [ucast (drop_bit (7 * k) x)]"
    using assms by (subst AppendUvarint_Nil) simp
  show "(ucast (drop_bit (7 * k) x) :: byte) < 0x80"
    using assms by (rule ucast_small_less)
  show "take_bit (7 * k) x OR push_bit (7 * k) (ucast (ucast (drop_bit (7 * k) x) :: byte)) = x"
    by (simp add: ucast_ucast_byte take_bit_8_small [OF assms] take_bit_or_drop_bit)
  show "\<not> 1 < (ucast (drop_bit (7 * k) x) :: byte)" if "k = 9"
    using drop_bit_63_le [of x] ucast_small [OF assms] that by (simp add: word_less_nat_alt word_le_nat_alt)
qed

lemma Uvarint_loop_encoded:
  assumes "k \<le> 9"
  shows "Uvarint_loop k (take_bit (7 * k) x) (7 * k) (AppendUvarint [] (drop_bit (7 * k) x) @ r)
           = (x, int (k + length (AppendUvarint [] (drop_bit (7 * k) x))))"
  using assms
proof (induction "9 - k" arbitrary: k)
  case 0
  then have "\<not> 0x80 \<le> drop_bit (7 * k) x"
    using varint_step(3) [of k x] by auto
  with 0 show ?case
    using varint_last [of k x] by (simp add: MaxVarintLen64_def not_le)
next
  case (Suc n)
  show ?case
  proof (cases "0x80 \<le> drop_bit (7 * k) x")
    case True
    from Suc have IH: "Uvarint_loop (Suc k) (take_bit (7 * Suc k) x) (7 * Suc k)
        (AppendUvarint [] (drop_bit (7 * Suc k) x) @ r)
          = (x, int (Suc k + length (AppendUvarint [] (drop_bit (7 * Suc k) x))))"
      by (metis Suc_diff_Suc Suc_inject Suc_leI less_eq_Suc_le zero_less_Suc zero_less_diff)
    have "Uvarint_loop k (take_bit (7 * k) x) (7 * k)
        ((ucast (drop_bit (7 * k) x) OR 0x80) # AppendUvarint [] (drop_bit (7 * Suc k) x) @ r)
      = Uvarint_loop (Suc k) (take_bit (7 * Suc k) x) (7 * Suc k)
        (AppendUvarint [] (drop_bit (7 * Suc k) x) @ r)"
      using Suc.prems varint_step(2) [OF True]
      by (simp add: MaxVarintLen64_def continuation_byte add.commute)
    with IH show ?thesis
      by (simp add: varint_step(1) [OF True])
  next
    case False
    with Suc.hyps(2) show ?thesis
      using varint_last [of k x] by (simp add: MaxVarintLen64_def not_le)
  qed
qed

lemma length_AppendUvarint_drop:
  assumes "k \<le> 9"
  shows "length (AppendUvarint [] (drop_bit (7 * k) x)) \<le> 10 - k"
  using assms
proof (induction "9 - k" arbitrary: k)
  case 0
  then have "\<not> 0x80 \<le> drop_bit (7 * k) x"
    using varint_step(3) [of k x] by auto
  with 0 show ?case
    using varint_last(1) [of k x] by (simp add: not_le)
next
  case (Suc n)
  then have IH: "length (AppendUvarint [] (drop_bit (7 * Suc k) x)) \<le> 10 - Suc k"
    by (metis Suc_diff_Suc Suc_inject Suc_leI zero_less_Suc zero_less_diff)
  show ?case
  proof (cases "0x80 \<le> drop_bit (7 * k) x")
    case True
    with IH Suc.hyps(2) show ?thesis
      by (simp add: varint_step(1))
  next
    case False
    with Suc.prems show ?thesis
      using varint_last(1) [of k x] by (simp add: not_le)
  qed
qed

lemma ReadUvarint_loop_encoded:
  assumes "k \<le> 9" and "delivers rb r (AppendUvarint [] (drop_bit (7 * k) x)) r'"
  shows "ReadUvarint_loop rb k (take_bit (7 * k) x) (7 * k) r = (x, None, r')"
  using assms
proof (induction "9 - k" arbitrary: k r)
  case 0
  then have "\<not> 0x80 \<le> drop_bit (7 * k) x"
    using varint_step(3) [of k x] by auto
  with 0 show ?case
    using varint_last [of k x]
    by (subst ReadUvarint_loop.simps) (auto simp: MaxVarintLen64_def not_le)
next
  case (Suc n)
  show ?case
  proof (cases "0x80 \<le> drop_bit (7 * k) x")
    case True
    obtain r1 where rb: "rb r = (ucast (drop_bit (7 * k) x) OR 0x80, None, r1)"
      and rest: "delivers rb r1 (AppendUvarint [] (drop_bit (7 * Suc k) x)) r'"
      using Suc.prems(2) by (auto simp: varint_step(1) [OF True])
    have "ReadUvarint_loop rb (Suc k) (take_bit (7 * Suc k) x) (7 * Suc k) r1 = (x, None, r')"
      using Suc rest by (metis Suc_diff_Suc Suc_inject Suc_leI zero_less_Suc zero_less_diff)
    with rb Suc.prems varint_step(2) [OF True] show ?thesis
      by (subst ReadUvarint_loop.simps)
         (simp add: MaxVarintLen64_def continuation_byte add.commute)
  next
    case False
    with Suc.hyps(2) Suc.prems show ?thesis
      using varint_last [of k x]
      by (subst ReadUvarint_loop.simps) (auto simp: MaxVarintLen64_def not_le)
  qed
qed

lemma zigzag_inverse:
  fixes x :: i64
  defines "ux \<equiv> if x <s 0 then NOT (push_bit 1 x) else push_bit 1 x"
  shows "(if ux AND 1 \<noteq> 0 then NOT (drop_bit 1 ux) else drop_bit 1 ux) = x"
proof -
  define p where "p = push_bit 1 x"
  have p: "bit p n \<longleftrightarrow> 0 < n \<and> n < 64 \<and> bit x (n - 1)" for n
    by (auto simp only: p_def bit_push_bit_iff possible_bit_word) auto
  have top: "n < 63 \<or> n = 63" if "n < 64" for n :: nat
    using that by linarith
  have neg: "x <s 0 \<longleftrightarrow> bit x 63"
    using bit_last_iff [of x] by (simp add: word_sless_alt)
  have ux: "ux = (if bit x 63 then NOT p else p)"
    by (simp add: ux_def neg p_def)
  have "ux AND 1 \<noteq> 0 \<longleftrightarrow> bit ux 0"
    by (simp add: and_one_eq bit_0 odd_iff_mod_2_eq_one)
  then have "ux AND 1 \<noteq> 0 \<longleftrightarrow> bit x 63"
    by (simp add: ux bit_simps p)
  moreover have "NOT (drop_bit 1 (NOT p)) = x" if "bit x 63"
    using that top by (intro bit_word_eqI) (auto simp: bit_simps p)
  moreover have "drop_bit 1 p = x" if "\<not> bit x 63"
    using that top by (intro bit_word_eqI) (auto simp: bit_simps p)
  ultimately show ?thesis
    by (simp add: ux)
qed

subsection \<open>The decoders\<close>

text \<open>What a byte reader over the rest \<open>bs\<close> of a buffer has to return after \<open>i\<close> bytes, given the result of the
  decoder on the buffer.\<close>

definition reads_as :: "nat \<Rightarrow> byte list \<Rightarrow> u64 \<times> int \<Rightarrow> u64 \<times> io_error option \<times> byte list \<Rightarrow> bool" where
  "reads_as i bs res rd \<longleftrightarrow>
     (case (res, rd) of
        ((v, n), (u, err, rest)) \<Rightarrow>
          if 0 < n then int i < n \<and> u = v \<and> err = None \<and> rest = drop (nat n - i) bs
          else if n < 0 \<or> MaxVarintLen64 \<le> i + length bs
          then err = Some errOverflow \<and> rest = drop (MaxVarintLen64 - i) bs
          else err = Some (if i = 0 \<and> bs = [] then EOF else ErrUnexpectedEOF) \<and> rest = [])"

lemma reads_as_Cons:
  assumes "reads_as (i + 1) bs (v, n) rd" and "i < 10" and "i + 1 < nat n \<or> n \<le> 0"
  shows "reads_as i (b # bs) (v, n) rd"
proof -
  obtain u err rest where rd: "rd = (u, err, rest)" by (cases rd)
  have "drop (nat n - i) (b # bs) = drop (nat n - (i + 1)) bs" if "0 < n"
    using that assms(3) by (simp add: drop_Cons' )
  moreover have "drop (MaxVarintLen64 - i) (b # bs) = drop (MaxVarintLen64 - (i + 1)) bs"
    using assms(2) by (simp add: MaxVarintLen64_def drop_Cons')
  ultimately show ?thesis
    using assms(1,3) unfolding reads_as_def rd by (auto split: if_splits)
qed

lemma ReadUvarint_loop_reads:
  "i \<le> 10 \<Longrightarrow> reads_as i bs (Uvarint_loop i x s bs) (ReadUvarint_loop list_ReadByte i x s bs)"
proof (induction i x s bs rule: Uvarint_loop.induct)
  case (1 i x s)
  then show ?case by (subst ReadUvarint_loop.simps) (auto simp: reads_as_def MaxVarintLen64_def)
next
  case (2 i x s b bs)
  show ?case
  proof (cases "i = 10 \<or> b < 0x80")
    case True
    with 2(2) show ?thesis
      by (subst ReadUvarint_loop.simps)
         (auto simp: reads_as_def MaxVarintLen64_def nat_add_distrib split: if_splits)
  next
    case False
    let ?x = "x OR push_bit s (ucast (b AND 0x7f))"
    obtain v n where u: "Uvarint_loop (i + 1) ?x (s + 7) bs = (v, n)" by force
    have i: "i < 10" using False 2(2) by simp
    have IH: "reads_as (i + 1) bs (v, n) (ReadUvarint_loop list_ReadByte (i + 1) ?x (s + 7) bs)"
      using 2(1) False i u by (simp add: MaxVarintLen64_def)
    then have "i + 1 < nat n \<or> n \<le> 0" by (auto simp: reads_as_def split: prod.splits if_splits)
    note cons = reads_as_Cons [OF IH i this, of b]
    have "Uvarint_loop i x s (b # bs) = (v, n)" using False u by (simp add: MaxVarintLen64_def)
    moreover have "ReadUvarint_loop list_ReadByte i x s (b # bs) = ReadUvarint_loop list_ReadByte (i + 1) ?x (s + 7) bs"
      using False i by (subst ReadUvarint_loop.simps) (simp add: MaxVarintLen64_def)
    ultimately show ?thesis using cons by (simp only:)
  qed
qed

text \<open>C18: decoding what \<^verbatim>\<open>AppendUvarint\<close> wrote gives back the value and the number of bytes of
  its encoding, whatever bytes follow, for every 64-bit value; and an encoding has between
  one and ten bytes (\<^verbatim>\<open>MaxVarintLen64\<close>).\<close>

theorem Uvarint_AppendUvarint:
  "Uvarint (AppendUvarint [] x @ r) = (x, int (length (AppendUvarint [] x)))
   \<and> 0 < length (AppendUvarint [] x) \<and> length (AppendUvarint [] x) \<le> MaxVarintLen64"
  using Uvarint_loop_encoded [of 0 x r] length_AppendUvarint_drop [of 0 x]
  by (simp add: Uvarint_def MaxVarintLen64_def AppendUvarint_Nil [of x])

text \<open>C19: \<^verbatim>\<open>ReadUvarint\<close> on any byte reader that delivers the encoding of a value returns that
  value without an error and consumes exactly the bytes of the encoding.\<close>

theorem ReadUvarint_AppendUvarint:
  assumes "delivers rb r (AppendUvarint [] x) r'"
  shows "ReadUvarint rb r = (x, None, r')"
  using ReadUvarint_loop_encoded [of 0 rb r x r'] assms by (simp add: ReadUvarint_def)

theorem ReadUvarint_AppendUvarint_witness:
  "delivers list_ReadByte [0xac, 0x02, 7] (AppendUvarint [] 300) [7]
   \<and> ReadUvarint list_ReadByte [0xac, 0x02, 7] = (300, None, [7])"
proof -
  have "delivers list_ReadByte [0xac, 0x02, 7] (AppendUvarint [] 300) [7]"
    by (simp add: AppendUvarint_Nil)
  from this ReadUvarint_AppendUvarint [OF this] show ?thesis ..
qed

text \<open>The zig-zag encoded signed integers round-trip: decoding the bytes that
  \<^verbatim>\<open>AppendVarint\<close> wrote gives back every 64-bit signed value, the most negative one
  included.\<close>

theorem Varint_AppendVarint:
  "Varint (AppendVarint [] x @ r) = (x, int (length (AppendVarint [] x)))"
proof -
  define ux where "ux = (if x <s 0 then NOT (push_bit 1 x) else push_bit 1 x)"
  have "AppendVarint [] x = AppendUvarint [] ux"
    by (simp add: AppendVarint_def ux_def Let_def)
  moreover have "Uvarint (AppendUvarint [] ux @ r) = (ux, int (length (AppendUvarint [] ux)))"
    using Uvarint_loop_encoded [of 0 ux r] by (simp add: Uvarint_def)
  moreover have "(if ux AND 1 \<noteq> 0 then NOT (drop_bit 1 ux) else drop_bit 1 ux) = x"
    unfolding ux_def by (rule zigzag_inverse)
  ultimately show ?thesis
    by (simp only: Varint_def Let_def prod.case)
qed

text \<open>C20: \<^verbatim>\<open>ReadUvarint\<close> over a buffer agrees with \<^verbatim>\<open>Uvarint\<close> on the buffer in every outcome. Where \<^verbatim>\<open>Uvarint\<close> finds a
  value, \<^verbatim>\<open>ReadUvarint\<close> returns it and stops after the same number of bytes. Where \<^verbatim>\<open>Uvarint\<close> reports
  an overflow, so does \<^verbatim>\<open>ReadUvarint\<close>, after ten bytes; it does so too on ten bytes without an end, which
  \<^verbatim>\<open>Uvarint\<close> reports as a buffer that is too small. On every other buffer that is too small the
  error is \<^verbatim>\<open>io.EOF\<close> if it is empty and \<^verbatim>\<open>io.ErrUnexpectedEOF\<close> if not.\<close>

theorem ReadUvarint_agrees_Uvarint:
  "case (Uvarint buf, ReadUvarint list_ReadByte buf) of
     ((v, n), (u, err, rest)) \<Rightarrow>
       if 0 < n then u = v \<and> err = None \<and> rest = drop (nat n) buf
       else if n < 0 \<or> 10 \<le> length buf then err = Some errOverflow \<and> rest = drop 10 buf
       else err = Some (if buf = [] then EOF else ErrUnexpectedEOF) \<and> rest = []"
  using ReadUvarint_loop_reads [of 0 buf 0 0]
  by (auto simp: Uvarint_def ReadUvarint_def reads_as_def MaxVarintLen64_def split: prod.splits)

end
