(* ===== verification/Go_Map.thy ===== *)
theory Go_Map
  imports Go_Prelude "HOL-Library.AList"
begin

text \<open>
  The interface of a key-value store as the locale \<open>go_map\<close>: lookup, store and delete
  with their laws, and the entries an iteration visits. Go's built-in map, modelled here
  as an association list without duplicate keys, provides it; so does the \<^verbatim>\<open>sync.Map\<close> of
  theory \<open>Go_SyncMap\<close>. Facts about counting and summing over the entries are proved once,
  inside the locale.
\<close>

locale go_map =
  fixes emp :: 'm
    and lookup :: "'m \<Rightarrow> 'k \<Rightarrow> 'v option"
    and store :: "'k \<Rightarrow> 'v \<Rightarrow> 'm \<Rightarrow> 'm"
    and del :: "'k \<Rightarrow> 'm \<Rightarrow> 'm"
    and entries :: "'m \<Rightarrow> ('k \<times> 'v) list"
    and wf :: "'m \<Rightarrow> bool"
  assumes wf_emp: "wf emp"
    and wf_store: "wf m \<Longrightarrow> wf (store k v m)"
    and wf_del: "wf m \<Longrightarrow> wf (del k m)"
    and lookup_emp: "lookup emp = Map.empty"
    and lookup_store: "wf m \<Longrightarrow> lookup (store k v m) = (lookup m)(k \<mapsto> v)"
    and lookup_del: "wf m \<Longrightarrow> lookup (del k m) = (lookup m)(k := None)"
    and map_of_entries: "wf m \<Longrightarrow> map_of (entries m) = lookup m"
    and distinct_entries: "wf m \<Longrightarrow> distinct (map fst (entries m))"
begin

lemma dom_entries: "wf m \<Longrightarrow> dom (lookup m) = fst ` set (entries m)"
  using map_of_entries [of m] by (simp add: dom_map_of_conv_image_fst [symmetric])

lemma finite_dom: "wf m \<Longrightarrow> finite (dom (lookup m))"
  by (simp add: dom_entries)

lemma length_entries: "wf m \<Longrightarrow> length (entries m) = card (dom (lookup m))"
  using distinct_card [OF distinct_entries, of m] by (simp add: dom_entries)

lemma sum_entries:
  assumes "wf m"
  shows "sum_list (map (\<lambda>(k, v). f k v) (entries m)) = (\<Sum>k \<in> dom (lookup m). f k (the (lookup m k)))"
proof -
  have val: "the (lookup m (fst e)) = snd e" if "e \<in> set (entries m)" for e
    using that distinct_entries [OF assms] map_of_entries [OF assms]
    by (metis map_of_eq_Some_iff option.sel prod.collapse)
  have "(\<Sum>k \<in> fst ` set (entries m). f k (the (lookup m k)))
      = (\<Sum>e \<in> set (entries m). f (fst e) (the (lookup m (fst e))))"
    using distinct_entries [OF assms] by (intro sum.reindex_cong [of fst]) (auto simp: distinct_map)
  also have "\<dots> = (\<Sum>e \<in> set (entries m). f (fst e) (snd e))"
    using val by (intro sum.cong) auto
  also have "\<dots> = sum_list (map (\<lambda>e. f (fst e) (snd e)) (entries m))"
    using distinct_entries [OF assms] by (simp add: sum_list_distinct_conv_sum_set distinct_map)
  finally show ?thesis
    using dom_entries [OF assms] by (simp add: case_prod_beta')
qed

lemma lookup_store_simps [simp]:
  "wf m \<Longrightarrow> lookup (store k v m) k' = (if k' = k then Some v else lookup m k')"
  "wf m \<Longrightarrow> lookup (del k m) k' = (if k' = k then None else lookup m k')"
  by (simp_all add: lookup_store lookup_del)

end

subsection \<open>The built-in map\<close>

type_synonym ('k, 'v) gomap = "('k \<times> 'v) list"

definition map_index :: "'v \<Rightarrow> ('k, 'v) gomap \<Rightarrow> 'k \<Rightarrow> 'v" where
  \<comment> \<open>\<^verbatim>\<open>m[k]\<close>: the zero value of the element type for a missing key.\<close>
  "map_index zero m k = (case map_of m k of None \<Rightarrow> zero | Some v \<Rightarrow> v)"

definition map_wf :: "('k, 'v) gomap \<Rightarrow> bool" where
  "map_wf m \<longleftrightarrow> distinct (map fst m)"

interpretation gm: go_map "[]" map_of AList.update AList.delete "\<lambda>m. m" map_wf
  by unfold_locales
     (auto simp: map_wf_def distinct_update AList.distinct_delete update_conv' delete_conv')

lemma map_index_update [simp]:
  "map_index z (AList.update k v m) k' = (if k' = k then v else map_index z m k')"
  by (simp add: map_index_def update_conv')

lemma map_index_delete [simp]:
  "map_index z (AList.delete k m) k' = (if k' = k then z else map_index z m k')"
  by (simp add: map_index_def delete_conv')

lemma map_index_Nil [simp]: "map_index z [] k = z"
  by (simp add: map_index_def)

lemmas map_wf_simps [simp] = gm.wf_emp gm.wf_store gm.wf_del

end
