(* ===== verification/Go_SyncMap.thy ===== *)
theory Go_SyncMap
  imports Go_Map
begin

text \<open>
  \<^verbatim>\<open>sync.Map\<close> (\<^verbatim>\<open>sync/map.go\<close>), the table of a session's connections. A map has a part
  \<open>read\<close> that is accessed without the lock and a part \<open>dirty\<close> that needs it; the two share
  their entries, so the entries live in a heap (a list, an entry pointer is an index) and a
  store through one part is seen through the other. An entry's pointer is nil (deleted),
  \<^verbatim>\<open>expunged\<close> (deleted and absent from \<open>dirty\<close>) or points to a value.

  Each operation is written as its lock-free attempt (\<open>_fast\<close>, \<^term>\<open>None\<close> where the code goes
  on to take the lock) and its section under the lock (\<open>_locked\<close>), which reads the map
  again: the lemmas hold for the locked section in any state that the invariant allows, so
  they do not rely on the map being unchanged since the attempt. A compare-and-swap loop is
  one step: it retries only when another goroutine interferes. Writing to a nil map panics;
  the result \<^term>\<open>None\<close> of an update of \<open>dirty\<close> stands for that.

  Shown: the invariant the comments of the source describe is kept by every operation, no
  operation panics, each operation does on the abstract map what its documentation says,
  and the map is an instance of the interface \<open>go_map\<close>.
\<close>

type_synonym eref = nat

datatype 'v eptr = PNil | PExpunged | PVal 'v

record 'k readOnly =
  ro_m :: "('k, eref) gomap"
  amended :: bool

record ('k, 'v) SyncMap =
  sm_read :: "'k readOnly option"
  sm_dirty :: "('k, eref) gomap option"
  sm_misses :: nat
  sm_heap :: "'v eptr list"

definition SyncMap_zero :: "('k, 'v) SyncMap" where
  "SyncMap_zero = \<lparr>sm_read = None, sm_dirty = None, sm_misses = 0, sm_heap = []\<rparr>"

definition newEntry :: "('k, 'v) SyncMap \<Rightarrow> 'v \<Rightarrow> eref \<times> ('k, 'v) SyncMap" where
  "newEntry m v = (length (sm_heap m), m\<lparr>sm_heap := sm_heap m @ [PVal v]\<rparr>)"

definition loadReadOnly :: "('k, 'v) SyncMap \<Rightarrow> 'k readOnly" where
  "loadReadOnly m = (case sm_read m of Some p \<Rightarrow> p | None \<Rightarrow> \<lparr>ro_m = [], amended = False\<rparr>)"

definition dirty_index :: "('k, 'v) SyncMap \<Rightarrow> 'k \<Rightarrow> eref option" where
  \<comment> \<open>\<^verbatim>\<open>m.dirty[key]\<close>; reading a nil map finds nothing.\<close>
  "dirty_index m k = (case sm_dirty m of None \<Rightarrow> None | Some d \<Rightarrow> map_of d k)"

definition dirty_put :: "('k, 'v) SyncMap \<Rightarrow> 'k \<Rightarrow> eref \<Rightarrow> ('k, 'v) SyncMap option" where
  \<comment> \<open>\<^verbatim>\<open>m.dirty[key] = e\<close>; writing to a nil map panics.\<close>
  "dirty_put m k e =
     (case sm_dirty m of None \<Rightarrow> None | Some d \<Rightarrow> Some (m\<lparr>sm_dirty := Some (AList.update k e d)\<rparr>))"

abbreviation ent :: "('k, 'v) SyncMap \<Rightarrow> eref \<Rightarrow> 'v eptr" where
  "ent m e \<equiv> sm_heap m ! e"

abbreviation set_ent :: "('k, 'v) SyncMap \<Rightarrow> eref \<Rightarrow> 'v eptr \<Rightarrow> ('k, 'v) SyncMap" where
  "set_ent m e p \<equiv> m\<lparr>sm_heap := (sm_heap m)[e := p]\<rparr>"

subsection \<open>Entries\<close>

definition entry_load :: "('k, 'v) SyncMap \<Rightarrow> eref \<Rightarrow> 'v option" where
  "entry_load m e = (case ent m e of PVal v \<Rightarrow> Some v | _ \<Rightarrow> None)"

definition tryCompareAndSwap :: "('k, 'v) SyncMap \<Rightarrow> eref \<Rightarrow> 'v \<Rightarrow> 'v \<Rightarrow> bool \<times> ('k, 'v) SyncMap" where
  "tryCompareAndSwap m e old new =
     (case ent m e of
        PVal v \<Rightarrow> if v \<noteq> old then (False, m) else (True, set_ent m e (PVal new))
      | _ \<Rightarrow> (False, m))"

definition unexpungeLocked :: "('k, 'v) SyncMap \<Rightarrow> eref \<Rightarrow> bool \<times> ('k, 'v) SyncMap" where
  "unexpungeLocked m e = (case ent m e of PExpunged \<Rightarrow> (True, set_ent m e PNil) | _ \<Rightarrow> (False, m))"

definition swapLocked :: "('k, 'v) SyncMap \<Rightarrow> eref \<Rightarrow> 'v \<Rightarrow> 'v option \<times> ('k, 'v) SyncMap" where
  \<comment> \<open>The swapped-out pointer, \<^verbatim>\<open>nil\<close> as \<^term>\<open>None\<close>; the entry is known not to be expunged.\<close>
  "swapLocked m e v = (entry_load m e, set_ent m e (PVal v))"

definition tryLoadOrStore ::
  "('k, 'v) SyncMap \<Rightarrow> eref \<Rightarrow> 'v \<Rightarrow> ('v \<times> bool) option \<times> ('k, 'v) SyncMap" where
  \<comment> \<open>\<^term>\<open>None\<close> is \<^verbatim>\<open>ok == false\<close>.\<close>
  "tryLoadOrStore m e i =
     (case ent m e of
        PExpunged \<Rightarrow> (None, m)
      | PVal v \<Rightarrow> (Some (v, True), m)
      | PNil \<Rightarrow> (Some (i, False), set_ent m e (PVal i)))"

definition entry_delete :: "('k, 'v) SyncMap \<Rightarrow> eref \<Rightarrow> 'v option \<times> ('k, 'v) SyncMap" where
  "entry_delete m e =
     (case ent m e of PVal v \<Rightarrow> (Some v, set_ent m e PNil) | _ \<Rightarrow> (None, m))"

definition trySwap :: "('k, 'v) SyncMap \<Rightarrow> eref \<Rightarrow> 'v \<Rightarrow> ('v option \<times> ('k, 'v) SyncMap) option" where
  "trySwap m e i =
     (case ent m e of
        PExpunged \<Rightarrow> None
      | PVal v \<Rightarrow> Some (Some v, set_ent m e (PVal i))
      | PNil \<Rightarrow> Some (None, set_ent m e (PVal i)))"

definition tryExpungeLocked :: "'v eptr list \<Rightarrow> eref \<Rightarrow> bool \<times> 'v eptr list" where
  "tryExpungeLocked h e =
     (case h ! e of PNil \<Rightarrow> (True, h[e := PExpunged]) | PExpunged \<Rightarrow> (True, h) | PVal v \<Rightarrow> (False, h))"

subsection \<open>The two parts\<close>

definition missLocked :: "('k, 'v) SyncMap \<Rightarrow> ('k, 'v) SyncMap" where
  "missLocked m =
     (let m = m\<lparr>sm_misses := sm_misses m + 1\<rparr>;
          d = (case sm_dirty m of None \<Rightarrow> [] | Some d \<Rightarrow> d)
      in if sm_misses m < length d then m
         else m\<lparr>sm_read := Some \<lparr>ro_m = d, amended = False\<rparr>, sm_dirty := None, sm_misses := 0\<rparr>)"

fun dirtyLocked_loop ::
  "('k \<times> eref) list \<Rightarrow> 'v eptr list \<Rightarrow> ('k, eref) gomap \<Rightarrow> 'v eptr list \<times> ('k, eref) gomap" where
  "dirtyLocked_loop [] h d = (h, d)"
| "dirtyLocked_loop ((k, e) # es) h d =
     (case tryExpungeLocked h e of
        (True, h') \<Rightarrow> dirtyLocked_loop es h' d
      | (False, h') \<Rightarrow> dirtyLocked_loop es h' (AList.update k e d))"

definition dirtyLocked :: "('k, 'v) SyncMap \<Rightarrow> ('k, 'v) SyncMap" where
  "dirtyLocked m =
     (if sm_dirty m \<noteq> None then m
      else
        let read = loadReadOnly m;
            (h, d) = dirtyLocked_loop (ro_m read) (sm_heap m) []
        in m\<lparr>sm_heap := h, sm_dirty := Some d\<rparr>)"

definition addFresh :: "('k, 'v) SyncMap \<Rightarrow> 'k \<Rightarrow> 'v \<Rightarrow> ('k, 'v) SyncMap option" where
  \<comment> \<open>The branch shared by \<^verbatim>\<open>Swap\<close> and \<^verbatim>\<open>LoadOrStore\<close> that adds a key.\<close>
  "addFresh m k v =
     (let read = loadReadOnly m;
          m1 = (if \<not> amended read
                then (dirtyLocked m)\<lparr>sm_read := Some \<lparr>ro_m = ro_m read, amended = True\<rparr>\<rparr>
                else m);
          (e, m2) = newEntry m1 v
      in dirty_put m2 k e)"

subsection \<open>Load\<close>

definition Load_fast :: "('k, 'v) SyncMap \<Rightarrow> 'k \<Rightarrow> 'v option option" where
  "Load_fast m k =
     (let read = loadReadOnly m
      in case map_of (ro_m read) k of
           Some e \<Rightarrow> Some (entry_load m e)
         | None \<Rightarrow> if amended read then None else Some None)"

definition Load_locked :: "('k, 'v) SyncMap \<Rightarrow> 'k \<Rightarrow> 'v option \<times> ('k, 'v) SyncMap" where
  "Load_locked m k =
     (let read = loadReadOnly m;
          (e, m') = (case map_of (ro_m read) k of
                       Some e \<Rightarrow> (Some e, m)
                     | None \<Rightarrow> if amended read then (dirty_index m k, missLocked m) else (None, m))
      in (case e of None \<Rightarrow> None | Some e \<Rightarrow> entry_load m' e, m'))"

definition Load :: "('k, 'v) SyncMap \<Rightarrow> 'k \<Rightarrow> 'v option \<times> ('k, 'v) SyncMap" where
  "Load m k = (case Load_fast m k of Some r \<Rightarrow> (r, m) | None \<Rightarrow> Load_locked m k)"

subsection \<open>Swap and Store\<close>

definition Swap_fast :: "('k, 'v) SyncMap \<Rightarrow> 'k \<Rightarrow> 'v \<Rightarrow> ('v option \<times> ('k, 'v) SyncMap) option" where
  "Swap_fast m k v =
     (case map_of (ro_m (loadReadOnly m)) k of Some e \<Rightarrow> trySwap m e v | None \<Rightarrow> None)"

definition Swap_locked :: "('k, 'v) SyncMap \<Rightarrow> 'k \<Rightarrow> 'v \<Rightarrow> ('v option \<times> ('k, 'v) SyncMap) option" where
  "Swap_locked m k v =
     (case map_of (ro_m (loadReadOnly m)) k of
        Some e \<Rightarrow>
          (case unexpungeLocked m e of
             (True, m1) \<Rightarrow>
               (case dirty_put m1 k e of None \<Rightarrow> None | Some m2 \<Rightarrow> Some (swapLocked m2 e v))
           | (False, m1) \<Rightarrow> Some (swapLocked m1 e v))
      | None \<Rightarrow>
          (case dirty_index m k of
             Some e \<Rightarrow> Some (swapLocked m e v)
           | None \<Rightarrow> (case addFresh m k v of None \<Rightarrow> None | Some m1 \<Rightarrow> Some (None, m1))))"

definition Swap :: "('k, 'v) SyncMap \<Rightarrow> 'k \<Rightarrow> 'v \<Rightarrow> ('v option \<times> ('k, 'v) SyncMap) option" where
  "Swap m k v = (case Swap_fast m k v of Some r \<Rightarrow> Some r | None \<Rightarrow> Swap_locked m k v)"

definition Store :: "('k, 'v) SyncMap \<Rightarrow> 'k \<Rightarrow> 'v \<Rightarrow> ('k, 'v) SyncMap option" where
  "Store m k v = (case Swap m k v of None \<Rightarrow> None | Some (_, m') \<Rightarrow> Some m')"

subsection \<open>LoadOrStore\<close>

definition LoadOrStore_fast ::
  "('k, 'v) SyncMap \<Rightarrow> 'k \<Rightarrow> 'v \<Rightarrow> (('v \<times> bool) \<times> ('k, 'v) SyncMap) option" where
  "LoadOrStore_fast m k v =
     (case map_of (ro_m (loadReadOnly m)) k of
        None \<Rightarrow> None
      | Some e \<Rightarrow> (case tryLoadOrStore m e v of (None, _) \<Rightarrow> None | (Some r, m') \<Rightarrow> Some (r, m')))"

definition LoadOrStore_locked ::
  "('k, 'v) SyncMap \<Rightarrow> 'k \<Rightarrow> 'v \<Rightarrow> (('v \<times> bool) option \<times> ('k, 'v) SyncMap) option" where
  \<comment> \<open>A result \<^term>\<open>None\<close> of \<^verbatim>\<open>tryLoadOrStore\<close> is the zero value that the code would return.\<close>
  "LoadOrStore_locked m k v =
     (case map_of (ro_m (loadReadOnly m)) k of
        Some e \<Rightarrow>
          (case unexpungeLocked m e of
             (True, m1) \<Rightarrow>
               (case dirty_put m1 k e of None \<Rightarrow> None | Some m2 \<Rightarrow> Some (tryLoadOrStore m2 e v))
           | (False, m1) \<Rightarrow> Some (tryLoadOrStore m1 e v))
      | None \<Rightarrow>
          (case dirty_index m k of
             Some e \<Rightarrow> (let (r, m1) = tryLoadOrStore m e v in Some (r, missLocked m1))
           | None \<Rightarrow>
               (case addFresh m k v of None \<Rightarrow> None | Some m1 \<Rightarrow> Some (Some (v, False), m1))))"

definition LoadOrStore ::
  "('k, 'v) SyncMap \<Rightarrow> 'k \<Rightarrow> 'v \<Rightarrow> (('v \<times> bool) option \<times> ('k, 'v) SyncMap) option" where
  "LoadOrStore m k v =
     (case LoadOrStore_fast m k v of
        Some (r, m') \<Rightarrow> Some (Some r, m')
      | None \<Rightarrow> LoadOrStore_locked m k v)"

subsection \<open>LoadAndDelete and Delete\<close>

definition LoadAndDelete_fast :: "('k, 'v) SyncMap \<Rightarrow> 'k \<Rightarrow> ('v option \<times> ('k, 'v) SyncMap) option" where
  "LoadAndDelete_fast m k =
     (let read = loadReadOnly m
      in case map_of (ro_m read) k of
           Some e \<Rightarrow> Some (entry_delete m e)
         | None \<Rightarrow> if amended read then None else Some (None, m))"

definition LoadAndDelete_locked :: "('k, 'v) SyncMap \<Rightarrow> 'k \<Rightarrow> 'v option \<times> ('k, 'v) SyncMap" where
  "LoadAndDelete_locked m k =
     (let read = loadReadOnly m;
          (e, m') = (case map_of (ro_m read) k of
                       Some e \<Rightarrow> (Some e, m)
                     | None \<Rightarrow>
                         if amended read
                         then (dirty_index m k,
                               missLocked (m\<lparr>sm_dirty := map_option (AList.delete k) (sm_dirty m)\<rparr>))
                         else (None, m))
      in case e of Some e \<Rightarrow> entry_delete m' e | None \<Rightarrow> (None, m'))"

definition LoadAndDelete :: "('k, 'v) SyncMap \<Rightarrow> 'k \<Rightarrow> 'v option \<times> ('k, 'v) SyncMap" where
  "LoadAndDelete m k =
     (case LoadAndDelete_fast m k of Some r \<Rightarrow> r | None \<Rightarrow> LoadAndDelete_locked m k)"

definition Delete :: "('k, 'v) SyncMap \<Rightarrow> 'k \<Rightarrow> ('k, 'v) SyncMap" where
  "Delete m k = snd (LoadAndDelete m k)"

subsection \<open>CompareAndSwap and CompareAndDelete\<close>

definition CompareAndSwap_fast ::
  "('k, 'v) SyncMap \<Rightarrow> 'k \<Rightarrow> 'v \<Rightarrow> 'v \<Rightarrow> (bool \<times> ('k, 'v) SyncMap) option" where
  "CompareAndSwap_fast m k old new =
     (let read = loadReadOnly m
      in case map_of (ro_m read) k of
           Some e \<Rightarrow> Some (tryCompareAndSwap m e old new)
         | None \<Rightarrow> if \<not> amended read then Some (False, m) else None)"

definition CompareAndSwap_locked ::
  "('k, 'v) SyncMap \<Rightarrow> 'k \<Rightarrow> 'v \<Rightarrow> 'v \<Rightarrow> bool \<times> ('k, 'v) SyncMap" where
  "CompareAndSwap_locked m k old new =
     (case map_of (ro_m (loadReadOnly m)) k of
        Some e \<Rightarrow> tryCompareAndSwap m e old new
      | None \<Rightarrow>
          (case dirty_index m k of
             Some e \<Rightarrow> (let (b, m1) = tryCompareAndSwap m e old new in (b, missLocked m1))
           | None \<Rightarrow> (False, m)))"

definition CompareAndSwap ::
  "('k, 'v) SyncMap \<Rightarrow> 'k \<Rightarrow> 'v \<Rightarrow> 'v \<Rightarrow> bool \<times> ('k, 'v) SyncMap" where
  "CompareAndSwap m k old new =
     (case CompareAndSwap_fast m k old new of Some r \<Rightarrow> r | None \<Rightarrow> CompareAndSwap_locked m k old new)"

definition deleteIf :: "('k, 'v) SyncMap \<Rightarrow> eref option \<Rightarrow> 'v \<Rightarrow> bool \<times> ('k, 'v) SyncMap" where
  \<comment> \<open>The loop at the end of \<^verbatim>\<open>CompareAndDelete\<close>.\<close>
  "deleteIf m e old =
     (case e of
        None \<Rightarrow> (False, m)
      | Some e \<Rightarrow>
          (case ent m e of
             PVal v \<Rightarrow> if v \<noteq> old then (False, m) else (True, set_ent m e PNil)
           | _ \<Rightarrow> (False, m)))"

definition CompareAndDelete_fast ::
  "('k, 'v) SyncMap \<Rightarrow> 'k \<Rightarrow> 'v \<Rightarrow> (bool \<times> ('k, 'v) SyncMap) option" where
  "CompareAndDelete_fast m k old =
     (let read = loadReadOnly m
      in case map_of (ro_m read) k of
           Some e \<Rightarrow> Some (deleteIf m (Some e) old)
         | None \<Rightarrow> if amended read then None else Some (deleteIf m None old))"

definition CompareAndDelete_locked ::
  "('k, 'v) SyncMap \<Rightarrow> 'k \<Rightarrow> 'v \<Rightarrow> bool \<times> ('k, 'v) SyncMap" where
  "CompareAndDelete_locked m k old =
     (let read = loadReadOnly m;
          (e, m') = (case map_of (ro_m read) k of
                       Some e \<Rightarrow> (Some e, m)
                     | None \<Rightarrow> if amended read then (dirty_index m k, missLocked m) else (None, m))
      in deleteIf m' e old)"

definition CompareAndDelete ::
  "('k, 'v) SyncMap \<Rightarrow> 'k \<Rightarrow> 'v \<Rightarrow> bool \<times> ('k, 'v) SyncMap" where
  "CompareAndDelete m k old =
     (case CompareAndDelete_fast m k old of Some r \<Rightarrow> r | None \<Rightarrow> CompareAndDelete_locked m k old)"

subsection \<open>Range\<close>

definition Range_promote :: "('k, 'v) SyncMap \<Rightarrow> ('k, 'v) SyncMap" where
  "Range_promote m =
     (if amended (loadReadOnly m)
      then m\<lparr>sm_read := Some \<lparr>ro_m = (case sm_dirty m of None \<Rightarrow> [] | Some d \<Rightarrow> d), amended = False\<rparr>,
             sm_dirty := None, sm_misses := 0\<rparr>
      else m)"

fun Range_loop ::
  "('k, 'v) SyncMap \<Rightarrow> ('k \<Rightarrow> 'v \<Rightarrow> 's \<Rightarrow> bool \<times> 's) \<Rightarrow> ('k \<times> eref) list \<Rightarrow> 's \<Rightarrow> 's" where
  "Range_loop m f [] s = s"
| "Range_loop m f ((k, e) # es) s =
     (case entry_load m e of
        None \<Rightarrow> Range_loop m f es s
      | Some v \<Rightarrow> (case f k v s of (True, s') \<Rightarrow> Range_loop m f es s' | (False, s') \<Rightarrow> s'))"

definition Range ::
  "('k, 'v) SyncMap \<Rightarrow> ('k \<Rightarrow> 'v \<Rightarrow> 's \<Rightarrow> bool \<times> 's) \<Rightarrow> 's \<Rightarrow> 's \<times> ('k, 'v) SyncMap" where
  \<comment> \<open>The callback acts on a state of its own and leaves the map alone.\<close>
  "Range m f s =
     (let m' = Range_promote m in (Range_loop m' f (ro_m (loadReadOnly m')) s, m'))"

subsection \<open>Sequences of operations\<close>

text \<open>
  A call that comes to its locked section runs it in the state that the other goroutines
  have left meanwhile; the flag \<open>late\<close> stands for such a call, whose lock-free attempt
  failed in an earlier state (a failed attempt changes nothing). The specification runs the
  operation on a mathematical map.
\<close>

datatype ('k, 'v) sm_op =
    LoadOp 'k | SwapOp 'k 'v | LoadOrStoreOp 'k 'v | LoadAndDeleteOp 'k
  | CompareAndSwapOp 'k 'v 'v | CompareAndDeleteOp 'k 'v | RangeOp

datatype ('k, 'v) sm_result =
    RValue "'v option" | RLoaded "('v \<times> bool) option" | RBool bool | REntries "'k \<rightharpoonup> 'v"

fun sm_exec ::
  "bool \<Rightarrow> ('k, 'v) sm_op \<Rightarrow> ('k, 'v) SyncMap \<Rightarrow> (('k, 'v) sm_result \<times> ('k, 'v) SyncMap) option" where
  "sm_exec late (LoadOp k) m = Some (map_prod RValue id (if late then Load_locked m k else Load m k))"
| "sm_exec late (SwapOp k v) m =
     map_option (map_prod RValue id) (if late then Swap_locked m k v else Swap m k v)"
| "sm_exec late (LoadOrStoreOp k v) m =
     map_option (map_prod RLoaded id) (if late then LoadOrStore_locked m k v else LoadOrStore m k v)"
| "sm_exec late (LoadAndDeleteOp k) m =
     Some (map_prod RValue id (if late then LoadAndDelete_locked m k else LoadAndDelete m k))"
| "sm_exec late (CompareAndSwapOp k old new) m =
     Some (map_prod RBool id
       (if late then CompareAndSwap_locked m k old new else CompareAndSwap m k old new))"
| "sm_exec late (CompareAndDeleteOp k old) m =
     Some (map_prod RBool id
       (if late then CompareAndDelete_locked m k old else CompareAndDelete m k old))"
| "sm_exec late RangeOp m =
     Some (map_prod (\<lambda>es. REntries (map_of es)) id (Range m (\<lambda>k v es. (True, es @ [(k, v)])) []))"

fun spec_exec :: "('k, 'v) sm_op \<Rightarrow> ('k \<rightharpoonup> 'v) \<Rightarrow> ('k, 'v) sm_result \<times> ('k \<rightharpoonup> 'v)" where
  "spec_exec (LoadOp k) a = (RValue (a k), a)"
| "spec_exec (SwapOp k v) a = (RValue (a k), a(k \<mapsto> v))"
| "spec_exec (LoadOrStoreOp k v) a =
     (case a k of None \<Rightarrow> (RLoaded (Some (v, False)), a(k \<mapsto> v)) | Some w \<Rightarrow> (RLoaded (Some (w, True)), a))"
| "spec_exec (LoadAndDeleteOp k) a = (RValue (a k), a(k := None))"
| "spec_exec (CompareAndSwapOp k old new) a =
     (if a k = Some old then (RBool True, a(k \<mapsto> new)) else (RBool False, a))"
| "spec_exec (CompareAndDeleteOp k old) a =
     (if a k = Some old then (RBool True, a(k := None)) else (RBool False, a))"
| "spec_exec RangeOp a = (REntries a, a)"

fun sm_run ::
  "(bool \<times> ('k, 'v) sm_op) list \<Rightarrow> ('k, 'v) SyncMap
   \<Rightarrow> (('k, 'v) sm_result list \<times> ('k, 'v) SyncMap) option" where
  "sm_run [] m = Some ([], m)"
| "sm_run ((late, op) # ops) m =
     (case sm_exec late op m of
        None \<Rightarrow> None
      | Some (r, m') \<Rightarrow> map_option (map_prod (Cons r) id) (sm_run ops m'))"

fun spec_run ::
  "(bool \<times> ('k, 'v) sm_op) list \<Rightarrow> ('k \<rightharpoonup> 'v) \<Rightarrow> ('k, 'v) sm_result list \<times> ('k \<rightharpoonup> 'v)" where
  "spec_run [] a = ([], a)"
| "spec_run ((late, op) # ops) a =
     (let (r, a') = spec_exec op a; (rs, a'') = spec_run ops a' in (r # rs, a''))"

text \<open>The operations as the client of the interface \<open>go_map\<close> sees them; \<^verbatim>\<open>Store\<close> panics in no
  state that the invariant allows.\<close>

definition sm_store :: "'k \<Rightarrow> 'v \<Rightarrow> ('k, 'v) SyncMap \<Rightarrow> ('k, 'v) SyncMap" where
  "sm_store k v m = (case Store m k v of None \<Rightarrow> m | Some m' \<Rightarrow> m')"

definition sm_del :: "'k \<Rightarrow> ('k, 'v) SyncMap \<Rightarrow> ('k, 'v) SyncMap" where
  "sm_del k m = Delete m k"

subsection \<open>The invariant and the abstract map\<close>

abbreviation rd :: "('k, 'v) SyncMap \<Rightarrow> 'k \<Rightarrow> eref option" where
  "rd m \<equiv> map_of (ro_m (loadReadOnly m))"

definition sm_holds :: "('k, 'v) SyncMap \<Rightarrow> 'k \<Rightarrow> eref \<Rightarrow> bool" where
  "sm_holds m k e \<longleftrightarrow> rd m k = Some e \<or> dirty_index m k = Some e"

definition sm_inv :: "('k, 'v) SyncMap \<Rightarrow> bool" where
  "sm_inv m \<longleftrightarrow>
     map_wf (ro_m (loadReadOnly m)) \<and> (\<forall>d. sm_dirty m = Some d \<longrightarrow> map_wf d)
     \<and> (amended (loadReadOnly m) \<longleftrightarrow> sm_dirty m \<noteq> None)
     \<and> (\<forall>k e. sm_holds m k e \<longrightarrow> e < length (sm_heap m))
     \<and> (\<forall>k e. rd m k = Some e \<longrightarrow> ent m e = PExpunged \<longrightarrow> sm_dirty m \<noteq> None \<and> dirty_index m k = None)
     \<and> (\<forall>k e. rd m k = Some e \<longrightarrow> ent m e \<noteq> PExpunged \<longrightarrow> sm_dirty m = None \<or> dirty_index m k = Some e)
     \<and> (\<forall>k e. dirty_index m k = Some e \<longrightarrow> ent m e \<noteq> PExpunged)
     \<and> (\<forall>k k' e. sm_holds m k e \<longrightarrow> sm_holds m k' e \<longrightarrow> k = k')"

definition sm_ref :: "('k, 'v) SyncMap \<Rightarrow> 'k \<Rightarrow> eref option" where
  "sm_ref m k = (case rd m k of Some e \<Rightarrow> Some e | None \<Rightarrow> dirty_index m k)"

definition sm_abs :: "('k, 'v) SyncMap \<Rightarrow> 'k \<Rightarrow> 'v option" where
  "sm_abs m k = (case sm_ref m k of None \<Rightarrow> None | Some e \<Rightarrow> entry_load m e)"

lemma sm_views_simps [simp]:
  "loadReadOnly (m\<lparr>sm_heap := h\<rparr>) = loadReadOnly m"
  "loadReadOnly (m\<lparr>sm_dirty := d1\<rparr>) = loadReadOnly m"
  "loadReadOnly (m\<lparr>sm_misses := n\<rparr>) = loadReadOnly m"
  "loadReadOnly (m\<lparr>sm_read := Some r\<rparr>) = r"
  "dirty_index (m\<lparr>sm_heap := h\<rparr>) = dirty_index m"
  "dirty_index (m\<lparr>sm_read := r1\<rparr>) = dirty_index m"
  "dirty_index (m\<lparr>sm_misses := n\<rparr>) = dirty_index m"
  "dirty_index (m\<lparr>sm_dirty := None\<rparr>) = Map.empty"
  "dirty_index (m\<lparr>sm_dirty := Some d\<rparr>) = map_of d"
  by (auto simp: loadReadOnly_def dirty_index_def fun_eq_iff)

lemma dirty_index_None [simp]: "sm_dirty m = None \<Longrightarrow> dirty_index m k = None"
  by (simp add: dirty_index_def)

lemma dirty_index_SomeD: "dirty_index m k = Some e \<Longrightarrow> sm_dirty m \<noteq> None"
  by (rule notI) simp

lemma dirty_index_Some: "sm_dirty m = Some d \<Longrightarrow> dirty_index m = map_of d"
  by (simp add: dirty_index_def fun_eq_iff)

lemma sm_ref_holds: "sm_ref m k = Some e \<Longrightarrow> sm_holds m k e"
  by (auto simp: sm_ref_def sm_holds_def split: option.splits)

lemma sm_inv_not_amended: "sm_inv m \<Longrightarrow> \<not> amended (loadReadOnly m) \<Longrightarrow> dirty_index m k = None"
  by (auto simp: sm_inv_def dirty_index_def)

lemma sm_inv_D:
  assumes "sm_inv m"
  shows "sm_holds m k e \<Longrightarrow> e < length (sm_heap m)"
    and "amended (loadReadOnly m) \<longleftrightarrow> sm_dirty m \<noteq> None"
    and "rd m k = Some e \<Longrightarrow> ent m e = PExpunged \<Longrightarrow> sm_dirty m \<noteq> None \<and> dirty_index m k = None"
    and "rd m k = Some e \<Longrightarrow> ent m e \<noteq> PExpunged \<Longrightarrow> sm_dirty m = None \<or> dirty_index m k = Some e"
    and "dirty_index m k = Some e \<Longrightarrow> ent m e \<noteq> PExpunged"
    and "sm_holds m k e \<Longrightarrow> sm_holds m k' e \<Longrightarrow> k = k'"
  using assms unfolding sm_inv_def by blast+

lemma sm_inv_wf: "sm_inv m \<Longrightarrow> sm_dirty m = Some d \<Longrightarrow> map_wf d"
  unfolding sm_inv_def by blast

lemma sm_inv_ro_wf: "sm_inv m \<Longrightarrow> map_wf (ro_m (loadReadOnly m))"
  unfolding sm_inv_def by blast

lemma sm_inv_I:
  assumes "map_wf (ro_m (loadReadOnly m))" and "\<And>d. sm_dirty m = Some d \<Longrightarrow> map_wf d"
    and "amended (loadReadOnly m) \<longleftrightarrow> sm_dirty m \<noteq> None"
    and "\<And>k e. sm_holds m k e \<Longrightarrow> e < length (sm_heap m)"
    and "\<And>k e. rd m k = Some e \<Longrightarrow> ent m e = PExpunged \<Longrightarrow> sm_dirty m \<noteq> None \<and> dirty_index m k = None"
    and "\<And>k e. rd m k = Some e \<Longrightarrow> ent m e \<noteq> PExpunged \<Longrightarrow> sm_dirty m = None \<or> dirty_index m k = Some e"
    and "\<And>k e. dirty_index m k = Some e \<Longrightarrow> ent m e \<noteq> PExpunged"
    and "\<And>k k' e. sm_holds m k e \<Longrightarrow> sm_holds m k' e \<Longrightarrow> k = k'"
  shows "sm_inv m"
  using assms unfolding sm_inv_def by blast

lemma sm_holds_ref:
  assumes "sm_inv m" and "sm_holds m k e"
  shows "sm_ref m k = Some e"
proof (cases "rd m k")
  case None
  with assms(2) show ?thesis by (simp add: sm_ref_def sm_holds_def)
next
  case (Some e1)
  then have "sm_dirty m = None \<or> dirty_index m k = None \<or> dirty_index m k = Some e1"
    using sm_inv_D(3,4) [OF assms(1) Some] by blast
  with Some assms(2) show ?thesis by (auto simp: sm_ref_def sm_holds_def)
qed

lemma sm_inv_zero: "sm_inv SyncMap_zero"
  by (simp add: sm_inv_def SyncMap_zero_def sm_holds_def loadReadOnly_def dirty_index_def)

lemma sm_abs_zero: "sm_abs SyncMap_zero = Map.empty"
  by (simp add: fun_eq_iff sm_abs_def sm_ref_def SyncMap_zero_def loadReadOnly_def dirty_index_def)

text \<open>Storing through an entry that is not expunged.\<close>

lemma set_ent_inv:
  assumes "sm_inv m" and "sm_holds m k e" and "ent m e \<noteq> PExpunged" and "p \<noteq> PExpunged"
  shows "sm_inv (set_ent m e p)"
proof -
  have len: "e < length (sm_heap m)" using sm_inv_D(1) [OF assms(1,2)] .
  have hold: "sm_holds (set_ent m e p) = sm_holds m"
    by (simp add: sm_holds_def fun_eq_iff)
  have "(ent (set_ent m e p) e1 = PExpunged) = (ent m e1 = PExpunged)" for e1
    using len assms(3,4) by (auto simp: nth_list_update)
  then show ?thesis
    using assms(1) by (simp add: sm_inv_def hold)
qed

lemma set_ent_abs:
  assumes "sm_inv m" and "sm_holds m k e"
  shows "sm_abs (set_ent m e p) = (sm_abs m)(k := (case p of PVal v \<Rightarrow> Some v | _ \<Rightarrow> None))"
proof
  fix k'
  have len: "e < length (sm_heap m)" and uniq: "\<And>k'. sm_holds m k' e \<Longrightarrow> k' = k"
    using sm_inv_D(1,6) [OF assms(1)] assms(2) by blast+
  have ref: "sm_ref (set_ent m e p) = sm_ref m" by (simp add: sm_ref_def fun_eq_iff split: option.split)
  show "sm_abs (set_ent m e p) k' = ((sm_abs m)(k := (case p of PVal v \<Rightarrow> Some v | _ \<Rightarrow> None))) k'"
  proof (cases "k' = k")
    case True
    then show ?thesis
      using sm_holds_ref [OF assms] len by (simp add: sm_abs_def ref entry_load_def)
  next
    case False
    then have "sm_ref m k' \<noteq> Some e" using uniq sm_ref_holds by metis
    with False show ?thesis
      by (auto simp: sm_abs_def ref entry_load_def nth_list_update split: option.splits)
  qed
qed

lemma entry_load_holds: "sm_inv m \<Longrightarrow> sm_holds m k e \<Longrightarrow> entry_load m e = sm_abs m k"
  by (simp add: sm_abs_def sm_holds_ref)

text \<open>Promoting the dirty part.\<close>

definition promote :: "('k, 'v) SyncMap \<Rightarrow> ('k, 'v) SyncMap" where
  "promote m =
     m\<lparr>sm_read := Some \<lparr>ro_m = (case sm_dirty m of None \<Rightarrow> [] | Some d \<Rightarrow> d), amended = False\<rparr>,
       sm_dirty := None, sm_misses := 0\<rparr>"

lemma promote_views:
  assumes "sm_dirty m \<noteq> None"
  shows "loadReadOnly (promote m) = \<lparr>ro_m = the (sm_dirty m), amended = False\<rparr>"
    and "rd (promote m) = dirty_index m" and "dirty_index (promote m) = Map.empty"
    and "sm_heap (promote m) = sm_heap m" and "sm_dirty (promote m) = None"
  using assms by (auto simp: promote_def loadReadOnly_def dirty_index_def fun_eq_iff)

lemma promote_ok:
  assumes "sm_inv m" and "sm_dirty m \<noteq> None"
  shows "sm_inv (promote m)" and "sm_abs (promote m) = sm_abs m"
proof -
  note v = promote_views [OF assms(2)]
  show "sm_inv (promote m)"
  proof (rule sm_inv_I)
    fix k k' e
    have hold: "sm_holds (promote m) k e \<Longrightarrow> sm_holds m k e" for k e
      using v(2,3) by (auto simp: sm_holds_def)
    show "map_wf (ro_m (loadReadOnly (promote m)))"
      using v(1) assms by (auto simp: sm_inv_def)
    show "sm_holds (promote m) k e \<Longrightarrow> e < length (sm_heap (promote m))"
      using sm_inv_D(1) [OF assms(1) hold] v(4) by simp
    show "sm_holds (promote m) k e \<Longrightarrow> sm_holds (promote m) k' e \<Longrightarrow> k = k'"
      using sm_inv_D(6) [OF assms(1) hold hold] .
    show "rd (promote m) k = Some e \<Longrightarrow> ent (promote m) e = PExpunged \<Longrightarrow>
        sm_dirty (promote m) \<noteq> None \<and> dirty_index (promote m) k = None"
      using sm_inv_D(5) [OF assms(1), of k e] v(2,4) by simp
  qed (simp_all add: v)
  show "sm_abs (promote m) = sm_abs m"
  proof
    fix k
    show "sm_abs (promote m) k = sm_abs m k"
    proof (cases "rd m k")
      case None
      with v show ?thesis by (simp add: sm_abs_def sm_ref_def entry_load_def split: option.split)
    next
      case (Some e)
      then have "dirty_index m k = Some e \<or> ent m e = PExpunged \<and> dirty_index m k = None"
        using sm_inv_D(3,4) [OF assms(1) Some] assms(2) by blast
      with Some v show ?thesis
        by (auto simp: sm_abs_def sm_ref_def entry_load_def)
    qed
  qed
qed

lemma sm_inv_misses [simp]:
  "sm_inv (m\<lparr>sm_misses := n\<rparr>) = sm_inv m" "sm_abs (m\<lparr>sm_misses := n\<rparr>) = sm_abs m"
proof -
  have "sm_holds (m\<lparr>sm_misses := n\<rparr>) = sm_holds m" by (simp add: sm_holds_def fun_eq_iff)
  then show "sm_inv (m\<lparr>sm_misses := n\<rparr>) = sm_inv m" by (simp add: sm_inv_def)
  show "sm_abs (m\<lparr>sm_misses := n\<rparr>) = sm_abs m"
    by (simp add: sm_abs_def sm_ref_def entry_load_def fun_eq_iff split: option.split)
qed

lemma missLocked_alt:
  "missLocked m = m\<lparr>sm_misses := sm_misses m + 1\<rparr> \<or> missLocked m = promote m"
  by (simp add: missLocked_def promote_def Let_def)

lemma missLocked_ok [simp]:
  assumes "sm_inv m" and "sm_dirty m \<noteq> None"
  shows "sm_inv (missLocked m)" and "sm_abs (missLocked m) = sm_abs m"
    and "sm_heap (missLocked m) = sm_heap m"
  using missLocked_alt [of m] promote_ok [OF assms] promote_views [OF assms(2)] assms by auto

lemma missLocked_holds:
  assumes "sm_dirty m \<noteq> None" and "dirty_index m k = Some e"
  shows "sm_holds (missLocked m) k e"
  using missLocked_alt [of m] promote_views [OF assms(1)] assms(2) by (auto simp: sm_holds_def)

text \<open>Building the dirty part from the read part.\<close>

lemma dirtyLocked_loop_result:
  assumes "dirtyLocked_loop es h d = (h', d')"
    and "distinct (map fst es)" and "distinct (map snd es)" and "\<forall>e \<in> snd ` set es. e < length h"
  shows "length h' = length h"
    and "i < length h \<Longrightarrow> h' ! i = (if i \<in> snd ` set es \<and> h ! i = PNil then PExpunged else h ! i)"
    and "map_of d' k =
           (case map_of es k of
              None \<Rightarrow> map_of d k
            | Some e \<Rightarrow> if h ! e = PNil \<or> h ! e = PExpunged then map_of d k else Some e)"
    and "map_wf d \<Longrightarrow> map_wf d'"
proof -
  have "length h' = length h
      \<and> (\<forall>i < length h. h' ! i = (if i \<in> snd ` set es \<and> h ! i = PNil then PExpunged else h ! i))
      \<and> map_of d' k = (case map_of es k of
              None \<Rightarrow> map_of d k
            | Some e \<Rightarrow> if h ! e = PNil \<or> h ! e = PExpunged then map_of d k else Some e)
      \<and> (map_wf d \<longrightarrow> map_wf d')"
    using assms
  proof (induction es h d rule: dirtyLocked_loop.induct)
    case (1 h d)
    then show ?case by simp
  next
    case (2 k1 e1 es h d)
    have e1: "e1 < length h" "e1 \<notin> snd ` set es" "k1 \<notin> fst ` set es" using 2(4-6) by auto
    have other: "e \<noteq> e1" if "map_of es k = Some e" for e
      using e1(2) map_of_SomeD [OF that] by force
    have k1: "map_of es k1 = None" using e1(3) by (simp add: map_of_eq_None_iff)
    show ?case
    proof (cases "h ! e1")
      case PNil
      then have "tryExpungeLocked h e1 = (True, h[e1 := PExpunged])" by (simp add: tryExpungeLocked_def)
      with 2 PNil e1 k1 other show ?thesis
        by (auto simp: nth_list_update split: option.splits)
    next
      case PExpunged
      then have "tryExpungeLocked h e1 = (True, h)" by (simp add: tryExpungeLocked_def)
      with 2 PExpunged e1 k1 other show ?thesis
        by (auto split: option.splits)
    next
      case (PVal v)
      then have "tryExpungeLocked h e1 = (False, h)" by (simp add: tryExpungeLocked_def)
      with 2 PVal e1 k1 other show ?thesis
        by (auto simp: update_conv' split: option.splits)
    qed
  qed
  then show "length h' = length h"
    and "i < length h \<Longrightarrow> h' ! i = (if i \<in> snd ` set es \<and> h ! i = PNil then PExpunged else h ! i)"
    and "map_of d' k = (case map_of es k of
              None \<Rightarrow> map_of d k
            | Some e \<Rightarrow> if h ! e = PNil \<or> h ! e = PExpunged then map_of d k else Some e)"
    and "map_wf d \<Longrightarrow> map_wf d'"
    by auto
qed

lemma distinct_refs:
  assumes "sm_inv m"
  shows "distinct (map snd (ro_m (loadReadOnly m)))"
proof -
  let ?es = "ro_m (loadReadOnly m)"
  have wf: "distinct (map fst ?es)" using assms by (simp add: sm_inv_def map_wf_def)
  have "inj_on snd (set ?es)"
  proof (rule inj_onI)
    fix x y assume *: "x \<in> set ?es" "y \<in> set ?es" "snd x = snd y"
    have "rd m (fst z) = Some (snd z)" if "z \<in> set ?es" for z
      using map_of_is_SomeI [OF wf, of "fst z" "snd z"] that by simp
    then have "sm_holds m (fst x) (snd x)" "sm_holds m (fst y) (snd x)"
      using * by (auto simp: sm_holds_def)
    from sm_inv_D(6) [OF assms this] *(3) show "x = y" by (rule prod_eqI)
  qed
  then show ?thesis using wf by (simp add: distinct_map)
qed

definition amend :: "('k, 'v) SyncMap \<Rightarrow> ('k, 'v) SyncMap" where
  "amend m = (dirtyLocked m)\<lparr>sm_read := Some \<lparr>ro_m = ro_m (loadReadOnly m), amended = True\<rparr>\<rparr>"

lemma amend_result:
  assumes "sm_inv m" and "sm_dirty m = None"
  shows "\<exists>h d. amend m =
      m\<lparr>sm_read := Some \<lparr>ro_m = ro_m (loadReadOnly m), amended = True\<rparr>, sm_dirty := Some d, sm_heap := h\<rparr>
    \<and> length h = length (sm_heap m) \<and> map_wf d
    \<and> (\<forall>k e. rd m k = Some e \<longrightarrow> h ! e = (if ent m e = PNil then PExpunged else ent m e))
    \<and> (\<forall>k. map_of d k = (case rd m k of None \<Rightarrow> None | Some e \<Rightarrow> if ent m e = PNil then None else Some e))"
proof -
  let ?es = "ro_m (loadReadOnly m)"
  obtain h d where run: "dirtyLocked_loop ?es (sm_heap m) [] = (h, d)" by (cases "dirtyLocked_loop ?es (sm_heap m) []")
  have wf: "distinct (map fst ?es)" using assms by (simp add: sm_inv_def map_wf_def)
  have small: "e < length (sm_heap m)" if "rd m k = Some e" for k e
    using sm_inv_D(1) [OF assms(1), of k e] that by (simp add: sm_holds_def)
  then have "\<forall>e \<in> snd ` set ?es. e < length (sm_heap m)"
    using wf by (force simp: map_of_eq_Some_iff)
  note res = dirtyLocked_loop_result [OF run wf distinct_refs [OF assms(1)] this]
  show ?thesis
  proof (rule exI [of _ h], rule exI [of _ d], intro conjI allI impI)
    show "amend m = m\<lparr>sm_read := Some \<lparr>ro_m = ?es, amended = True\<rparr>, sm_dirty := Some d, sm_heap := h\<rparr>"
      using assms(2) run by (simp add: amend_def dirtyLocked_def)
    show "h ! e = (if ent m e = PNil then PExpunged else ent m e)" if "rd m k = Some e" for k e
      using res(2) [OF small [OF that]] map_of_SomeD [OF that] by force
    show "map_of d k = (case rd m k of None \<Rightarrow> None | Some e \<Rightarrow> if ent m e = PNil then None else Some e)" for k
      using res(3) [of k] sm_inv_D(3) [OF assms(1), of k] assms(2) by (auto split: option.splits)
  qed (use res in auto)
qed

lemma amend_ok:
  assumes "sm_inv m" and "sm_dirty m = None"
  shows "sm_inv (amend m)" and "sm_abs (amend m) = sm_abs m" and "rd (amend m) = rd m"
    and "sm_dirty (amend m) \<noteq> None" and "rd m k = None \<Longrightarrow> dirty_index (amend m) k = None"
proof -
  obtain h d where eq: "amend m =
      m\<lparr>sm_read := Some \<lparr>ro_m = ro_m (loadReadOnly m), amended = True\<rparr>, sm_dirty := Some d, sm_heap := h\<rparr>"
    and len: "length h = length (sm_heap m)" and wf: "map_wf d"
    and h0: "\<forall>k e. rd m k = Some e \<longrightarrow> h ! e = (if ent m e = PNil then PExpunged else ent m e)"
    and d0: "\<forall>k. map_of d k = (case rd m k of None \<Rightarrow> None | Some e \<Rightarrow> if ent m e = PNil then None else Some e)"
    using amend_result [OF assms] by blast
  note h = h0 [rule_format] and d = d0 [rule_format]
  have ro: "loadReadOnly (amend m) = \<lparr>ro_m = ro_m (loadReadOnly m), amended = True\<rparr>"
    by (simp add: eq loadReadOnly_def)
  have di: "dirty_index (amend m) = map_of d" by (simp add: eq)
  have hp: "sm_heap (amend m) = h" "sm_dirty (amend m) = Some d" by (simp_all add: eq)
  have dr: "map_of d k = Some e \<Longrightarrow> rd m k = Some e" for k e
    by (simp add: d split: option.splits if_splits)
  have hold: "sm_holds (amend m) k e \<Longrightarrow> rd m k = Some e" for k e
    using dr by (auto simp: sm_holds_def ro di)
  have live: "rd m k = Some e \<Longrightarrow> ent m e \<noteq> PExpunged" for k e
    using sm_inv_D(3) [OF assms(1)] assms(2) by blast
  show "sm_inv (amend m)"
  proof (rule sm_inv_I)
    fix k k' e
    show "map_wf (ro_m (loadReadOnly (amend m)))" using assms(1) by (simp add: ro sm_inv_def)
    show "sm_holds (amend m) k e \<Longrightarrow> e < length (sm_heap (amend m))"
      using sm_inv_D(1) [OF assms(1), of k e] hold by (simp add: hp len sm_holds_def)
    show "sm_holds (amend m) k e \<Longrightarrow> sm_holds (amend m) k' e \<Longrightarrow> k = k'"
      using sm_inv_D(6) [OF assms(1), of k e k'] hold by (simp add: sm_holds_def)
    show "rd (amend m) k = Some e \<Longrightarrow> ent (amend m) e = PExpunged \<Longrightarrow>
        sm_dirty (amend m) \<noteq> None \<and> dirty_index (amend m) k = None"
      using live [of k e] by (auto simp: ro hp di h d split: if_splits)
    show "rd (amend m) k = Some e \<Longrightarrow> ent (amend m) e \<noteq> PExpunged \<Longrightarrow>
        sm_dirty (amend m) = None \<or> dirty_index (amend m) k = Some e"
      by (auto simp: ro hp di h d split: if_splits)
    show "dirty_index (amend m) k = Some e \<Longrightarrow> ent (amend m) e \<noteq> PExpunged"
      using live [of k e] dr [of k e] by (auto simp: hp di h d split: if_splits)
  qed (simp_all add: ro hp wf)
  show "rd (amend m) = rd m" "sm_dirty (amend m) \<noteq> None" by (simp_all add: ro hp)
  show "rd m k = None \<Longrightarrow> dirty_index (amend m) k = None" by (simp add: di d)
  show "sm_abs (amend m) = sm_abs m"
  proof
    fix k
    show "sm_abs (amend m) k = sm_abs m k"
      using assms(2)
      by (cases "rd m k") (auto simp: sm_abs_def sm_ref_def entry_load_def ro di hp h d split: eptr.splits)
  qed
qed

lemma newEntry_ok:
  assumes "sm_inv m" and "sm_dirty m = Some d" and "rd m k = None" and "dirty_index m k = None"
    and m'_def: "m' = m\<lparr>sm_heap := sm_heap m @ [PVal v], sm_dirty := Some (AList.update k (length (sm_heap m)) d)\<rparr>"
  shows "sm_inv m'" and "sm_abs m' = (sm_abs m)(k \<mapsto> v)"
proof -
  have di: "dirty_index m' = (dirty_index m)(k \<mapsto> length (sm_heap m))"
    unfolding m'_def dirty_index_Some [OF assms(2)] by (simp only: sm_views_simps update_conv')
  have ro: "loadReadOnly m' = loadReadOnly m" by (simp add: m'_def loadReadOnly_def)
  have hold: "sm_holds m' k1 e \<longleftrightarrow> sm_holds m k1 e \<or> k1 = k \<and> e = length (sm_heap m)" for k1 e
    using assms(3,4) by (auto simp: sm_holds_def ro di)
  have small: "sm_holds m k1 e \<Longrightarrow> e < length (sm_heap m)" for k1 e
    using sm_inv_D(1) [OF assms(1)] .
  have ent: "e < length (sm_heap m) \<Longrightarrow> ent m' e = ent m e" for e
    by (simp add: m'_def nth_append)
  have new: "ent m' (length (sm_heap m)) = PVal v" by (simp add: m'_def)
  have sz: "length (sm_heap m') = Suc (length (sm_heap m))" "sm_dirty m' \<noteq> None" by (simp_all add: m'_def)
  show "sm_inv m'"
  proof (rule sm_inv_I)
    fix k1 k2 e
    show "map_wf (ro_m (loadReadOnly m'))" using assms(1) by (simp add: ro sm_inv_def)
    show "map_wf d1" if "sm_dirty m' = Some d1" for d1
      using sm_inv_wf [OF assms(1,2)] that by (auto simp: m'_def)
    show "amended (loadReadOnly m') \<longleftrightarrow> sm_dirty m' \<noteq> None"
      using sm_inv_D(2) [OF assms(1)] assms(2) by (simp add: ro sz)
    show "sm_holds m' k1 e \<Longrightarrow> e < length (sm_heap m')"
      using small [of k1 e] by (auto simp: hold sz)
    show "sm_holds m' k1 e \<Longrightarrow> sm_holds m' k2 e \<Longrightarrow> k1 = k2"
      using small [of k1 e] small [of k2 e] sm_inv_D(6) [OF assms(1), of k1 e k2] unfolding hold by blast
    show "rd m' k1 = Some e \<Longrightarrow> ent m' e = PExpunged \<Longrightarrow> sm_dirty m' \<noteq> None \<and> dirty_index m' k1 = None"
      using sm_inv_D(3) [OF assms(1), of k1 e] small [of k1 e] ent [of e] assms(3)
      by (auto simp: ro di sm_holds_def sz)
    show "rd m' k1 = Some e \<Longrightarrow> ent m' e \<noteq> PExpunged \<Longrightarrow> sm_dirty m' = None \<or> dirty_index m' k1 = Some e"
      using sm_inv_D(4) [OF assms(1), of k1 e] small [of k1 e] ent [of e] assms(2,3)
      by (auto simp: ro di sm_holds_def)
    show "dirty_index m' k1 = Some e \<Longrightarrow> ent m' e \<noteq> PExpunged"
      using sm_inv_D(5) [OF assms(1), of k1 e] small [of k1 e] ent [of e] new
      by (auto simp: di sm_holds_def split: if_splits)
  qed
  show "sm_abs m' = (sm_abs m)(k \<mapsto> v)"
  proof
    fix k1
    have ref: "sm_ref m' k1 = (if k1 = k then Some (length (sm_heap m)) else sm_ref m k1)"
      using assms(3) by (simp add: sm_ref_def ro di split: option.split)
    show "sm_abs m' k1 = ((sm_abs m)(k \<mapsto> v)) k1"
    proof (cases "sm_ref m k1")
      case None
      then show ?thesis by (simp add: sm_abs_def ref entry_load_def new)
    next
      case (Some e)
      then have "ent m' e = ent m e" using ent [OF small [OF sm_ref_holds]] by blast
      with Some show ?thesis by (simp add: sm_abs_def ref entry_load_def new)
    qed
  qed
qed

lemma addFresh_ok:
  assumes "sm_inv m" and "rd m k = None" and "dirty_index m k = None"
  shows "\<exists>m'. addFresh m k v = Some m' \<and> sm_inv m' \<and> sm_abs m' = (sm_abs m)(k \<mapsto> v)"
proof -
  define m1 where "m1 = (if \<not> amended (loadReadOnly m) then amend m else m)"
  have m1: "sm_inv m1" "sm_abs m1 = sm_abs m" "sm_dirty m1 \<noteq> None" "rd m1 k = None" "dirty_index m1 k = None"
    using assms amend_ok [OF assms(1)] sm_inv_D(2) [OF assms(1)] by (auto simp: m1_def)
  from m1(3) obtain d where d: "sm_dirty m1 = Some d" by auto
  have "addFresh m k v = (let (e, m2) = newEntry m1 v in dirty_put m2 k e)"
    by (simp add: addFresh_def Let_def m1_def amend_def)
  also have "\<dots> =
      Some (m1\<lparr>sm_heap := sm_heap m1 @ [PVal v], sm_dirty := Some (AList.update k (length (sm_heap m1)) d)\<rparr>)"
    using d by (simp add: newEntry_def dirty_put_def)
  finally show ?thesis
    using newEntry_ok [OF m1(1) d m1(4,5) refl, of v] m1(2) by simp
qed

subsection \<open>What the operations do\<close>

text \<open>The result and the abstract map after an operation, and that the invariant is kept.\<close>

lemma tryCompareAndSwap_ok:
  assumes "sm_inv m" and "sm_holds m k e"
  shows "\<exists>m'. tryCompareAndSwap m e old new = (sm_abs m k = Some old, m') \<and> sm_inv m'
           \<and> sm_abs m' = (if sm_abs m k = Some old then (sm_abs m)(k \<mapsto> new) else sm_abs m)
           \<and> sm_dirty m' = sm_dirty m \<and> loadReadOnly m' = loadReadOnly m"
  using set_ent_inv [OF assms, of "PVal new"] set_ent_abs [OF assms, of "PVal new"]
    entry_load_holds [OF assms] assms(1)
  by (auto simp: tryCompareAndSwap_def entry_load_def split: eptr.split)

lemma entry_delete_ok:
  assumes "sm_inv m" and "sm_holds m k e"
  shows "\<exists>m'. entry_delete m e = (sm_abs m k, m') \<and> sm_inv m' \<and> sm_abs m' = (sm_abs m)(k := None)"
  using set_ent_inv [OF assms, of PNil] set_ent_abs [OF assms, of PNil] entry_load_holds [OF assms]
    assms(1)
  by (auto simp: entry_delete_def entry_load_def fun_upd_idem split: eptr.split)

lemma deleteIf_ok:
  assumes "sm_inv m" and "\<And>e. r = Some e \<Longrightarrow> sm_holds m k e" and "r = None \<Longrightarrow> sm_abs m k = None"
  shows "\<exists>m'. deleteIf m r old = (sm_abs m k = Some old, m') \<and> sm_inv m'
           \<and> sm_abs m' = (if sm_abs m k = Some old then (sm_abs m)(k := None) else sm_abs m)"
proof (cases r)
  case None
  with assms show ?thesis by (simp add: deleteIf_def)
next
  case (Some e)
  then have h: "sm_holds m k e" using assms(2) by simp
  show ?thesis
    using set_ent_inv [OF assms(1) h, of PNil] set_ent_abs [OF assms(1) h, of PNil]
      entry_load_holds [OF assms(1) h] Some assms(1)
    by (auto simp: deleteIf_def entry_load_def split: eptr.split)
qed

lemma swapLocked_ok:
  assumes "sm_inv m" and "sm_holds m k e" and "ent m e \<noteq> PExpunged"
  shows "\<exists>m'. swapLocked m e v = (sm_abs m k, m') \<and> sm_inv m' \<and> sm_abs m' = (sm_abs m)(k \<mapsto> v)"
  using set_ent_inv [OF assms, of "PVal v"] set_ent_abs [OF assms(1,2), of "PVal v"]
    entry_load_holds [OF assms(1,2)]
  by (simp add: swapLocked_def)

lemma tryLoadOrStore_ok:
  assumes "sm_inv m" and "sm_holds m k e" and "ent m e \<noteq> PExpunged"
  shows "\<exists>m'. tryLoadOrStore m e v =
             (Some (case sm_abs m k of None \<Rightarrow> (v, False) | Some w \<Rightarrow> (w, True)), m')
           \<and> sm_inv m' \<and> sm_abs m' = (if sm_abs m k = None then (sm_abs m)(k \<mapsto> v) else sm_abs m)
           \<and> sm_dirty m' = sm_dirty m"
  using set_ent_inv [OF assms, of "PVal v"] set_ent_abs [OF assms(1,2), of "PVal v"]
    entry_load_holds [OF assms(1,2), symmetric] assms(1,3)
  by (cases "ent m e") (auto simp: tryLoadOrStore_def entry_load_def)

text \<open>An expunged entry is put back into the dirty part before it is used.\<close>

lemma unexpunge_ok:
  assumes "sm_inv m" and "rd m k = Some e" and "ent m e = PExpunged"
  shows "\<exists>m'. dirty_put (set_ent m e PNil) k e = Some m' \<and> sm_inv m' \<and> sm_abs m' = sm_abs m
           \<and> sm_holds m' k e \<and> ent m' e \<noteq> PExpunged"
proof -
  obtain d where d: "sm_dirty m = Some d" and none: "map_of d k = None"
    using sm_inv_D(3) [OF assms] by (auto simp: dirty_index_def)
  define m' where "m' = m\<lparr>sm_heap := (sm_heap m)[e := PNil], sm_dirty := Some (AList.update k e d)\<rparr>"
  have put: "dirty_put (set_ent m e PNil) k e = Some m'" using d by (simp add: dirty_put_def m'_def)
  have he: "sm_holds m k e" using assms(2) by (simp add: sm_holds_def)
  have len: "e < length (sm_heap m)" using sm_inv_D(1) [OF assms(1) he] .
  have di: "dirty_index m' = (dirty_index m)(k \<mapsto> e)"
    unfolding m'_def dirty_index_Some [OF d] by (simp only: sm_views_simps update_conv')
  have ro: "loadReadOnly m' = loadReadOnly m" by (simp add: m'_def loadReadOnly_def)
  have ent: "ent m' e1 = (if e1 = e then PNil else ent m e1)" for e1
    using len by (simp add: m'_def nth_list_update)
  have hold: "sm_holds m' k1 e1 \<longleftrightarrow> sm_holds m k1 e1" for k1 e1
    using assms(2) sm_inv_D(3) [OF assms] by (auto simp: sm_holds_def ro di)
  have some: "sm_dirty m' \<noteq> None" by (simp add: m'_def)
  have only: "sm_holds m k1 e \<Longrightarrow> k1 = k" for k1
    using sm_inv_D(6) [OF assms(1) _ he] .
  have "sm_inv m'"
  proof (rule sm_inv_I)
    fix k1 k2 e1
    show "map_wf (ro_m (loadReadOnly m'))" using assms(1) by (simp add: ro sm_inv_def)
    show "map_wf d1" if "sm_dirty m' = Some d1" for d1
      using sm_inv_wf [OF assms(1) d] that by (auto simp: m'_def)
    show "amended (loadReadOnly m') \<longleftrightarrow> sm_dirty m' \<noteq> None"
      using sm_inv_D(2) [OF assms(1)] d by (simp add: ro m'_def)
    show "sm_holds m' k1 e1 \<Longrightarrow> e1 < length (sm_heap m')"
      using sm_inv_D(1) [OF assms(1), of k1 e1] by (simp add: hold) (simp add: m'_def)
    show "sm_holds m' k1 e1 \<Longrightarrow> sm_holds m' k2 e1 \<Longrightarrow> k1 = k2"
      using sm_inv_D(6) [OF assms(1), of k1 e1 k2] unfolding hold .
    show "rd m' k1 = Some e1 \<Longrightarrow> ent m' e1 = PExpunged \<Longrightarrow> sm_dirty m' \<noteq> None \<and> dirty_index m' k1 = None"
      using sm_inv_D(3) [OF assms(1), of k1 e1] assms(2) some by (auto simp: ro di ent split: if_splits)
    show "rd m' k1 = Some e1 \<Longrightarrow> ent m' e1 \<noteq> PExpunged \<Longrightarrow> sm_dirty m' = None \<or> dirty_index m' k1 = Some e1"
      using sm_inv_D(4) [OF assms(1), of k1 e1] assms(2) only [of k1] d
      by (auto simp: ro di ent sm_holds_def split: if_splits)
    show "dirty_index m' k1 = Some e1 \<Longrightarrow> ent m' e1 \<noteq> PExpunged"
      using sm_inv_D(5) [OF assms(1), of k1 e1] by (auto simp: di ent split: if_splits)
  qed
  moreover have "sm_abs m' = sm_abs m"
  proof
    fix k1
    have "sm_ref m' k1 = sm_ref m k1"
      using assms(2) by (simp add: sm_ref_def ro di split: option.split)
    then show "sm_abs m' k1 = sm_abs m k1"
      using assms(3) by (simp add: sm_abs_def entry_load_def ent split: option.split)
  qed
  ultimately show ?thesis using put he ent by (simp add: hold)
qed

lemma Swap_fast_ok:
  assumes "sm_inv m" and "Swap_fast m k v = Some (r, m')"
  shows "r = sm_abs m k" and "sm_inv m'" and "sm_abs m' = (sm_abs m)(k \<mapsto> v)"
proof -
  obtain e where e: "rd m k = Some e" "trySwap m e v = Some (r, m')"
    using assms(2) by (auto simp: Swap_fast_def split: option.splits)
  then have h: "sm_holds m k e" by (simp add: sm_holds_def)
  have "ent m e \<noteq> PExpunged" using e(2) by (auto simp: trySwap_def)
  then have "swapLocked m e v = (r, m')"
    using e(2) by (auto simp: trySwap_def swapLocked_def entry_load_def split: eptr.splits)
  with swapLocked_ok [OF assms(1) h \<open>ent m e \<noteq> PExpunged\<close>, of v]
  show "r = sm_abs m k" and "sm_inv m'" and "sm_abs m' = (sm_abs m)(k \<mapsto> v)" by auto
qed

lemma Swap_locked_ok:
  assumes "sm_inv m"
  shows "\<exists>m'. Swap_locked m k v = Some (sm_abs m k, m') \<and> sm_inv m' \<and> sm_abs m' = (sm_abs m)(k \<mapsto> v)"
proof (cases "rd m k")
  case (Some e)
  then have h: "sm_holds m k e" by (simp add: sm_holds_def)
  show ?thesis
  proof (cases "ent m e = PExpunged")
    case True
    then obtain m2 where put: "dirty_put (set_ent m e PNil) k e = Some m2" "sm_inv m2" "sm_abs m2 = sm_abs m"
        "sm_holds m2 k e" "ent m2 e \<noteq> PExpunged"
      using unexpunge_ok [OF assms Some] by blast
    with Some True swapLocked_ok [OF put(2,4,5), of v] show ?thesis
      by (simp add: Swap_locked_def unexpungeLocked_def)
  next
    case False
    then have "unexpungeLocked m e = (False, m)" by (simp add: unexpungeLocked_def split: eptr.split)
    with Some swapLocked_ok [OF assms h False, of v] show ?thesis by (simp add: Swap_locked_def)
  qed
next
  case None
  show ?thesis
  proof (cases "dirty_index m k")
    case (Some e)
    then have "sm_holds m k e" by (simp add: sm_holds_def)
    with None Some swapLocked_ok [OF assms, of k e v] sm_inv_D(5) [OF assms Some] show ?thesis
      by (simp add: Swap_locked_def)
  next
    case none: None
    then have "sm_abs m k = None" using None by (simp add: sm_abs_def sm_ref_def)
    with None none addFresh_ok [OF assms None none, of v] show ?thesis
      by (auto simp: Swap_locked_def)
  qed
qed

lemma Swap_ok:
  assumes "sm_inv m"
  shows "\<exists>m'. Swap m k v = Some (sm_abs m k, m') \<and> sm_inv m' \<and> sm_abs m' = (sm_abs m)(k \<mapsto> v)"
proof (cases "Swap_fast m k v")
  case None
  with Swap_locked_ok [OF assms, of k v] show ?thesis by (simp add: Swap_def)
next
  case (Some r)
  then obtain o' m' where "Swap_fast m k v = Some (o', m')" by (cases r) auto
  with Swap_fast_ok [OF assms this] show ?thesis by (simp add: Swap_def)
qed

lemma Store_ok:
  "sm_inv m \<Longrightarrow> \<exists>m'. Store m k v = Some m' \<and> sm_inv m' \<and> sm_abs m' = (sm_abs m)(k \<mapsto> v)"
  using Swap_ok [of m k v] by (auto simp: Store_def)

text \<open>The lookup of an entry under the lock, shared by \<^verbatim>\<open>Load\<close>, \<^verbatim>\<open>LoadAndDelete\<close> and
  \<^verbatim>\<open>CompareAndDelete\<close>.\<close>

lemma lookup_amended:
  assumes "sm_inv m" and "rd m k = None" and "amended (loadReadOnly m)"
  shows "sm_inv (missLocked m)" and "sm_abs (missLocked m) = sm_abs m"
    and "dirty_index m k = Some e \<Longrightarrow> sm_holds (missLocked m) k e"
    and "dirty_index m k = None \<Longrightarrow> sm_abs m k = None"
proof -
  have d: "sm_dirty m \<noteq> None" using assms sm_inv_D(2) by blast
  show "sm_inv (missLocked m)" "sm_abs (missLocked m) = sm_abs m"
    using missLocked_ok [OF assms(1) d] by simp_all
  show "dirty_index m k = Some e \<Longrightarrow> sm_holds (missLocked m) k e"
    using missLocked_holds [OF d] .
  show "dirty_index m k = None \<Longrightarrow> sm_abs m k = None"
    using assms(2) by (simp add: sm_abs_def sm_ref_def)
qed

lemma abs_not_amended:
  "sm_inv m \<Longrightarrow> rd m k = None \<Longrightarrow> \<not> amended (loadReadOnly m) \<Longrightarrow> sm_abs m k = None"
  by (simp add: sm_abs_def sm_ref_def sm_inv_not_amended)

lemma Load_fast_ok: "sm_inv m \<Longrightarrow> Load_fast m k = Some r \<Longrightarrow> r = sm_abs m k"
  using entry_load_holds [of m k] abs_not_amended [of m k]
  by (auto simp: Load_fast_def Let_def sm_holds_def split: option.splits if_splits)

lemma Load_locked_ok:
  assumes "sm_inv m"
  shows "\<exists>m'. Load_locked m k = (sm_abs m k, m') \<and> sm_inv m' \<and> sm_abs m' = sm_abs m"
proof (cases "rd m k")
  case (Some e)
  with assms entry_load_holds [OF assms, of k e] show ?thesis
    by (simp add: Load_locked_def Let_def sm_holds_def)
next
  case None
  note look = lookup_amended [OF assms None]
  show ?thesis
  proof (cases "amended (loadReadOnly m)")
    case True
    show ?thesis
    proof (cases "dirty_index m k")
      case (Some e)
      with None True entry_load_holds [OF look(1) look(3), of e] look show ?thesis
        by (simp add: Load_locked_def Let_def)
    qed (use None True look in \<open>simp add: Load_locked_def Let_def\<close>)
  qed (use None assms abs_not_amended [OF assms None] in \<open>simp add: Load_locked_def Let_def\<close>)
qed

lemma Load_ok:
  assumes "sm_inv m"
  shows "\<exists>m'. Load m k = (sm_abs m k, m') \<and> sm_inv m' \<and> sm_abs m' = sm_abs m"
  using Load_fast_ok [OF assms, of k] Load_locked_ok [OF assms, of k] assms
  by (cases "Load_fast m k") (auto simp: Load_def)

lemma dirty_delete_ok:
  assumes "sm_inv m" and "rd m k = None" and "amended (loadReadOnly m)"
  defines "m1 \<equiv> m\<lparr>sm_dirty := map_option (AList.delete k) (sm_dirty m)\<rparr>"
  shows "sm_inv m1" and "sm_abs m1 = (sm_abs m)(k := None)" and "sm_dirty m1 \<noteq> None"
    and "sm_heap m1 = sm_heap m"
proof -
  obtain d where d: "sm_dirty m = Some d" using assms(1,3) sm_inv_D(2) by blast
  have di: "dirty_index m1 = (dirty_index m)(k := None)"
    unfolding m1_def dirty_index_Some [OF d] using d by (simp add: delete_conv')
  have ro: "loadReadOnly m1 = loadReadOnly m" by (simp add: m1_def)
  have hp: "sm_heap m1 = sm_heap m" by (simp add: m1_def)
  have some: "sm_dirty m1 \<noteq> None" "sm_dirty m1 = Some (AList.delete k d)" using d by (simp_all add: m1_def)
  have hold: "sm_holds m1 k1 e \<Longrightarrow> sm_holds m k1 e" for k1 e
    by (auto simp: sm_holds_def ro di split: if_splits)
  show "sm_inv m1"
  proof (rule sm_inv_I)
    fix k1 k2 e
    show "map_wf (ro_m (loadReadOnly m1))" using assms(1) by (simp add: ro sm_inv_def)
    show "map_wf d1" if "sm_dirty m1 = Some d1" for d1
      using sm_inv_wf [OF assms(1) d] that some by auto
    show "sm_holds m1 k1 e \<Longrightarrow> e < length (sm_heap m1)"
      using sm_inv_D(1) [OF assms(1) hold] by (simp add: hp)
    show "sm_holds m1 k1 e \<Longrightarrow> sm_holds m1 k2 e \<Longrightarrow> k1 = k2"
      using sm_inv_D(6) [OF assms(1) hold hold] .
    show "rd m1 k1 = Some e \<Longrightarrow> ent m1 e = PExpunged \<Longrightarrow> sm_dirty m1 \<noteq> None \<and> dirty_index m1 k1 = None"
      using sm_inv_D(3) [OF assms(1), of k1 e] some by (auto simp: ro di hp)
    show "rd m1 k1 = Some e \<Longrightarrow> ent m1 e \<noteq> PExpunged \<Longrightarrow> sm_dirty m1 = None \<or> dirty_index m1 k1 = Some e"
      using sm_inv_D(4) [OF assms(1), of k1 e] d assms(2) by (auto simp: ro di hp)
    show "dirty_index m1 k1 = Some e \<Longrightarrow> ent m1 e \<noteq> PExpunged"
      using sm_inv_D(5) [OF assms(1), of k1 e] by (auto simp: di hp split: if_splits)
  qed (use assms(3) some in \<open>simp add: ro\<close>)
  show "sm_abs m1 = (sm_abs m)(k := None)"
    using assms(2) by (auto simp: fun_eq_iff sm_abs_def sm_ref_def ro di hp entry_load_def split: option.split)
  show "sm_dirty m1 \<noteq> None" "sm_heap m1 = sm_heap m" by (fact some hp)+
qed

lemma set_ent_orphan:
  assumes "sm_inv m" and "\<And>k. \<not> sm_holds m k e"
  shows "sm_inv (set_ent m e p)" and "sm_abs (set_ent m e p) = sm_abs m"
proof -
  have hold: "sm_holds (set_ent m e p) = sm_holds m" by (simp add: sm_holds_def fun_eq_iff)
  have ent: "ent (set_ent m e p) e1 = ent m e1" if "sm_holds m k e1" for k e1
    using assms(2) that by (cases "e1 = e") simp_all
  show "sm_inv (set_ent m e p)"
  proof (rule sm_inv_I)
    fix k k' e1
    show "map_wf d" if "sm_dirty (set_ent m e p) = Some d" for d
      using sm_inv_wf [OF assms(1)] that by simp
    show "sm_holds (set_ent m e p) k e1 \<Longrightarrow> e1 < length (sm_heap (set_ent m e p))"
      using sm_inv_D(1) [OF assms(1)] by (simp add: hold)
    show "sm_holds (set_ent m e p) k e1 \<Longrightarrow> sm_holds (set_ent m e p) k' e1 \<Longrightarrow> k = k'"
      using sm_inv_D(6) [OF assms(1)] unfolding hold .
    show "rd (set_ent m e p) k = Some e1 \<Longrightarrow> ent (set_ent m e p) e1 = PExpunged \<Longrightarrow>
        sm_dirty (set_ent m e p) \<noteq> None \<and> dirty_index (set_ent m e p) k = None"
      using sm_inv_D(3) [OF assms(1), of k e1] ent [of k e1] by (simp add: sm_holds_def)
    show "rd (set_ent m e p) k = Some e1 \<Longrightarrow> ent (set_ent m e p) e1 \<noteq> PExpunged \<Longrightarrow>
        sm_dirty (set_ent m e p) = None \<or> dirty_index (set_ent m e p) k = Some e1"
      using sm_inv_D(4) [OF assms(1), of k e1] ent [of k e1] by (simp add: sm_holds_def)
    show "dirty_index (set_ent m e p) k = Some e1 \<Longrightarrow> ent (set_ent m e p) e1 \<noteq> PExpunged"
      using sm_inv_D(5) [OF assms(1), of k e1] ent [of k e1] by (simp add: sm_holds_def)
  qed (use sm_inv_ro_wf [OF assms(1)] sm_inv_D(2) [OF assms(1)] in simp_all)
  have ref: "sm_ref (set_ent m e p) = sm_ref m" by (simp add: sm_ref_def fun_eq_iff split: option.split)
  show "sm_abs (set_ent m e p) = sm_abs m"
  proof
    fix k
    show "sm_abs (set_ent m e p) k = sm_abs m k"
      using ent [of k] sm_ref_holds [of m k]
      by (cases "sm_ref m k") (simp_all add: sm_abs_def ref entry_load_def)
  qed
qed

lemma missLocked_holds_only:
  assumes "sm_dirty m \<noteq> None" and "sm_holds (missLocked m) k e"
  shows "sm_holds m k e"
  using missLocked_alt [of m] promote_views [OF assms(1)] assms(2) by (auto simp: sm_holds_def)

lemma LoadAndDelete_fast_ok:
  assumes "sm_inv m" and "LoadAndDelete_fast m k = Some (r, m')"
  shows "r = sm_abs m k" and "sm_inv m'" and "sm_abs m' = (sm_abs m)(k := None)"
proof -
  have "r = sm_abs m k \<and> sm_inv m' \<and> sm_abs m' = (sm_abs m)(k := None)"
  proof (cases "rd m k")
    case (Some e)
    with assms entry_delete_ok [OF assms(1), of k e] show ?thesis
      by (auto simp: LoadAndDelete_fast_def Let_def sm_holds_def)
  next
    case None
    with assms abs_not_amended [OF assms(1) None] show ?thesis
      by (auto simp: LoadAndDelete_fast_def Let_def fun_upd_idem split: if_splits)
  qed
  then show "r = sm_abs m k" and "sm_inv m'" and "sm_abs m' = (sm_abs m)(k := None)" by auto
qed

lemma LoadAndDelete_locked_ok:
  assumes "sm_inv m"
  shows "\<exists>m'. LoadAndDelete_locked m k = (sm_abs m k, m') \<and> sm_inv m' \<and> sm_abs m' = (sm_abs m)(k := None)"
proof (cases "rd m k")
  case (Some e)
  with entry_delete_ok [OF assms, of k e] show ?thesis
    by (simp add: LoadAndDelete_locked_def Let_def sm_holds_def)
next
  case None
  show ?thesis
  proof (cases "amended (loadReadOnly m)")
    case True
    let ?m1 = "m\<lparr>sm_dirty := map_option (AList.delete k) (sm_dirty m)\<rparr>"
    note del = dirty_delete_ok [OF assms None True]
    note miss = missLocked_ok [OF del(1,3)]
    show ?thesis
    proof (cases "dirty_index m k")
      case (Some e)
      then have h: "sm_holds m k e" by (simp add: sm_holds_def)
      have "\<not> sm_holds ?m1 k1 e" for k1
      proof
        assume h1: "sm_holds ?m1 k1 e"
        then have "sm_holds m k1 e"
          by (auto simp: sm_holds_def dirty_index_def delete_conv' split: option.splits if_splits)
        then have "k1 = k" using sm_inv_D(6) [OF assms _ h] by blast
        with h1 None show False
          by (auto simp: sm_holds_def dirty_index_def delete_conv' split: option.splits)
      qed
      then have "\<not> sm_holds (missLocked ?m1) k1 e" for k1
        using missLocked_holds_only [OF del(3)] by blast
      note orphan = set_ent_orphan [OF miss(1) this]
      have "ent (missLocked ?m1) e = ent m e" using miss(3) del(4) by simp
      then have "entry_load (missLocked ?m1) e = sm_abs m k"
        using entry_load_holds [OF assms h] by (simp add: entry_load_def)
      then show ?thesis
        using None True Some orphan miss del
        by (auto simp: LoadAndDelete_locked_def Let_def entry_delete_def entry_load_def split: eptr.splits)
    next
      case none: None
      with None True miss del lookup_amended(4) [OF assms None True] show ?thesis
        by (simp add: LoadAndDelete_locked_def Let_def)
    qed
  qed (use None assms abs_not_amended [OF assms None] in
       \<open>simp add: LoadAndDelete_locked_def Let_def fun_upd_idem\<close>)
qed

lemma LoadAndDelete_ok:
  assumes "sm_inv m"
  shows "\<exists>m'. LoadAndDelete m k = (sm_abs m k, m') \<and> sm_inv m' \<and> sm_abs m' = (sm_abs m)(k := None)"
proof (cases "LoadAndDelete_fast m k")
  case None
  with LoadAndDelete_locked_ok [OF assms, of k] show ?thesis by (simp add: LoadAndDelete_def)
next
  case (Some r)
  with LoadAndDelete_fast_ok [OF assms, of k "fst r" "snd r"] show ?thesis
    by (cases r) (simp add: LoadAndDelete_def)
qed

lemma Delete_ok: "sm_inv m \<Longrightarrow> sm_inv (Delete m k) \<and> sm_abs (Delete m k) = (sm_abs m)(k := None)"
  using LoadAndDelete_ok [of m k] by (auto simp: Delete_def)

lemma LoadOrStore_fast_ok:
  assumes "sm_inv m" and "LoadOrStore_fast m k v = Some (r, m')"
  shows "r = (case sm_abs m k of None \<Rightarrow> (v, False) | Some w \<Rightarrow> (w, True))" and "sm_inv m'"
    and "sm_abs m' = (if sm_abs m k = None then (sm_abs m)(k \<mapsto> v) else sm_abs m)"
proof -
  obtain e where e: "rd m k = Some e" "tryLoadOrStore m e v = (Some r, m')"
    using assms(2) by (auto simp: LoadOrStore_fast_def split: option.splits prod.splits)
  then have h: "sm_holds m k e" by (simp add: sm_holds_def)
  have "ent m e \<noteq> PExpunged" using e(2) by (auto simp: tryLoadOrStore_def)
  with tryLoadOrStore_ok [OF assms(1) h, of v] e(2)
  show "r = (case sm_abs m k of None \<Rightarrow> (v, False) | Some w \<Rightarrow> (w, True))" and "sm_inv m'"
    and "sm_abs m' = (if sm_abs m k = None then (sm_abs m)(k \<mapsto> v) else sm_abs m)" by auto
qed

lemma LoadOrStore_locked_ok:
  assumes "sm_inv m"
  shows "\<exists>m'. LoadOrStore_locked m k v =
             Some (Some (case sm_abs m k of None \<Rightarrow> (v, False) | Some w \<Rightarrow> (w, True)), m')
           \<and> sm_inv m' \<and> sm_abs m' = (if sm_abs m k = None then (sm_abs m)(k \<mapsto> v) else sm_abs m)"
proof (cases "rd m k")
  case (Some e)
  then have h: "sm_holds m k e" by (simp add: sm_holds_def)
  show ?thesis
  proof (cases "ent m e = PExpunged")
    case True
    then obtain m2 where put: "dirty_put (set_ent m e PNil) k e = Some m2" "sm_inv m2" "sm_abs m2 = sm_abs m"
        "sm_holds m2 k e" "ent m2 e \<noteq> PExpunged"
      using unexpunge_ok [OF assms Some] by blast
    with Some True tryLoadOrStore_ok [OF put(2,4,5), of v] show ?thesis
      by (auto simp: LoadOrStore_locked_def unexpungeLocked_def)
  next
    case False
    then have "unexpungeLocked m e = (False, m)" by (simp add: unexpungeLocked_def split: eptr.split)
    with Some tryLoadOrStore_ok [OF assms h False, of v] show ?thesis
      by (auto simp: LoadOrStore_locked_def)
  qed
next
  case None
  show ?thesis
  proof (cases "dirty_index m k")
    case (Some e)
    then have h: "sm_holds m k e" by (simp add: sm_holds_def)
    obtain m1 where m1: "tryLoadOrStore m e v =
          (Some (case sm_abs m k of None \<Rightarrow> (v, False) | Some w \<Rightarrow> (w, True)), m1)"
        "sm_inv m1" "sm_abs m1 = (if sm_abs m k = None then (sm_abs m)(k \<mapsto> v) else sm_abs m)"
        "sm_dirty m1 = sm_dirty m"
      using tryLoadOrStore_ok [OF assms h sm_inv_D(5) [OF assms Some], of v] by blast
    have "sm_dirty m1 \<noteq> None" using dirty_index_SomeD [OF Some] m1(4) by simp
    from missLocked_ok [OF m1(2) this] None Some m1 show ?thesis
      by (simp add: LoadOrStore_locked_def)
  next
    case none: None
    then have "sm_abs m k = None" using None by (simp add: sm_abs_def sm_ref_def)
    with None none addFresh_ok [OF assms None none, of v] show ?thesis
      by (auto simp: LoadOrStore_locked_def)
  qed
qed

lemma LoadOrStore_ok:
  assumes "sm_inv m"
  shows "\<exists>m'. LoadOrStore m k v =
             Some (Some (case sm_abs m k of None \<Rightarrow> (v, False) | Some w \<Rightarrow> (w, True)), m')
           \<and> sm_inv m' \<and> sm_abs m' = (if sm_abs m k = None then (sm_abs m)(k \<mapsto> v) else sm_abs m)"
proof (cases "LoadOrStore_fast m k v")
  case None
  with LoadOrStore_locked_ok [OF assms, of k v] show ?thesis by (simp add: LoadOrStore_def)
next
  case (Some r)
  with LoadOrStore_fast_ok [OF assms, of k v "fst r" "snd r"] show ?thesis
    by (cases r) (simp add: LoadOrStore_def)
qed

lemma CompareAndSwap_locked_ok:
  assumes "sm_inv m"
  shows "\<exists>m'. CompareAndSwap_locked m k old new = (sm_abs m k = Some old, m') \<and> sm_inv m'
           \<and> sm_abs m' = (if sm_abs m k = Some old then (sm_abs m)(k \<mapsto> new) else sm_abs m)"
proof (cases "rd m k")
  case (Some e)
  with tryCompareAndSwap_ok [OF assms, of k e old new] show ?thesis
    by (auto simp: CompareAndSwap_locked_def sm_holds_def)
next
  case None
  show ?thesis
  proof (cases "dirty_index m k")
    case (Some e)
    then have h: "sm_holds m k e" by (simp add: sm_holds_def)
    obtain m1 where m1: "tryCompareAndSwap m e old new = (sm_abs m k = Some old, m1)" "sm_inv m1"
        "sm_abs m1 = (if sm_abs m k = Some old then (sm_abs m)(k \<mapsto> new) else sm_abs m)"
        "sm_dirty m1 = sm_dirty m"
      using tryCompareAndSwap_ok [OF assms h, of old new] by blast
    with missLocked_ok [OF m1(2)] None Some dirty_index_SomeD [OF Some] show ?thesis
      by (simp add: CompareAndSwap_locked_def)
  next
    case none: None
    then have "sm_abs m k = None" using None by (simp add: sm_abs_def sm_ref_def)
    with None none assms show ?thesis
      by (simp add: CompareAndSwap_locked_def)
  qed
qed

lemma CompareAndSwap_ok:
  assumes "sm_inv m"
  shows "\<exists>m'. CompareAndSwap m k old new = (sm_abs m k = Some old, m') \<and> sm_inv m'
           \<and> sm_abs m' = (if sm_abs m k = Some old then (sm_abs m)(k \<mapsto> new) else sm_abs m)"
  using CompareAndSwap_locked_ok [OF assms, of k old new] tryCompareAndSwap_ok [OF assms, of k "the (rd m k)" old new]
    abs_not_amended [OF assms, of k] assms
  by (cases "rd m k") (auto simp: CompareAndSwap_def CompareAndSwap_fast_def Let_def sm_holds_def)

lemma CompareAndDelete_locked_ok:
  assumes "sm_inv m"
  shows "\<exists>m'. CompareAndDelete_locked m k old = (sm_abs m k = Some old, m') \<and> sm_inv m'
           \<and> sm_abs m' = (if sm_abs m k = Some old then (sm_abs m)(k := None) else sm_abs m)"
proof (cases "rd m k")
  case (Some e)
  with deleteIf_ok [OF assms, of "Some e" k old] show ?thesis
    by (auto simp: CompareAndDelete_locked_def Let_def sm_holds_def)
next
  case None
  show ?thesis
  proof (cases "amended (loadReadOnly m)")
    case True
    note look = lookup_amended [OF assms None True]
    have "\<exists>m'. deleteIf (missLocked m) (dirty_index m k) old = (sm_abs m k = Some old, m') \<and> sm_inv m'
           \<and> sm_abs m' = (if sm_abs m k = Some old then (sm_abs m)(k := None) else sm_abs m)"
      using deleteIf_ok [OF look(1) look(3), of "dirty_index m k" old] look(4) unfolding look(2) by blast
    with None True show ?thesis
      by (simp add: CompareAndDelete_locked_def Let_def)
  next
    case False
    with None assms abs_not_amended [OF assms None False] show ?thesis
      by (simp add: CompareAndDelete_locked_def Let_def deleteIf_def)
  qed
qed

lemma CompareAndDelete_ok:
  assumes "sm_inv m"
  shows "\<exists>m'. CompareAndDelete m k old = (sm_abs m k = Some old, m') \<and> sm_inv m'
           \<and> sm_abs m' = (if sm_abs m k = Some old then (sm_abs m)(k := None) else sm_abs m)"
  using CompareAndDelete_locked_ok [OF assms, of k old] deleteIf_ok [OF assms, of "rd m k" k old]
    abs_not_amended [OF assms, of k] assms
  by (cases "rd m k")
     (auto simp: CompareAndDelete_def CompareAndDelete_fast_def Let_def sm_holds_def deleteIf_def)

text \<open>\<^verbatim>\<open>Range\<close> visits every entry once; \<open>sm_entries\<close> is the list of the pairs in its order.\<close>

definition sm_entries :: "('k, 'v) SyncMap \<Rightarrow> ('k \<times> 'v) list" where
  "sm_entries m =
     (let m' = Range_promote m
      in List.map_filter (\<lambda>(k, e). map_option (Pair k) (entry_load m' e)) (ro_m (loadReadOnly m')))"

fun visit :: "('k \<Rightarrow> 'v \<Rightarrow> 's \<Rightarrow> bool \<times> 's) \<Rightarrow> ('k \<times> 'v) list \<Rightarrow> 's \<Rightarrow> 's" where
  "visit f [] s = s"
| "visit f ((k, v) # es) s = (case f k v s of (True, s') \<Rightarrow> visit f es s' | (False, s') \<Rightarrow> s')"

lemma Range_loop_visit:
  "Range_loop m f es s = visit f (List.map_filter (\<lambda>(k, e). map_option (Pair k) (entry_load m e)) es) s"
  by (induction es arbitrary: s) (auto simp: map_filter_simps split: option.split prod.split bool.split)

lemma Range_promote_ok:
  assumes "sm_inv m"
  shows "sm_inv (Range_promote m)" and "sm_abs (Range_promote m) = sm_abs m"
    and "\<not> amended (loadReadOnly (Range_promote m))"
proof -
  have eq: "Range_promote m = (if amended (loadReadOnly m) then promote m else m)"
    by (simp add: Range_promote_def promote_def)
  show "sm_inv (Range_promote m)" and "sm_abs (Range_promote m) = sm_abs m"
    and "\<not> amended (loadReadOnly (Range_promote m))"
    using assms promote_ok [OF assms] promote_views [of m] sm_inv_D(2) [OF assms] by (auto simp: eq)
qed

lemma map_filter_keys:
  "fst ` set (List.map_filter (\<lambda>(k, e). map_option (Pair k) (g e)) es) \<subseteq> fst ` set es"
  by (induction es) (auto simp: map_filter_simps split: option.splits)

lemma map_filter_pairs:
  assumes "distinct (map fst es)"
  shows "map_of (List.map_filter (\<lambda>(k, e). map_option (Pair k) (g e)) es) k
       = (case map_of es k of None \<Rightarrow> None | Some e \<Rightarrow> g e)"
    and "distinct (map fst (List.map_filter (\<lambda>(k, e). map_option (Pair k) (g e)) es))"
proof -
  have "map_of (List.map_filter (\<lambda>(k, e). map_option (Pair k) (g e)) es) k
       = (case map_of es k of None \<Rightarrow> None | Some e \<Rightarrow> g e)
    \<and> distinct (map fst (List.map_filter (\<lambda>(k, e). map_option (Pair k) (g e)) es))"
    using assms
  proof (induction es)
    case (Cons x es)
    obtain k1 e1 where x: "x = (k1, e1)" by (cases x)
    have out: "k1 \<notin> fst ` set (List.map_filter (\<lambda>(k, e). map_option (Pair k) (g e)) es)"
      using map_filter_keys [of g es] Cons.prems x by auto
    then have "map_of (List.map_filter (\<lambda>(k, e). map_option (Pair k) (g e)) es) k1 = None"
      by (simp add: map_of_eq_None_iff)
    with Cons out x show ?case
      by (cases "g e1") (auto simp: map_filter_simps)
  qed (simp add: map_filter_simps)
  then show "map_of (List.map_filter (\<lambda>(k, e). map_option (Pair k) (g e)) es) k
       = (case map_of es k of None \<Rightarrow> None | Some e \<Rightarrow> g e)"
    and "distinct (map fst (List.map_filter (\<lambda>(k, e). map_option (Pair k) (g e)) es))" by auto
qed

lemma sm_entries_ok:
  assumes "sm_inv m"
  shows "map_of (sm_entries m) = sm_abs m" and "distinct (map fst (sm_entries m))"
proof -
  let ?m = "Range_promote m"
  note pr = Range_promote_ok [OF assms]
  have wf: "distinct (map fst (ro_m (loadReadOnly ?m)))"
    using sm_inv_ro_wf [OF pr(1)] by (simp add: map_wf_def)
  have "map_of (sm_entries m) k = sm_abs ?m k" for k
    using map_filter_pairs(1) [OF wf, of "entry_load ?m" k] sm_inv_not_amended [OF pr(1,3), of k]
    by (simp add: sm_entries_def Let_def sm_abs_def sm_ref_def split: option.split)
  then show "map_of (sm_entries m) = sm_abs m" by (simp add: fun_eq_iff pr(2))
  show "distinct (map fst (sm_entries m))"
    using map_filter_pairs(2) [OF wf, of "entry_load ?m"] by (simp add: sm_entries_def Let_def)
qed

lemma Range_ok:
  assumes "sm_inv m"
  shows "\<exists>m'. Range m f s = (visit f (sm_entries m) s, m') \<and> sm_inv m' \<and> sm_abs m' = sm_abs m"
  using Range_promote_ok [OF assms] by (simp add: Range_def Let_def Range_loop_visit sm_entries_def)

subsection \<open>Refinement\<close>

lemma visit_collect: "visit (\<lambda>k v es. (True, es @ [(k, v)])) es acc = acc @ es"
  by (induction es arbitrary: acc) auto

lemma sm_exec_ok:
  assumes "sm_inv m"
  shows "\<exists>m'. sm_exec late op m = Some (fst (spec_exec op (sm_abs m)), m') \<and> sm_inv m'
           \<and> sm_abs m' = snd (spec_exec op (sm_abs m))"
proof (cases op)
  case (LoadOp k)
  then show ?thesis using Load_ok [OF assms, of k] Load_locked_ok [OF assms, of k] by (cases late) auto
next
  case (SwapOp k v)
  then show ?thesis using Swap_ok [OF assms, of k v] Swap_locked_ok [OF assms, of k v] by (cases late) auto
next
  case (LoadOrStoreOp k v)
  then show ?thesis
    using LoadOrStore_ok [OF assms, of k v] LoadOrStore_locked_ok [OF assms, of k v]
    by (cases late; cases "sm_abs m k") auto
next
  case (LoadAndDeleteOp k)
  then show ?thesis
    using LoadAndDelete_ok [OF assms, of k] LoadAndDelete_locked_ok [OF assms, of k] by (cases late) auto
next
  case (CompareAndSwapOp k old new)
  then show ?thesis
    using CompareAndSwap_ok [OF assms, of k old new] CompareAndSwap_locked_ok [OF assms, of k old new]
    by (cases late) auto
next
  case (CompareAndDeleteOp k old)
  then show ?thesis
    using CompareAndDelete_ok [OF assms, of k old] CompareAndDelete_locked_ok [OF assms, of k old]
    by (cases late) auto
next
  case RangeOp
  then show ?thesis
    using Range_ok [OF assms, of "\<lambda>k v es. (True, es @ [(k, v)])" "[]"] sm_entries_ok(1) [OF assms]
    by (auto simp: visit_collect)
qed

lemma sm_run_ok:
  "sm_inv m \<Longrightarrow> \<exists>m'. sm_run ops m = Some (fst (spec_run ops (sm_abs m)), m') \<and> sm_inv m'
     \<and> sm_abs m' = snd (spec_run ops (sm_abs m))"
proof (induction ops arbitrary: m)
  case (Cons x ops)
  obtain late op where x: "x = (late, op)" by (cases x)
  obtain m1 where m1: "sm_exec late op m = Some (fst (spec_exec op (sm_abs m)), m1)" "sm_inv m1"
      "sm_abs m1 = snd (spec_exec op (sm_abs m))"
    using sm_exec_ok [OF Cons.prems] by blast
  from Cons.IH [OF m1(2)] m1 x show ?case by (auto simp: case_prod_beta Let_def)
qed simp

text \<open>C5: A \<^verbatim>\<open>sync.Map\<close> behaves as a mathematical map. Take any sequence of calls of its
  methods on a new map, each run at once or, late, from its locked section on: no call
  panics, every call returns what the same operation returns on a mathematical map, and in
  the end the invariant holds and the entries are those of that map.\<close>

theorem SyncMap_refines_map:
  "\<exists>m. sm_run ops SyncMap_zero = Some (fst (spec_run ops Map.empty), m)
     \<and> sm_inv m \<and> sm_abs m = snd (spec_run ops Map.empty)"
  using sm_run_ok [OF sm_inv_zero, of ops] by (simp add: sm_abs_zero)

interpretation sm: go_map SyncMap_zero sm_abs sm_store sm_del sm_entries sm_inv
proof unfold_locales
  fix m :: "('k, 'v) SyncMap" and k v
  show "sm_inv m \<Longrightarrow> sm_inv (sm_store k v m)"
    using Store_ok [of m k v] by (auto simp: sm_store_def)
  show "sm_inv m \<Longrightarrow> sm_abs (sm_store k v m) = (sm_abs m)(k \<mapsto> v)"
    using Store_ok [of m k v] by (auto simp: sm_store_def)
  show "sm_inv m \<Longrightarrow> sm_inv (sm_del k m)" "sm_inv m \<Longrightarrow> sm_abs (sm_del k m) = (sm_abs m)(k := None)"
    using Delete_ok [of m k] by (simp_all add: sm_del_def)
qed (simp_all add: sm_inv_zero sm_abs_zero sm_entries_ok)

end
