(* ===== verification/Go_Time.thy ===== *)
theory Go_Time
  imports Go_Prelude
begin

text \<open>
  Durations and the difference of two readings of the monotonic clock, from
  \<^verbatim>\<open>time/time.go\<close>. A \<^verbatim>\<open>Duration\<close> and a clock reading are signed 64-bit numbers of
  nanoseconds; the comparisons of Go on them are the signed ones of words.

  Result: \<^verbatim>\<open>subMono\<close> is subtraction that saturates at the ends of the 64-bit range.
\<close>

type_synonym Duration = i64

definition minDuration :: Duration where
  "minDuration = push_bit 63 (-1)"

definition maxDuration :: Duration where
  "maxDuration = push_bit 63 1 - 1"

definition Nanosecond :: Duration where "Nanosecond = 1"
definition Microsecond :: Duration where "Microsecond = 1000 * Nanosecond"
definition Millisecond :: Duration where "Millisecond = 1000 * Microsecond"
definition Second :: Duration where "Second = 1000 * Millisecond"
definition Minute :: Duration where "Minute = 60 * Second"
definition Hour :: Duration where "Hour = 60 * Minute"

definition subMono :: "i64 \<Rightarrow> i64 \<Rightarrow> Duration" where
  "subMono t u =
     (let d = t - u
      in if d <s 0 \<and> u <s t then maxDuration
         else if 0 <s d \<and> t <s u then minDuration
         else d)"

lemmas duration_defs =
  Nanosecond_def Microsecond_def Millisecond_def Second_def Minute_def Hour_def

lemma sint_range: "- (2 ^ 63) \<le> sint (x :: i64) \<and> sint x < 2 ^ 63"
  using sint_greater_eq [of x] sint_lt [of x] by simp

lemma sint_minDuration [simp]: "sint minDuration = - (2 ^ 63)"
  by (simp add: minDuration_def mask_numeral)

lemma sint_maxDuration [simp]: "sint maxDuration = 2 ^ 63 - 1"
  by (simp add: maxDuration_def)

lemma sint_diff_i64:
  fixes t u :: i64
  shows "sint (t - u) =
    (let k = sint t - sint u
     in if k < - (2 ^ 63) then k + 2 ^ 64 else if 2 ^ 63 \<le> k then k - 2 ^ 64 else k)"
proof -
  define k where "k = sint t - sint u"
  have range: "- (2 ^ 64) < k" "k < 2 ^ 64"
    using sint_range [of t] sint_range [of u] by (auto simp: k_def)
  have "sint (t - u) = (k + 2 ^ 63) mod 2 ^ 64 - 2 ^ 63"
    by (simp add: sint_word_ariths signed_take_bit_eq_take_bit_shift take_bit_eq_mod k_def)
  moreover have "(k + 2 ^ 63) mod 2 ^ 64 = k + 2 ^ 63 + 2 ^ 64" if "k < - (2 ^ 63)"
    using that range by (intro int_mod_pos_eq [where q = "-1"]) auto
  moreover have "(k + 2 ^ 63) mod 2 ^ 64 = k + 2 ^ 63 - 2 ^ 64" if "2 ^ 63 \<le> k"
    using that range by (intro int_mod_pos_eq [where q = 1]) auto
  moreover have "(k + 2 ^ 63) mod 2 ^ 64 = k + 2 ^ 63" if "\<not> k < - (2 ^ 63)" "\<not> 2 ^ 63 \<le> k"
    using that by (intro mod_pos_pos_trivial) auto
  ultimately show ?thesis
    unfolding k_def [symmetric] Let_def by simp
qed

lemma sint_subMono:
  "sint (subMono t u) = max (- (2 ^ 63)) (min (2 ^ 63 - 1) (sint t - sint u))"
  using sint_range [of t] sint_range [of u]
  by (simp add: subMono_def Let_def word_sless_alt sint_diff_i64 max_def min_def)

text \<open>The difference of two clock readings is their mathematical difference where that fits
  a \<^verbatim>\<open>Duration\<close>, and otherwise the largest or the smallest \<^verbatim>\<open>Duration\<close>: the subtraction
  saturates, it never wraps around.\<close>

theorem subMono_saturates:
  "sint (subMono t u) = max (sint minDuration) (min (sint maxDuration) (sint t - sint u))"
  by (simp add: sint_subMono)

end
