(* ===== verification/Net_HostPort.thy ===== *)
theory Net_HostPort
  imports Go_Prelude
begin

text \<open>
  Addresses of the form \<^verbatim>\<open>host:port\<close>: \<^verbatim>\<open>SplitHostPort\<close>, \<^verbatim>\<open>JoinHostPort\<close> and
  \<^verbatim>\<open>splitHostZone\<close> of \<^verbatim>\<open>net/ipsock.go\<close>. The proxy uses the first to find the address a
  rate limit applies to, and \<^verbatim>\<open>net.Dial\<close> uses it on the address the proxy builds.

  Results: exactly which strings \<^verbatim>\<open>SplitHostPort\<close> accepts and what it returns for them,
  and that it inverts \<^verbatim>\<open>JoinHostPort\<close>.
\<close>

datatype addr_error = AddrError (Err: string) (Addr: string)

definition missingPort :: string where
  "missingPort = ''missing port in address''"

definition tooManyColons :: string where
  "tooManyColons = ''too many colons in address''"

text \<open>The end of \<^verbatim>\<open>SplitHostPort\<close>, shared by its two branches: \<open>i\<close> is the position of the
  last colon; there is no bracket before \<open>j\<close> resp. \<open>k\<close>.\<close>

definition SplitHostPort_rest ::
  "string \<Rightarrow> nat \<Rightarrow> string \<Rightarrow> nat \<Rightarrow> nat \<Rightarrow> addr_error + (string \<times> string)" where
  "SplitHostPort_rest hostport i host j k =
     (if IndexByteString (drop j hostport) CHR ''['' \<noteq> None
      then Inl (AddrError ''unexpected '[' in address'' hostport)
      else if IndexByteString (drop k hostport) CHR '']'' \<noteq> None
      then Inl (AddrError ''unexpected ']' in address'' hostport)
      else Inr (host, drop (i + 1) hostport))"

definition SplitHostPort :: "string \<Rightarrow> addr_error + (string \<times> string)" where
  "SplitHostPort hostport =
     (case LastIndexByteString hostport CHR '':'' of
        None \<Rightarrow> Inl (AddrError missingPort hostport)
      | Some i \<Rightarrow>
          if hostport ! 0 = CHR ''['' then
            (case IndexByteString hostport CHR '']'' of
               None \<Rightarrow> Inl (AddrError ''missing ']' in address'' hostport)
             | Some e \<Rightarrow>
                 if e + 1 = length hostport then Inl (AddrError missingPort hostport)
                 else if e + 1 = i
                 then SplitHostPort_rest hostport i (take (e - 1) (drop 1 hostport)) 1 (e + 1)
                 else if hostport ! (e + 1) = CHR '':''
                 then Inl (AddrError tooManyColons hostport)
                 else Inl (AddrError missingPort hostport))
          else
            let host = take i hostport
            in if IndexByteString host CHR '':'' \<noteq> None
               then Inl (AddrError tooManyColons hostport)
               else SplitHostPort_rest hostport i host 0 0)"

definition splitHostZone :: "string \<Rightarrow> string \<times> string" where
  "splitHostZone s =
     (case LastIndexByteString s CHR ''%'' of
        Some i \<Rightarrow> if 0 < i then (take i s, drop (i + 1) s) else (s, '''')
      | None \<Rightarrow> (s, ''''))"

definition JoinHostPort :: "string \<Rightarrow> string \<Rightarrow> string" where
  "JoinHostPort host port =
     (if IndexByteString host CHR '':'' \<noteq> None
      then ''['' @ host @ '']:'' @ port
      else host @ '':'' @ port)"

definition no_brackets :: "string \<Rightarrow> bool" where
  "no_brackets s \<longleftrightarrow> CHR ''['' \<notin> set s \<and> CHR '']'' \<notin> set s"

lemma no_brackets_simps [simp]:
  "no_brackets []"
  "no_brackets (c # s) \<longleftrightarrow> c \<noteq> CHR ''['' \<and> c \<noteq> CHR '']'' \<and> no_brackets s"
  "no_brackets (s @ t) \<longleftrightarrow> no_brackets s \<and> no_brackets t"
  by (auto simp: no_brackets_def)

subsection \<open>The strings that are accepted\<close>

lemma SplitHostPort_rest_Inr:
  "SplitHostPort_rest hp i host j k = Inr (h, p) \<longleftrightarrow>
     CHR ''['' \<notin> set (drop j hp) \<and> CHR '']'' \<notin> set (drop k hp) \<and> h = host \<and> p = drop (i + 1) hp"
  by (auto simp: SplitHostPort_rest_def IndexByteString_None)

lemma SplitHostPort_plain:
  assumes "CHR '':'' \<notin> set h" "CHR '':'' \<notin> set p" "no_brackets h" "no_brackets p"
  shows "SplitHostPort (h @ '':'' @ p) = Inr (h, p)"
proof -
  have "LastIndexByteString (h @ CHR '':'' # p) CHR '':'' = Some (length h)"
    using assms by (simp add: LastIndexByteString_append)
  moreover have "(h @ CHR '':'' # p) ! 0 \<noteq> CHR ''[''"
    using assms by (cases h) (auto simp: no_brackets_def)
  ultimately show ?thesis
    using assms
    by (simp add: SplitHostPort_def SplitHostPort_rest_def IndexByteString_None no_brackets_def)
qed

lemma SplitHostPort_bracketed:
  assumes "CHR '':'' \<notin> set p" "no_brackets h" "no_brackets p"
  shows "SplitHostPort (''['' @ h @ '']:'' @ p) = Inr (h, p)"
proof -
  let ?hp = "CHR ''['' # h @ CHR '']'' # CHR '':'' # p"
  have "LastIndexByteString ((CHR ''['' # h @ [CHR '']'']) @ CHR '':'' # p) CHR '':''
      = Some (length (CHR ''['' # h @ [CHR '']'']))"
    using assms by (intro LastIndexByteString_append)
  then have i: "LastIndexByteString ?hp CHR '':'' = Some (length h + 2)"
    by simp
  have "IndexByteString ((CHR ''['' # h) @ CHR '']'' # CHR '':'' # p) CHR '']''
      = Some (length (CHR ''['' # h))"
    using assms by (intro IndexByteString_append) (auto simp: no_brackets_def)
  then have e: "IndexByteString ?hp CHR '']'' = Some (length h + 1)"
    by simp
  show ?thesis
    using assms i e
    by (simp add: SplitHostPort_def SplitHostPort_rest_def IndexByteString_None no_brackets_def)
qed

lemma SplitHostPort_sound:
  assumes "SplitHostPort hp = Inr (h, p)"
  shows "(hp = h @ '':'' @ p \<and> CHR '':'' \<notin> set h \<or> hp = ''['' @ h @ '']:'' @ p)
         \<and> CHR '':'' \<notin> set p \<and> no_brackets h \<and> no_brackets p"
proof -
  obtain i where i: "LastIndexByteString hp CHR '':'' = Some i"
    using assms by (auto simp: SplitHostPort_def split: option.splits)
  obtain b where hp: "hp = take i hp @ CHR '':'' # b" and b: "CHR '':'' \<notin> set b" and lt: "i < length hp"
    using i by (rule LastIndexByteString_split)
  have db: "drop (Suc i) hp = b"
    by (subst hp) (use lt in simp)
  show ?thesis
  proof (cases "hp ! 0 = CHR ''[''")
    case False
    with assms i have h: "h = take i hp" and p: "p = b"
      and "CHR '':'' \<notin> set (take i hp)" "CHR ''['' \<notin> set hp" "CHR '']'' \<notin> set hp"
      by (auto simp: SplitHostPort_def SplitHostPort_rest_Inr IndexByteString_None db Let_def
          split: if_splits)
    moreover have "set b \<subseteq> set hp"
      using db by (metis set_drop_subset)
    ultimately show ?thesis
      using hp b by (auto simp: no_brackets_def dest: in_set_takeD)
  next
    case True
    with assms i obtain e where e: "IndexByteString hp CHR '']'' = Some e"
      by (auto simp: SplitHostPort_def split: option.splits)
    obtain t where t: "hp = take e hp @ CHR '']'' # t" and ne: "CHR '']'' \<notin> set (take e hp)"
      and elt: "e < length hp"
      using e by (rule IndexByteString_split)
    from True assms i e have i': "i = e + 1" and h: "h = take (e - 1) (drop 1 hp)" and p: "p = b"
      and open1: "CHR ''['' \<notin> set (drop 1 hp)" and close1: "CHR '']'' \<notin> set (drop (e + 1) hp)"
      by (auto simp: SplitHostPort_def SplitHostPort_rest_Inr db split: if_splits)
    have "e \<noteq> 0"
      using True IndexByteString_Some_lt [OF e] by (intro notI) simp
    then have te: "take e hp = CHR ''['' # h"
      using True elt h by (cases hp) (auto simp: take_Cons')
    have "take i hp = take e hp @ [CHR '']'']"
      using i' IndexByteString_Some_lt [OF e] by (simp add: take_Suc_conv_app_nth)
    then have hp': "hp = ''['' @ h @ '']:'' @ p"
      using hp te p by simp
    moreover have "e = Suc (length h)"
      using arg_cong [OF te, of length] elt by simp
    ultimately show ?thesis
      using b p open1 close1 ne te by (auto simp: no_brackets_def)
  qed
qed

lemma SplitHostPort_forms:
  "SplitHostPort hp = Inr (h, p) \<longleftrightarrow>
     (hp = h @ '':'' @ p \<and> CHR '':'' \<notin> set h \<or> hp = ''['' @ h @ '']:'' @ p)
     \<and> CHR '':'' \<notin> set p \<and> no_brackets h \<and> no_brackets p"
  using SplitHostPort_sound [of hp h p] SplitHostPort_plain [of h p] SplitHostPort_bracketed [of p h]
  by auto

text \<open>C16: \<^verbatim>\<open>SplitHostPort\<close> accepts a string exactly when it has the form \<^verbatim>\<open>host:port\<close> with no
  colon in the host, or \<^verbatim>\<open>[host]:port\<close>, where the port has no colon and neither part has a
  square bracket, and then returns these two parts; every other string is an error. The
  port may be empty and so may the host.\<close>

theorem SplitHostPort_iff:
  "SplitHostPort hp = Inr (h, p) \<longleftrightarrow>
     (hp = h @ '':'' @ p \<and> CHR '':'' \<notin> set h \<or> hp = ''['' @ h @ '']:'' @ p)
     \<and> CHR '':'' \<notin> set p \<and> no_brackets h \<and> no_brackets p"
  by (rule SplitHostPort_forms)

lemma SplitHostPort_Join:
  assumes "no_brackets h" "no_brackets p" "CHR '':'' \<notin> set p"
  shows "SplitHostPort (JoinHostPort h p) = Inr (h, p)"
  using assms SplitHostPort_plain SplitHostPort_bracketed
  by (simp add: JoinHostPort_def IndexByteString_None)

text \<open>C17: \<^verbatim>\<open>SplitHostPort\<close> inverts \<^verbatim>\<open>JoinHostPort\<close>: for a host without square brackets (an IPv6
  literal with its colons included) and a port without brackets or colons, splitting the
  joined address gives them back.\<close>

theorem SplitHostPort_JoinHostPort:
  assumes "no_brackets h" "no_brackets p" "CHR '':'' \<notin> set p"
  shows "SplitHostPort (JoinHostPort h p) = Inr (h, p)"
  using assms by (rule SplitHostPort_Join)

theorem SplitHostPort_JoinHostPort_witness:
  "no_brackets ''::1'' \<and> no_brackets ''80'' \<and> CHR '':'' \<notin> set ''80''
   \<and> JoinHostPort ''::1'' ''80'' = ''[::1]:80''
   \<and> SplitHostPort (JoinHostPort ''::1'' ''80'') = Inr (''::1'', ''80'')"
proof -
  have h: "no_brackets ''::1''" "no_brackets ''80''" "CHR '':'' \<notin> set ''80''"
    by simp_all
  show ?thesis
    using h SplitHostPort_JoinHostPort [OF h] by (simp add: JoinHostPort_def)
qed

end
