(* ===== verification/Rate_Limiter.thy ===== *)
theory Rate_Limiter
  imports Go_Map Go_Time Net_HostPort
begin

text \<open>
  The rate limiter of the proxy (\<^verbatim>\<open>proxy/main.go\<close>, type \<^verbatim>\<open>RateLimiter\<close>): how many sessions
  an address has open, and how many outbound connections it was granted since its counter
  was last reset. Each method holds the mutex from its first to its last access of the
  maps, so each is one step of the model. The clock reading of \<^verbatim>\<open>time.Now\<close> is an argument.

  The counters are Go integers; the invariant \<open>rl_inv\<close> bounds them by the limits, so the
  64-bit arithmetic of Go cannot overflow where the limits are 64-bit numbers.

  The contract a server relies on is the locale \<open>session_limiter\<close>: its clients' lemmas
  count the open sessions of each address.
\<close>

record RateLimiter =
  ipSessions :: "(string, int) gomap"
  ipConnections :: "(string, int) gomap"
  ipLastReset :: "(string, i64) gomap"
  maxSessions :: int
  maxConnsPerDay :: int

definition NewRateLimiter :: "int \<Rightarrow> int \<Rightarrow> RateLimiter" where
  "NewRateLimiter ms mc =
     \<lparr>ipSessions = [], ipConnections = [], ipLastReset = [],
      maxSessions = ms, maxConnsPerDay = mc\<rparr>"

definition extractIP :: "string \<Rightarrow> string" where
  "extractIP addr = (case SplitHostPort addr of Inl _ \<Rightarrow> addr | Inr (host, _) \<Rightarrow> host)"

definition TryAcquireSession :: "RateLimiter \<Rightarrow> string \<Rightarrow> bool \<times> RateLimiter" where
  "TryAcquireSession rl remoteAddr =
     (let ip = extractIP remoteAddr; n = map_index 0 (ipSessions rl) ip
      in if maxSessions rl \<le> n then (False, rl)
         else (True, rl\<lparr>ipSessions := AList.update ip (n + 1) (ipSessions rl)\<rparr>))"

definition ReleaseSession :: "RateLimiter \<Rightarrow> string \<Rightarrow> RateLimiter" where
  "ReleaseSession rl remoteAddr =
     (let ip = extractIP remoteAddr;
          n = map_index 0 (ipSessions rl) ip;
          rl1 = (if 0 < n then rl\<lparr>ipSessions := AList.update ip (n - 1) (ipSessions rl)\<rparr> else rl)
      in if map_index 0 (ipSessions rl1) ip = 0
         then rl1\<lparr>ipSessions := AList.delete ip (ipSessions rl1)\<rparr>
         else rl1)"

definition day :: Duration where
  "day = 24 * Hour"

definition TryConnection :: "RateLimiter \<Rightarrow> string \<Rightarrow> i64 \<Rightarrow> bool \<times> RateLimiter" where
  "TryConnection rl remoteAddr now =
     (let ip = extractIP remoteAddr;
          reset = (case map_of (ipLastReset rl) ip of
                     None \<Rightarrow> True
                   | Some lastReset \<Rightarrow> day <s subMono now lastReset);
          rl1 = (if reset
                 then rl\<lparr>ipConnections := AList.update ip 0 (ipConnections rl),
                         ipLastReset := AList.update ip now (ipLastReset rl)\<rparr>
                 else rl);
          n = map_index 0 (ipConnections rl1) ip
      in if maxConnsPerDay rl1 \<le> n then (False, rl1)
         else (True, rl1\<lparr>ipConnections := AList.update ip (n + 1) (ipConnections rl1)\<rparr>))"

definition Stats :: "RateLimiter \<Rightarrow> int \<times> nat" where
  "Stats rl = (sum_list (map snd (ipSessions rl)), length (ipSessions rl))"

text \<open>What the counters satisfy: a stored session count is positive and at most the limit;
  a connection count lies between zero and the limit.\<close>

definition rl_inv :: "RateLimiter \<Rightarrow> bool" where
  "rl_inv rl \<longleftrightarrow>
     map_wf (ipSessions rl) \<and> map_wf (ipConnections rl) \<and> map_wf (ipLastReset rl)
     \<and> (\<forall>ip n. map_of (ipSessions rl) ip = Some n \<longrightarrow> 1 \<le> n \<and> n \<le> maxSessions rl)
     \<and> (\<forall>ip n. map_of (ipConnections rl) ip = Some n \<longrightarrow> 0 \<le> n \<and> n \<le> max 0 (maxConnsPerDay rl))"

definition session_count :: "RateLimiter \<Rightarrow> string \<Rightarrow> int" where
  "session_count rl ip = map_index 0 (ipSessions rl) ip"

definition conn_count :: "RateLimiter \<Rightarrow> string \<Rightarrow> int" where
  "conn_count rl ip = map_index 0 (ipConnections rl) ip"

text \<open>Sequences of calls, from all sessions and request handlers in the order in which they
  take the mutex.\<close>

datatype rl_op = AcquireOp string | ReleaseOp string | ConnectOp string i64

fun rl_step :: "RateLimiter \<Rightarrow> rl_op \<Rightarrow> RateLimiter" where
  "rl_step rl (AcquireOp a) = snd (TryAcquireSession rl a)"
| "rl_step rl (ReleaseOp a) = ReleaseSession rl a"
| "rl_step rl (ConnectOp a now) = snd (TryConnection rl a now)"

definition rl_run :: "RateLimiter \<Rightarrow> rl_op list \<Rightarrow> RateLimiter" where
  "rl_run rl ops = foldl rl_step rl ops"

text \<open>The number of outbound connections that a sequence of calls of \<^verbatim>\<open>TryConnection\<close>
  grants to \<open>ip\<close> between the times \<open>lo\<close> and \<open>hi\<close>.\<close>

fun granted :: "RateLimiter \<Rightarrow> (string \<times> i64) list \<Rightarrow> string \<Rightarrow> int \<Rightarrow> int \<Rightarrow> int" where
  "granted rl [] ip lo hi = 0"
| "granted rl ((a, t) # cs) ip lo hi =
     (let (ok, rl') = TryConnection rl a t
      in (if ok \<and> extractIP a = ip \<and> lo \<le> sint t \<and> sint t \<le> hi then 1 else 0)
         + granted rl' cs ip lo hi)"

fun op_addr :: "rl_op \<Rightarrow> string" where
  "op_addr (AcquireOp a) = a"
| "op_addr (ReleaseOp a) = a"
| "op_addr (ConnectOp a now) = a"

subsection \<open>The invariant\<close>

lemma rl_inv_New: "rl_inv (NewRateLimiter ms mc)"
  by (simp add: rl_inv_def NewRateLimiter_def)

lemma rl_inv_TryAcquire:
  assumes "rl_inv rl" and "TryAcquireSession rl a = (ok, rl')"
  shows "rl_inv rl'"
  using assms
  by (force simp: rl_inv_def TryAcquireSession_def Let_def update_conv' map_index_def
      split: if_splits option.splits)

lemma rl_inv_Release:
  assumes "rl_inv rl"
  shows "rl_inv (ReleaseSession rl a)"
  using assms
  by (force simp: rl_inv_def ReleaseSession_def Let_def update_conv' delete_conv' map_index_def
      split: if_splits option.splits)

lemma rl_inv_TryConnection:
  assumes "rl_inv rl" and "TryConnection rl a now = (ok, rl')"
  shows "rl_inv rl'"
  using assms
  by (force simp: rl_inv_def TryConnection_def Let_def update_conv' map_index_def
      split: if_splits option.splits)

lemma rl_inv_step: "rl_inv rl \<Longrightarrow> rl_inv (rl_step rl op)"
  by (cases op) (auto intro: rl_inv_Release rl_inv_TryAcquire rl_inv_TryConnection
      simp: prod_eq_iff)

lemma rl_inv_run: "rl_inv rl \<Longrightarrow> rl_inv (rl_run rl ops)"
  unfolding rl_run_def by (induction ops arbitrary: rl) (simp_all add: rl_inv_step)

lemma limits_step [simp]:
  "maxSessions (rl_step rl op) = maxSessions rl"
  "maxConnsPerDay (rl_step rl op) = maxConnsPerDay rl"
  by (cases op; simp add: TryAcquireSession_def ReleaseSession_def TryConnection_def Let_def
      split: option.splits)+

lemma session_count_bounds:
  assumes "rl_inv rl"
  shows "0 \<le> session_count rl ip" and "session_count rl ip \<le> max 0 (maxSessions rl)"
  using assms by (force simp: rl_inv_def session_count_def map_index_def split: option.splits)+

lemma conn_count_bounds:
  assumes "rl_inv rl"
  shows "0 \<le> conn_count rl ip" and "conn_count rl ip \<le> max 0 (maxConnsPerDay rl)"
  using assms by (force simp: rl_inv_def conn_count_def map_index_def split: option.splits)+

lemma session_stored_iff:
  "rl_inv rl \<Longrightarrow> ip \<in> dom (map_of (ipSessions rl)) \<longleftrightarrow> 0 < session_count rl ip"
  by (force simp: rl_inv_def session_count_def map_index_def dom_def split: option.splits)

subsection \<open>What the session operations do\<close>

lemma TryAcquireSession_result:
  "TryAcquireSession rl a =
     (session_count rl (extractIP a) < maxSessions rl,
      if session_count rl (extractIP a) < maxSessions rl
      then rl\<lparr>ipSessions := AList.update (extractIP a) (session_count rl (extractIP a) + 1) (ipSessions rl)\<rparr>
      else rl)"
  by (simp add: TryAcquireSession_def session_count_def Let_def)

lemma session_count_acquire:
  assumes "TryAcquireSession rl a = (True, rl')"
  shows "session_count rl' = (session_count rl)(extractIP a := session_count rl (extractIP a) + 1)"
  using assms by (auto simp: TryAcquireSession_result session_count_def fun_eq_iff split: if_splits)

lemma session_count_release:
  assumes "rl_inv rl"
  shows "session_count (ReleaseSession rl a) =
     (session_count rl)(extractIP a := max 0 (session_count rl (extractIP a) - 1))"
  using session_count_bounds(1) [OF assms, of "extractIP a"]
  by (auto simp: ReleaseSession_def session_count_def Let_def fun_eq_iff)

subsection \<open>The contract of a session limiter\<close>

lemma length_filter_remove1:
  "a \<in> set xs \<Longrightarrow>
     int (length (filter P (remove1 a xs))) = int (length (filter P xs)) - (if P a then 1 else 0)"
  by (induction xs) auto

locale session_limiter =
  fixes acquire :: "'l \<Rightarrow> 'a \<Rightarrow> bool \<times> 'l"
    and release :: "'l \<Rightarrow> 'a \<Rightarrow> 'l"
    and key :: "'a \<Rightarrow> 'k"
    and count :: "'l \<Rightarrow> 'k \<Rightarrow> int"
    and limit :: "'l \<Rightarrow> int"
    and inv :: "'l \<Rightarrow> bool"
  assumes inv_acquire: "inv l \<Longrightarrow> acquire l a = (ok, l') \<Longrightarrow> inv l'"
    and inv_release: "inv l \<Longrightarrow> inv (release l a)"
    and acquire_ok: "acquire l a = (ok, l') \<Longrightarrow> ok \<longleftrightarrow> count l (key a) < limit l"
    and acquire_granted: "acquire l a = (True, l') \<Longrightarrow>
          count l' = (count l)(key a := count l (key a) + 1)"
    and acquire_denied: "acquire l a = (False, l') \<Longrightarrow> l' = l"
    and release_count: "inv l \<Longrightarrow>
          count (release l a) = (count l)(key a := max 0 (count l (key a) - 1))"
    and limit_acquire: "acquire l a = (ok, l') \<Longrightarrow> limit l' = limit l"
    and limit_release: "limit (release l a) = limit l"
    and count_bounds: "inv l \<Longrightarrow> 0 \<le> count l k \<and> count l k \<le> max 0 (limit l)"
begin

definition tracks :: "'l \<Rightarrow> 'a list \<Rightarrow> bool" where
  \<comment> \<open>The counts are the numbers of the live holders of each key.\<close>
  "tracks l live \<longleftrightarrow> inv l \<and> (\<forall>k. count l k = int (length (filter (\<lambda>a. key a = k) live)))"

lemma tracks_acquire:
  assumes "tracks l live" and "acquire l a = (True, l')"
  shows "tracks l' (a # live)"
  using assms inv_acquire acquire_granted [OF assms(2)] by (auto simp: tracks_def)

lemma tracks_release:
  assumes "tracks l live" and "a \<in> set live"
  shows "tracks (release l a) (remove1 a live)"
proof -
  have "0 < length (filter (\<lambda>b. key b = key a) live)"
    using assms(2) by (auto simp: filter_empty_conv)
  then show ?thesis
    using assms inv_release release_count [of l a]
    by (auto simp: tracks_def length_filter_remove1)
qed

lemma tracks_bound: "tracks l live \<Longrightarrow> int (length (filter (\<lambda>a. key a = k) live)) \<le> max 0 (limit l)"
  using count_bounds [of l k] by (auto simp: tracks_def)

end

interpretation rl: session_limiter TryAcquireSession ReleaseSession extractIP session_count maxSessions rl_inv
proof unfold_locales
  fix l a ok l' k
  show "rl_inv l \<Longrightarrow> TryAcquireSession l a = (ok, l') \<Longrightarrow> rl_inv l'"
    by (rule rl_inv_TryAcquire)
  show "rl_inv l \<Longrightarrow> rl_inv (ReleaseSession l a)"
    by (rule rl_inv_Release)
  show "TryAcquireSession l a = (ok, l') \<Longrightarrow> ok \<longleftrightarrow> session_count l (extractIP a) < maxSessions l"
    by (simp add: TryAcquireSession_result)
  show "TryAcquireSession l a = (True, l') \<Longrightarrow>
      session_count l' = (session_count l)(extractIP a := session_count l (extractIP a) + 1)"
    by (rule session_count_acquire)
  show "TryAcquireSession l a = (False, l') \<Longrightarrow> l' = l"
    by (simp add: TryAcquireSession_result split: if_splits)
  show "rl_inv l \<Longrightarrow> session_count (ReleaseSession l a) =
      (session_count l)(extractIP a := max 0 (session_count l (extractIP a) - 1))"
    by (rule session_count_release)
  show "TryAcquireSession l a = (ok, l') \<Longrightarrow> maxSessions l' = maxSessions l"
    by (auto simp: TryAcquireSession_result)
  show "maxSessions (ReleaseSession l a) = maxSessions l"
    using limits_step(1) [of l "ReleaseOp a"] by simp
  show "rl_inv l \<Longrightarrow> 0 \<le> session_count l k \<and> session_count l k \<le> max 0 (maxSessions l)"
    using session_count_bounds by blast
qed

subsection \<open>The daily window\<close>

lemma sint_day [simp]: "sint day = 86400000000000"
  by (simp add: day_def duration_defs)

lemma window_open_iff: "day <s subMono t l \<longleftrightarrow> sint day < sint t - sint l"
  by (auto simp: word_sless_alt sint_subMono min_def max_def)

text \<open>One call seen from an address \<open>ip\<close>: another address changes nothing; its own call either
  opens a new window or counts in the current one.\<close>

lemma TryConnection_other:
  assumes "TryConnection rl a t = (ok, rl')" and "extractIP a \<noteq> ip"
  shows "conn_count rl' ip = conn_count rl ip"
    and "map_of (ipLastReset rl') ip = map_of (ipLastReset rl) ip"
  using assms
  by (auto simp: TryConnection_def conn_count_def Let_def update_conv
      split: if_splits option.splits)

lemma TryConnection_same:
  assumes "TryConnection rl a t = (ok, rl')" and "map_of (ipLastReset rl) (extractIP a) = Some l"
    and "sint t - sint l \<le> sint day"
  shows "ok \<longleftrightarrow> conn_count rl (extractIP a) < maxConnsPerDay rl"
    and "conn_count rl' (extractIP a) = conn_count rl (extractIP a) + (if ok then 1 else 0)"
    and "map_of (ipLastReset rl') (extractIP a) = Some l"
  using assms
  by (auto simp: TryConnection_def conn_count_def Let_def window_open_iff split: if_splits)

lemma TryConnection_opens:
  assumes "TryConnection rl a t = (ok, rl')"
    and "\<And>l. map_of (ipLastReset rl) (extractIP a) = Some l \<Longrightarrow> sint day < sint t - sint l"
  shows "ok \<longleftrightarrow> 0 < maxConnsPerDay rl"
    and "conn_count rl' (extractIP a) = (if ok then 1 else 0)"
    and "map_of (ipLastReset rl') (extractIP a) = Some t"
  using assms
  by (auto simp: TryConnection_def conn_count_def Let_def window_open_iff update_conv
      split: if_splits option.splits)

lemma TryConnection_limit: "TryConnection rl a t = (ok, rl') \<Longrightarrow> maxConnsPerDay rl' = maxConnsPerDay rl"
  using limits_step(2) [of rl "ConnectOp a t"] by simp

lemma granted_after: "\<forall>(a, t) \<in> set cs. hi < sint t \<Longrightarrow> granted rl cs ip lo hi = 0"
  by (induction cs arbitrary: rl) (auto split: prod.splits)

abbreviation in_order :: "(string \<times> i64) list \<Rightarrow> bool" where
  "in_order cs \<equiv> sorted (map (\<lambda>c. sint (snd c)) cs)"

lemma granted_same_window:
  assumes "rl_inv rl" and "in_order cs" and "map_of (ipLastReset rl) ip = Some l"
    and "hi - sint l \<le> sint day" and "0 \<le> maxConnsPerDay rl"
  shows "granted rl cs ip lo hi \<le> maxConnsPerDay rl - conn_count rl ip"
  using assms
proof (induction cs arbitrary: rl)
  case Nil
  then show ?case using conn_count_bounds(2) [of rl ip] by simp
next
  case (Cons c cs)
  obtain a t where c: "c = (a, t)" by (cases c)
  obtain ok rl' where call: "TryConnection rl a t = (ok, rl')" by (cases "TryConnection rl a t")
  note facts = rl_inv_TryConnection [OF Cons.prems(1) call] TryConnection_limit [OF call]
  show ?case
  proof (cases "hi < sint t")
    case True
    then have "granted rl (c # cs) ip lo hi = 0"
      using Cons.prems(2) c by (intro granted_after) force
    then show ?thesis using conn_count_bounds(2) [OF Cons.prems(1), of ip] Cons.prems(5) by simp
  next
    case inside: False
    show ?thesis
    proof (cases "extractIP a = ip")
      case True
      then show ?thesis
        using Cons.IH [of rl'] Cons.prems TryConnection_same [OF call, of l] facts inside c call
        by (auto split: if_splits)
    next
      case False
      then show ?thesis
        using Cons.IH [of rl'] Cons.prems TryConnection_other [OF call False] facts c call by auto
    qed
  qed
qed

lemma granted_window_started:
  assumes "rl_inv rl" and "in_order cs" and "\<forall>(a, t) \<in> set cs. lo \<le> sint t"
    and "hi - lo \<le> sint day" and "0 \<le> maxConnsPerDay rl"
  shows "granted rl cs ip lo hi \<le> 2 * maxConnsPerDay rl - conn_count rl ip"
  using assms
proof (induction cs arbitrary: rl)
  case Nil
  then show ?case using conn_count_bounds(2) [of rl ip] by simp
next
  case (Cons c cs)
  obtain a t where c: "c = (a, t)" by (cases c)
  obtain ok rl' where call: "TryConnection rl a t = (ok, rl')" by (cases "TryConnection rl a t")
  note facts = rl_inv_TryConnection [OF Cons.prems(1) call] TryConnection_limit [OF call]
  consider (other) "extractIP a \<noteq> ip"
    | (same) l where "extractIP a = ip" "map_of (ipLastReset rl) ip = Some l"
        "sint t - sint l \<le> sint day"
    | (opens) "extractIP a = ip"
        "\<And>l. map_of (ipLastReset rl) (extractIP a) = Some l \<Longrightarrow> sint day < sint t - sint l"
    by (metis linorder_not_le)
  then show ?case
  proof cases
    case other
    then show ?thesis
      using Cons.IH [of rl'] Cons.prems TryConnection_other [OF call other] facts c call by auto
  next
    case (same l)
    then show ?thesis
      using Cons.IH [of rl'] Cons.prems TryConnection_same [OF call, of l] facts c call
      by (auto split: if_splits)
  next
    case opens
    note new = TryConnection_opens [OF call opens(2)]
    have "granted rl' cs ip lo hi \<le> maxConnsPerDay rl' - conn_count rl' ip"
      using Cons.prems facts new c opens(1) by (intro granted_same_window [of _ _ _ t]) auto
    then have "granted rl (c # cs) ip lo hi \<le> maxConnsPerDay rl"
      using new facts c call opens(1) by (auto split: if_splits)
    then show ?thesis using conn_count_bounds(2) [OF Cons.prems(1), of ip] Cons.prems(5) by simp
  qed
qed

lemma granted_any_window:
  assumes "rl_inv rl" and "in_order cs" and "hi - lo \<le> sint day" and "0 \<le> maxConnsPerDay rl"
  shows "granted rl cs ip lo hi \<le> 2 * maxConnsPerDay rl"
  using assms
proof (induction cs arbitrary: rl)
  case Nil
  then show ?case by simp
next
  case (Cons c cs)
  obtain a t where c: "c = (a, t)" by (cases c)
  obtain ok rl' where call: "TryConnection rl a t = (ok, rl')" by (cases "TryConnection rl a t")
  note facts = rl_inv_TryConnection [OF Cons.prems(1) call] TryConnection_limit [OF call]
  show ?case
  proof (cases "sint t < lo")
    case True
    then show ?thesis using Cons.IH [of rl'] Cons.prems facts c call by auto
  next
    case False
    then have "\<forall>(a, t) \<in> set (c # cs). lo \<le> sint t"
      using Cons.prems(2) c by force
    then show ?thesis
      using granted_window_started [OF Cons.prems(1,2) _ Cons.prems(3,4), of ip]
        conn_count_bounds(1) [OF Cons.prems(1), of ip] by force
  qed
qed

text \<open>A burst of calls within the open window is granted in full while the count lasts.\<close>

lemma granted_burst:
  assumes "map_of (ipLastReset rl) (extractIP a) = Some l" and "sint t - sint l \<le> sint day"
    and "conn_count rl (extractIP a) + int n \<le> maxConnsPerDay rl"
    and "lo \<le> sint t" and "sint t \<le> hi"
  shows "\<exists>rl'. granted rl (replicate n (a, t) @ cs) (extractIP a) lo hi
           = int n + granted rl' cs (extractIP a) lo hi
         \<and> map_of (ipLastReset rl') (extractIP a) = Some l
         \<and> conn_count rl' (extractIP a) = conn_count rl (extractIP a) + int n
         \<and> maxConnsPerDay rl' = maxConnsPerDay rl"
  using assms
proof (induction n arbitrary: rl)
  case 0
  then show ?case by auto
next
  case (Suc n)
  obtain ok rl1 where call: "TryConnection rl a t = (ok, rl1)" by (cases "TryConnection rl a t")
  note facts = TryConnection_same [OF call Suc.prems(1,2)] TryConnection_limit [OF call]
  have ok: "ok" using facts Suc.prems(3) by simp
  obtain rl' where "granted rl1 (replicate n (a, t) @ cs) (extractIP a) lo hi
           = int n + granted rl' cs (extractIP a) lo hi"
    and "map_of (ipLastReset rl') (extractIP a) = Some l"
    and "conn_count rl' (extractIP a) = conn_count rl1 (extractIP a) + int n"
    and "maxConnsPerDay rl' = maxConnsPerDay rl1"
    using Suc.IH [of rl1] Suc.prems facts ok by auto
  then show ?case using call facts ok Suc.prems by (intro exI [of _ rl']) simp
qed

lemma granted_opening:
  assumes "\<And>l. map_of (ipLastReset rl) (extractIP a) = Some l \<Longrightarrow> sint day < sint t - sint l"
    and "0 < maxConnsPerDay rl"
  shows "\<exists>rl'. granted rl ((a, t) # cs) (extractIP a) lo hi
           = (if lo \<le> sint t \<and> sint t \<le> hi then 1 else 0) + granted rl' cs (extractIP a) lo hi
         \<and> map_of (ipLastReset rl') (extractIP a) = Some t
         \<and> conn_count rl' (extractIP a) = 1 \<and> maxConnsPerDay rl' = maxConnsPerDay rl"
proof -
  obtain ok rl1 where call: "TryConnection rl a t = (ok, rl1)" by (cases "TryConnection rl a t")
  note facts = TryConnection_opens [OF call assms(1)] TryConnection_limit [OF call]
  then show ?thesis using assms(2) call by (intro exI [of _ rl1]) simp
qed

subsection \<open>Other addresses\<close>

lemma rl_step_other:
  assumes "extractIP (op_addr op) \<noteq> ip"
  shows "session_count (rl_step rl op) ip = session_count rl ip"
    and "conn_count (rl_step rl op) ip = conn_count rl ip"
    and "map_of (ipLastReset (rl_step rl op)) ip = map_of (ipLastReset rl) ip"
  using assms
  by (cases op; auto simp: TryAcquireSession_def ReleaseSession_def TryConnection_def Let_def
      session_count_def conn_count_def update_conv split: option.splits)+

lemma rl_run_other:
  assumes "\<forall>op \<in> set ops. extractIP (op_addr op) \<noteq> ip"
  shows "session_count (rl_run rl ops) ip = session_count rl ip"
    and "conn_count (rl_run rl ops) ip = conn_count rl ip"
    and "map_of (ipLastReset (rl_run rl ops)) ip = map_of (ipLastReset rl) ip"
    and "maxSessions (rl_run rl ops) = maxSessions rl"
    and "maxConnsPerDay (rl_run rl ops) = maxConnsPerDay rl"
  using assms unfolding rl_run_def
  by (induction ops arbitrary: rl) (simp_all add: rl_step_other)

lemma fst_TryConnection:
  "fst (TryConnection rl a t) \<longleftrightarrow>
     (case map_of (ipLastReset rl) (extractIP a) of
        None \<Rightarrow> 0 < maxConnsPerDay rl
      | Some l \<Rightarrow> if sint day < sint t - sint l then 0 < maxConnsPerDay rl
                  else conn_count rl (extractIP a) < maxConnsPerDay rl)"
  by (auto simp: TryConnection_def conn_count_def Let_def window_open_iff split: option.splits)

subsection \<open>Properties\<close>

text \<open>C13: however sessions and outbound connections are requested and released, in any order
  and from any addresses, the limiter never counts a negative number of sessions or more
  than its limit for an address, it stores an entry exactly for the addresses that have an
  open session, and no address is counted more connections than the daily limit.\<close>

theorem limiter_bounds:
  fixes ms mc ops ip
  defines "rl \<equiv> rl_run (NewRateLimiter ms mc) ops"
  shows "0 \<le> session_count rl ip \<and> session_count rl ip \<le> max 0 ms
    \<and> (ip \<in> dom (map_of (ipSessions rl)) \<longleftrightarrow> 0 < session_count rl ip)
    \<and> 0 \<le> conn_count rl ip \<and> conn_count rl ip \<le> max 0 mc"
proof -
  have inv: "rl_inv rl" unfolding rl_def by (rule rl_inv_run [OF rl_inv_New])
  have "maxSessions rl = ms" "maxConnsPerDay rl = mc"
    unfolding rl_def rl_run_def NewRateLimiter_def by (induction ops rule: rev_induct) simp_all
  then show ?thesis
    using session_count_bounds [OF inv] conn_count_bounds [OF inv] session_stored_iff [OF inv] by auto
qed

text \<open>C14: what one address does never changes what another is allowed: after any calls for other
  addresses, the answers of \<^verbatim>\<open>TryAcquireSession\<close> and \<^verbatim>\<open>TryConnection\<close> for an address are
  those they would have been before.\<close>

theorem limiter_isolation:
  assumes "\<forall>op \<in> set ops. extractIP (op_addr op) \<noteq> extractIP a"
  shows "fst (TryAcquireSession (rl_run rl ops) a) = fst (TryAcquireSession rl a)
    \<and> fst (TryConnection (rl_run rl ops) a t) = fst (TryConnection rl a t)"
  by (simp add: TryAcquireSession_result fst_TryConnection rl_run_other [OF assms]
      cong: option.case_cong)

theorem limiter_isolation_witness:
  "fst (TryConnection (rl_run (NewRateLimiter 1 1) [ConnectOp ''10.0.0.1:80'' 0, AcquireOp ''[::1]:9'']) ''10.0.0.2:80'' 5)
     = fst (TryConnection (NewRateLimiter 1 1) ''10.0.0.2:80'' 5)"
  by (rule limiter_isolation [THEN conjunct2]) code_simp

text \<open>C12: in any period of 24 hours an address is granted at most twice the daily limit, whatever
  other addresses do in between, as long as the calls are made in the order of the clock
  and the differences of the clock are those of the calls.\<close>

theorem granted_per_day:
  assumes "in_order cs" and "hi - lo \<le> sint day" and "0 \<le> mc"
  shows "granted (rl_run (NewRateLimiter ms mc) ops) cs ip lo hi \<le> 2 * mc"
proof -
  have "maxConnsPerDay (rl_run (NewRateLimiter ms mc) ops) = mc"
    unfolding rl_run_def NewRateLimiter_def by (induction ops rule: rev_induct) simp_all
  then show ?thesis
    using granted_any_window [OF rl_inv_run [OF rl_inv_New] assms(1,2), of ms mc ops ip] assms(3)
    by simp
qed

theorem granted_per_day_witness:
  "granted (rl_run (NewRateLimiter 5 1) []) [(''10.0.0.1:80'', 0), (''10.0.0.1:81'', 7)] ''10.0.0.1'' 0 7 \<le> 2 * 1"
  by (rule granted_per_day) simp_all

text \<open>C15: the bound is not the daily limit: a client that opens one connection, waits until the end
  of the window and then uses up the rest of this window and all of the next is granted
  \<^verbatim>\<open>2 * maxConnsPerDay - 1\<close> connections within one nanosecond.\<close>

theorem granted_burst_at_reset:
  fixes a
  assumes "0 < mc"
  defines "cs \<equiv> (a, 0) # replicate (mc - 1) (a, day) @ (a, day + 1) # replicate (mc - 1) (a, day + 1)"
  shows "granted (NewRateLimiter ms (int mc)) cs (extractIP a) (sint day) (sint day + 1)
           = 2 * int mc - 1"
proof -
  have day1: "sint (day + 1) = sint day + 1" by (simp add: day_def duration_defs)
  have "\<exists>rl1. granted (NewRateLimiter ms (int mc)) cs (extractIP a) (sint day) (sint day + 1)
      = 0 + granted rl1 (tl cs) (extractIP a) (sint day) (sint day + 1)
      \<and> map_of (ipLastReset rl1) (extractIP a) = Some 0
      \<and> conn_count rl1 (extractIP a) = 1 \<and> maxConnsPerDay rl1 = int mc"
    unfolding cs_def list.sel(3) using assms(1)
      granted_opening [of "NewRateLimiter ms (int mc)" a 0 _ "sint day" "sint day + 1"]
    by (simp add: NewRateLimiter_def del: granted.simps)
  then obtain rl1 where s1: "granted (NewRateLimiter ms (int mc)) cs (extractIP a) (sint day) (sint day + 1)
      = granted rl1 (tl cs) (extractIP a) (sint day) (sint day + 1)"
    "map_of (ipLastReset rl1) (extractIP a) = Some 0"
    "conn_count rl1 (extractIP a) = 1" "maxConnsPerDay rl1 = int mc" by auto
  obtain rl2 where s2: "granted rl1 (tl cs) (extractIP a) (sint day) (sint day + 1)
      = int (mc - 1) + granted rl2 ((a, day + 1) # replicate (mc - 1) (a, day + 1)) (extractIP a) (sint day) (sint day + 1)"
    "map_of (ipLastReset rl2) (extractIP a) = Some 0" "maxConnsPerDay rl2 = int mc"
    using granted_burst [of rl1 a 0 day "mc - 1" "sint day" "sint day + 1"
        "(a, day + 1) # replicate (mc - 1) (a, day + 1)"] s1 assms(1)
    by (auto simp: cs_def simp del: granted.simps)
  obtain rl3 where s3: "granted rl2 ((a, day + 1) # replicate (mc - 1) (a, day + 1)) (extractIP a) (sint day) (sint day + 1)
      = 1 + granted rl3 (replicate (mc - 1) (a, day + 1)) (extractIP a) (sint day) (sint day + 1)"
    "map_of (ipLastReset rl3) (extractIP a) = Some (day + 1)"
    "conn_count rl3 (extractIP a) = 1" "maxConnsPerDay rl3 = int mc"
    using granted_opening [of rl2 a "day + 1" "replicate (mc - 1) (a, day + 1)" "sint day" "sint day + 1"]
      s2 assms(1) day1 by (auto simp del: granted.simps)
  have "granted rl3 (replicate (mc - 1) (a, day + 1)) (extractIP a) (sint day) (sint day + 1) = int (mc - 1)"
    using granted_burst [of rl3 a "day + 1" "day + 1" "mc - 1" "sint day" "sint day + 1" "[]"]
      s3 assms(1) day1 by fastforce
  then show ?thesis using s1 s2 s3 assms(1) by simp
qed

theorem granted_burst_at_reset_witness:
  "granted (NewRateLimiter 5 (int 2))
     [(''10.0.0.1:80'', 0), (''10.0.0.1:80'', day), (''10.0.0.1:80'', day + 1), (''10.0.0.1:80'', day + 1)]
     (extractIP ''10.0.0.1:80'') (sint day) (sint day + 1) = 2 * int 2 - 1"
  using granted_burst_at_reset [of 2 5 "''10.0.0.1:80''"] by (simp add: numeral_2_eq_2)

end
