(* ===== verification/Netip_Uint128.thy ===== *)
theory Netip_Uint128
  imports Go_Binary
begin

text \<open>
  The 128-bit numbers of \<^verbatim>\<open>net/netip/uint128.go\<close>, two 64-bit halves, with the carry and
  borrow arithmetic of \<^verbatim>\<open>math/bits\<close> they use and the byte accessors of
  \<^verbatim>\<open>net/netip/leaf_alts.go\<close>. Each operation refines the corresponding operation on
  \<open>128 word\<close> through the abstraction \<open>u128\<close>.

  A Go array \<^verbatim>\<open>[n]byte\<close> is a list of length \<open>n\<close>; its elements are read at constant positions
  below \<open>n\<close>, so no read is out of range.
\<close>

subsection \<open>Addition and subtraction with carry\<close>

definition Add64 :: "u64 \<Rightarrow> u64 \<Rightarrow> u64 \<Rightarrow> u64 \<times> u64" where
  "Add64 x y carry =
     (let sum = x + y + carry
      in (sum, drop_bit 63 ((x AND y) OR ((x OR y) AND NOT sum))))"

definition Sub64 :: "u64 \<Rightarrow> u64 \<Rightarrow> u64 \<Rightarrow> u64 \<times> u64" where
  "Sub64 x y borrow =
     (let diff = x - y - borrow
      in (diff, drop_bit 63 ((NOT x AND y) OR (NOT (x XOR y) AND diff))))"

subsection \<open>The type and its operations\<close>

record uint128 =
  u_hi :: u64
  u_lo :: u64

definition mask6 :: "nat \<Rightarrow> uint128" where
  \<comment> \<open>for \<open>n \<le> 128\<close>; a larger \<open>n\<close> would be a negative shift\<close>
  "mask6 n = \<lparr>u_hi = NOT (drop_bit n (NOT 0)), u_lo = push_bit (128 - n) (NOT 0)\<rparr>"

definition uint128_isZero :: "uint128 \<Rightarrow> bool" where
  "uint128_isZero u \<longleftrightarrow> u_hi u OR u_lo u = 0"

definition uint128_and :: "uint128 \<Rightarrow> uint128 \<Rightarrow> uint128" where
  "uint128_and u m = \<lparr>u_hi = u_hi u AND u_hi m, u_lo = u_lo u AND u_lo m\<rparr>"

definition uint128_xor :: "uint128 \<Rightarrow> uint128 \<Rightarrow> uint128" where
  "uint128_xor u m = \<lparr>u_hi = u_hi u XOR u_hi m, u_lo = u_lo u XOR u_lo m\<rparr>"

definition uint128_or :: "uint128 \<Rightarrow> uint128 \<Rightarrow> uint128" where
  "uint128_or u m = \<lparr>u_hi = u_hi u OR u_hi m, u_lo = u_lo u OR u_lo m\<rparr>"

definition uint128_not :: "uint128 \<Rightarrow> uint128" where
  "uint128_not u = \<lparr>u_hi = NOT (u_hi u), u_lo = NOT (u_lo u)\<rparr>"

definition subOne :: "uint128 \<Rightarrow> uint128" where
  "subOne u = (let (low, borrow) = Sub64 (u_lo u) 1 0 in \<lparr>u_hi = u_hi u - borrow, u_lo = low\<rparr>)"

definition addOne :: "uint128 \<Rightarrow> uint128" where
  "addOne u = (let (low, carry) = Add64 (u_lo u) 1 0 in \<lparr>u_hi = u_hi u + carry, u_lo = low\<rparr>)"

definition halves :: "uint128 \<Rightarrow> u64 list" where
  "halves u = [u_hi u, u_lo u]"

text \<open>A bit number above 128 makes the shift of \<^verbatim>\<open>mask6\<close> negative, which panics.\<close>

definition bitsSetFrom :: "uint128 \<Rightarrow> u8 \<Rightarrow> uint128 option" where
  "bitsSetFrom u b =
     (if unat b \<le> 128 then Some (uint128_or u (uint128_not (mask6 (unat b)))) else None)"

definition bitsClearedFrom :: "uint128 \<Rightarrow> u8 \<Rightarrow> uint128 option" where
  "bitsClearedFrom u b =
     (if unat b \<le> 128 then Some (uint128_and u (mask6 (unat b))) else None)"

lemmas uint128_defs =
  uint128_and_def uint128_xor_def uint128_or_def uint128_not_def

subsection \<open>Byte accessors\<close>

definition beUint64 :: "byte list \<Rightarrow> u64" where
  "beUint64 b =
     ucast (b ! 7) OR push_bit 8 (ucast (b ! 6)) OR push_bit 16 (ucast (b ! 5))
     OR push_bit 24 (ucast (b ! 4)) OR push_bit 32 (ucast (b ! 3))
     OR push_bit 40 (ucast (b ! 2)) OR push_bit 48 (ucast (b ! 1))
     OR push_bit 56 (ucast (b ! 0))"

definition bePutUint64 :: "byte list \<Rightarrow> u64 \<Rightarrow> byte list" where
  "bePutUint64 b v =
     b[0 := ucast (drop_bit 56 v), 1 := ucast (drop_bit 48 v),
       2 := ucast (drop_bit 40 v), 3 := ucast (drop_bit 32 v),
       4 := ucast (drop_bit 24 v), 5 := ucast (drop_bit 16 v),
       6 := ucast (drop_bit 8 v), 7 := ucast v]"

definition bePutUint32 :: "byte list \<Rightarrow> u32 \<Rightarrow> byte list" where
  "bePutUint32 b v =
     b[0 := ucast (drop_bit 24 v), 1 := ucast (drop_bit 16 v),
       2 := ucast (drop_bit 8 v), 3 := ucast v]"

definition leUint16 :: "byte list \<Rightarrow> u16" where
  "leUint16 b = ucast (b ! 0) OR push_bit 8 (ucast (b ! 1))"

definition lePutUint16 :: "byte list \<Rightarrow> u16 \<Rightarrow> byte list" where
  "lePutUint16 b v = b[0 := ucast v, 1 := ucast (drop_bit 8 v)]"

text \<open>These copies of package \<^verbatim>\<open>encoding/binary\<close> agree with it, so the laws of its codecs
  apply to them.\<close>

abbreviation be64 :: "u64 \<Rightarrow> byte list" where
  "be64 \<equiv> bigEndian_AppendUint64 []"

abbreviation be32 :: "u32 \<Rightarrow> byte list" where
  "be32 \<equiv> bigEndian_AppendUint32 []"

abbreviation le16 :: "u16 \<Rightarrow> byte list" where
  "le16 \<equiv> littleEndian_AppendUint16 []"

lemma beUint64_codec: "8 \<le> length b \<Longrightarrow> bigEndian_Uint64 b = Some (beUint64 b)"
  by (simp add: beUint64_def bigEndian_Uint64_def)

lemma bePutUint64_codec: "8 \<le> length b \<Longrightarrow> bePutUint64 b v = be64 v @ drop 8 b"
  using BigEndian.w64.put_app [of b v]
  by (simp add: bigEndian_PutUint64_def bePutUint64_def)

lemma bePutUint32_codec: "4 \<le> length b \<Longrightarrow> bePutUint32 b v = be32 v @ drop 4 b"
  using BigEndian.w32.put_app [of b v]
  by (simp add: bigEndian_PutUint32_def bePutUint32_def)

lemma lePutUint16_codec: "2 \<le> length b \<Longrightarrow> lePutUint16 b v = le16 v @ drop 2 b"
  using LittleEndian.w16.put_app [of b v]
  by (simp add: littleEndian_PutUint16_def lePutUint16_def)

lemma beUint64_be64 [simp]: "beUint64 (be64 v @ r) = v"
  using BigEndian.w64.get_app [of v r] beUint64_codec [of "be64 v @ r"]
  by (simp add: BigEndian.w64.length_app)

lemma leUint16_le16 [simp]: "leUint16 (le16 v @ r) = v"
  using LittleEndian.w16.get_app [of v r]
  by (simp add: littleEndian_Uint16_def leUint16_def littleEndian_AppendUint16_def)

lemma be64_beUint64: "length b = 8 \<Longrightarrow> be64 (beUint64 b) = b"
  using BigEndian.w64.app_of_get [of b "beUint64 b"] beUint64_codec [of b] by simp

lemma le16_leUint16: "length b = 2 \<Longrightarrow> le16 (leUint16 b) = b"
  using LittleEndian.w16.app_of_get [of b "leUint16 b"]
  by (simp add: littleEndian_Uint16_def leUint16_def)

subsection \<open>Carry and borrow are exact\<close>

lemma drop_bit_63: "drop_bit 63 (w :: u64) = of_bool (bit w 63)"
proof (rule bit_word_eqI)
  fix n assume "n < LENGTH(64)"
  then show "bit (drop_bit 63 w) n = bit (of_bool (bit w 63) :: u64) n"
    by (cases n) (auto simp: bit_simps dest: bit_imp_le_length)
qed

lemma bit_63: "bit (w :: u64) 63 \<longleftrightarrow> 2 ^ 63 \<le> uint w"
proof -
  have "uint w < 2 ^ 64"
    using unsigned_less [of w, where 'a = int] by simp
  have "bit w 63 \<longleftrightarrow> odd (uint w div 2 ^ 63)"
    using bit_uint_iff [of w 63] by (simp add: bit_iff_odd [of "uint w"])
  also have "\<dots> \<longleftrightarrow> 2 ^ 63 \<le> uint w"
  proof (cases "2 ^ 63 \<le> uint w")
    case True
    then have "uint w div 2 ^ 63 = 1"
      using \<open>uint w < 2 ^ 64\<close> by (intro int_div_pos_eq [where r = "uint w - 2 ^ 63"]) simp_all
    then show ?thesis using True by simp
  next
    case False
    then have "uint w div 2 ^ 63 = 0" by simp
    then show ?thesis using False by simp
  qed
  finally show ?thesis .
qed

lemma u64_range: "0 \<le> uint (w :: u64)" "uint (w :: u64) < 2 ^ 64"
  using unsigned_less [of w, where 'a = int] by simp_all

lemma uint_of_bool [simp]: "uint (of_bool P :: u64) = of_bool P"
  by simp

lemma carry_bits:
  fixes x y c m :: int
  assumes "0 \<le> x" "x < 2 * m" "0 \<le> y" "y < 2 * m" "0 \<le> c" "c \<le> 1"
  shows "x + y + c < 2 * m \<Longrightarrow>
           \<not> (m \<le> x \<and> m \<le> y \<or> (m \<le> x \<or> m \<le> y) \<and> \<not> m \<le> x + y + c)"
    and "2 * m \<le> x + y + c \<Longrightarrow>
           m \<le> x \<and> m \<le> y \<or> (m \<le> x \<or> m \<le> y) \<and> \<not> m \<le> x + y + c - 2 * m"
  using assms by linarith+

lemma Add64_exact:
  assumes "Add64 x y c = (s, carry)" and "uint c \<le> 1"
  shows "uint x + uint y + uint c = uint s + 2 ^ 64 * uint carry \<and> uint carry \<le> 1"
proof -
  let ?t = "uint x + uint y + uint c"
  have s: "s = x + y + c" using assms(1) by (simp add: Add64_def Let_def)
  have us: "uint s = ?t mod 2 ^ 64"
    by (simp add: s uint_word_ariths mod_simps)
  have t: "0 \<le> ?t" "?t < 2 * 2 ^ 64"
    using u64_range [of x] u64_range [of y] u64_range [of c] assms(2) by linarith+
  have "carry = of_bool (bit x 63 \<and> bit y 63 \<or> (bit x 63 \<or> bit y 63) \<and> \<not> bit s 63)"
    using assms(1) by (auto simp: Add64_def Let_def drop_bit_63 bit_simps s)
  then have carry: "uint carry = of_bool (2 ^ 63 \<le> uint x \<and> 2 ^ 63 \<le> uint y
      \<or> (2 ^ 63 \<le> uint x \<or> 2 ^ 63 \<le> uint y) \<and> \<not> 2 ^ 63 \<le> uint s)"
    by (simp only: bit_63 uint_of_bool)
  note bits = carry_bits [of "uint x" "2 ^ 63" "uint y" "uint c"]
  show ?thesis
  proof (cases "?t < 2 ^ 64")
    case True
    then have "uint s = ?t" using us t by simp
    then show ?thesis
      using bits(1) True assms(2) u64_range [of x] u64_range [of y] by (simp add: carry)
  next
    case False
    then have "uint s = ?t - 2 ^ 64"
      using us t by (simp add: int_mod_pos_eq [where q = 1])
    then show ?thesis
      using bits(2) False assms(2) u64_range [of x] u64_range [of y] by (simp add: carry)
  qed
qed

lemma borrow_bits:
  fixes x y b m :: int
  assumes "0 \<le> x" "x < 2 * m" "0 \<le> y" "y < 2 * m" "0 \<le> b" "b \<le> 1"
  shows "0 \<le> x - y - b \<Longrightarrow> \<not> (\<not> m \<le> x \<and> m \<le> y \<or> ((m \<le> x) = (m \<le> y)) \<and> m \<le> x - y - b)"
    and "x - y - b < 0 \<Longrightarrow>
           \<not> m \<le> x \<and> m \<le> y \<or> ((m \<le> x) = (m \<le> y)) \<and> m \<le> x - y - b + 2 * m"
  using assms by linarith+

lemma Sub64_exact:
  assumes "Sub64 x y b = (d, borrow)" and "uint b \<le> 1"
  shows "uint x - uint y - uint b = uint d - 2 ^ 64 * uint borrow \<and> uint borrow \<le> 1"
proof -
  let ?t = "uint x - uint y - uint b"
  have d: "d = x - y - b" using assms(1) by (simp add: Sub64_def Let_def)
  have ud: "uint d = ?t mod 2 ^ 64"
    by (simp add: d uint_word_ariths mod_simps)
  have t: "- (2 ^ 64) \<le> ?t" "?t < 2 ^ 64"
    using u64_range [of x] u64_range [of y] u64_range [of b] assms(2) by linarith+
  have "borrow = of_bool (\<not> bit x 63 \<and> bit y 63 \<or> (bit x 63 = bit y 63) \<and> bit d 63)"
    using assms(1) by (auto simp: Sub64_def Let_def drop_bit_63 bit_simps d)
  then have borrow: "uint borrow = of_bool (\<not> 2 ^ 63 \<le> uint x \<and> 2 ^ 63 \<le> uint y
      \<or> ((2 ^ 63 \<le> uint x) = (2 ^ 63 \<le> uint y)) \<and> 2 ^ 63 \<le> uint d)"
    by (simp only: bit_63 uint_of_bool)
  note bits = borrow_bits [of "uint x" "2 ^ 63" "uint y" "uint b"]
  show ?thesis
  proof (cases "0 \<le> ?t")
    case True
    then have "uint d = ?t" using ud t by simp
    then show ?thesis
      using bits(1) True assms(2) u64_range [of x] u64_range [of y] by (simp add: borrow)
  next
    case False
    then have "uint d = ?t + 2 ^ 64"
      using ud t by (simp add: int_mod_pos_eq [where q = "-1"])
    then show ?thesis
      using bits(2) False assms(2) u64_range [of x] u64_range [of y] by (simp add: borrow)
  qed
qed

subsection \<open>The 128-bit number a pair of halves stands for\<close>

definition u128 :: "uint128 \<Rightarrow> 128 word" where
  "u128 u = push_bit 64 (ucast (u_hi u)) OR ucast (u_lo u)"

named_theorems u128_laws \<open>the operations on halves as operations on 128-bit words\<close>

lemma bit_u128 [u128_laws]:
  "bit (u128 u) n \<longleftrightarrow> (if n < 64 then bit (u_lo u) n else n < 128 \<and> bit (u_hi u) (n - 64))"
  by (auto simp: u128_def bit_simps dest: bit_imp_le_length)

lemma u128_inject: "u128 u = u128 v \<longleftrightarrow> u = v"
proof
  assume eq: "u128 u = u128 v"
  have "u_lo u = u_lo v"
  proof (rule bit_word_eqI)
    fix n assume "n < LENGTH(64)"
    then show "bit (u_lo u) n = bit (u_lo v) n"
      using bit_u128 [of u n] bit_u128 [of v n] eq by simp
  qed
  moreover have "u_hi u = u_hi v"
  proof (rule bit_word_eqI)
    fix n assume "n < LENGTH(64)"
    then show "bit (u_hi u) n = bit (u_hi v) n"
      using bit_u128 [of u "n + 64"] bit_u128 [of v "n + 64"] eq by simp
  qed
  ultimately show "u = v" by (cases u; cases v) simp
qed simp

lemma u128_and [u128_laws]: "u128 (uint128_and u v) = u128 u AND u128 v"
  by (rule bit_word_eqI) (simp add: bit_simps u128_laws uint128_defs)

lemma u128_or [u128_laws]: "u128 (uint128_or u v) = u128 u OR u128 v"
  by (rule bit_word_eqI) (simp add: bit_simps u128_laws uint128_defs)

lemma u128_xor [u128_laws]: "u128 (uint128_xor u v) = u128 u XOR u128 v"
  by (rule bit_word_eqI) (simp add: bit_simps u128_laws uint128_defs)

lemma u128_not [u128_laws]: "u128 (uint128_not u) = NOT (u128 u)"
  by (rule bit_word_eqI) (auto simp: bit_simps u128_laws uint128_defs)

lemma bit_mask6: "n \<le> 128 \<Longrightarrow> bit (u128 (mask6 n)) i \<longleftrightarrow> 128 - n \<le> i \<and> i < 128"
  by (auto simp: mask6_def bit_simps u128_laws)

lemma isZero_iff: "uint128_isZero u \<longleftrightarrow> u128 u = 0"
proof -
  have "u128 u = 0 \<longleftrightarrow> u = \<lparr>u_hi = 0, u_lo = 0\<rparr>"
    using u128_inject [of u "\<lparr>u_hi = 0, u_lo = 0\<rparr>"] by (simp add: u128_def)
  also have "\<dots> \<longleftrightarrow> uint128_isZero u"
    by (cases u) (simp add: uint128_isZero_def or_eq_0_iff)
  finally show ?thesis by simp
qed

lemma uint_u128: "uint (u128 u) = uint (u_hi u) * 2 ^ 64 + uint (u_lo u)"
proof -
  have "u128 u = push_bit 64 (ucast (u_hi u)) + ucast (u_lo u)"
    unfolding u128_def
    by (rule disjunctive_add [symmetric]) (auto simp: bit_simps dest: bit_imp_le_length)
  moreover have "uint (push_bit 64 (ucast (u_hi u) :: 128 word)) = uint (u_hi u) * 2 ^ 64"
    using u64_range [of "u_hi u"]
    by (simp add: push_bit_eq_mult uint_word_ariths unsigned_ucast_eq take_bit_eq_mod)
  moreover have "uint (ucast (u_lo u) :: 128 word) = uint (u_lo u)"
    using u64_range [of "u_lo u"] by (simp add: unsigned_ucast_eq take_bit_eq_mod)
  ultimately show ?thesis
    using u64_range [of "u_hi u"] u64_range [of "u_lo u"]
    by (simp add: uint_word_ariths)
qed

lemma u128_eqI: "uint (u128 u) mod 2 ^ 128 = uint v mod 2 ^ 128 \<Longrightarrow> u128 u = v"
  using unsigned_less [of v, where 'a = int] unsigned_less [of "u128 u", where 'a = int]
  by (simp add: word_uint_eq_iff)

lemma u128_addOne [u128_laws]: "u128 (addOne u) = u128 u + 1"
proof (rule u128_eqI)
  obtain s c where add: "Add64 (u_lo u) 1 0 = (s, c)" by (cases "Add64 (u_lo u) 1 0")
  have "uint (u_lo u) + 1 = uint s + 2 ^ 64 * uint c" using Add64_exact [OF add] by simp
  moreover have "uint (u_hi u + c) mod 2 ^ 64 = (uint (u_hi u) + uint c) mod 2 ^ 64"
    by (simp add: uint_word_ariths)
  then obtain k where "uint (u_hi u + c) = uint (u_hi u) + uint c + 2 ^ 64 * k"
    by (metis mod_eqE)
  ultimately have "uint (u128 (addOne u)) = uint (u128 u) + 1 + 2 ^ 128 * k"
    by (simp add: uint_u128 addOne_def add algebra_simps)
  then show "uint (u128 (addOne u)) mod 2 ^ 128 = uint (u128 u + 1) mod 2 ^ 128"
    by (simp add: uint_word_ariths)
qed

lemma u128_subOne [u128_laws]: "u128 (subOne u) = u128 u - 1"
proof (rule u128_eqI)
  obtain d b where sub: "Sub64 (u_lo u) 1 0 = (d, b)" by (cases "Sub64 (u_lo u) 1 0")
  have "uint (u_lo u) - 1 = uint d - 2 ^ 64 * uint b" using Sub64_exact [OF sub] by simp
  moreover have "uint (u_hi u - b) mod 2 ^ 64 = (uint (u_hi u) - uint b) mod 2 ^ 64"
    by (simp add: uint_word_ariths)
  then obtain k where "uint (u_hi u - b) = uint (u_hi u) - uint b + 2 ^ 64 * k"
    by (metis mod_eqE)
  ultimately have "uint (u128 (subOne u)) = uint (u128 u) - 1 + 2 ^ 128 * k"
    by (simp add: uint_u128 subOne_def sub algebra_simps)
  then show "uint (u128 (subOne u)) mod 2 ^ 128 = uint (u128 u - 1) mod 2 ^ 128"
    by (simp add: uint_word_ariths)
qed

lemma two_digits_less:
  fixes h l h' l' m :: int
  assumes "0 \<le> l" "l < m" "0 \<le> l'" "l' < m"
  shows "h * m + l < h' * m + l' \<longleftrightarrow> h < h' \<or> h = h' \<and> l < l'"
proof -
  have less: "a * m + c < b * m + d" if "a < b" "c < m" "0 \<le> d" for a b c d
    using mult_right_mono [of "a + 1" b m] that assms by (simp add: algebra_simps)
  show ?thesis
    using less [of h h' l l'] less [of h' h l' l] assms by (cases h h' rule: linorder_cases) auto
qed

lemma u128_less_iff:
  "u128 u < u128 v \<longleftrightarrow> u_hi u < u_hi v \<or> u_hi u = u_hi v \<and> u_lo u < u_lo v"
  using two_digits_less [of "uint (u_lo u)" "2 ^ 64" "uint (u_lo v)" "uint (u_hi u)" "uint (u_hi v)"]
    u64_range [of "u_lo u"] u64_range [of "u_lo v"]
  by (simp add: word_less_alt uint_u128 word_uint_eq_iff)

lemma u128_mask6: "u128 (mask6 (128 - k)) = NOT (mask k)"
proof (rule bit_word_eqI)
  fix i
  assume "i < LENGTH(128)"
  then show "bit (u128 (mask6 (128 - k))) i \<longleftrightarrow> bit (NOT (mask k) :: 128 word) i"
    by (auto simp: bit_mask6 bit_simps)
qed

lemma u128_mask6_le: "n \<le> 128 \<Longrightarrow> u128 (mask6 n) = NOT (mask (128 - n))"
  using u128_mask6 [of "128 - n"] by simp

text \<open>C30: the operations on pairs of halves are the operations on 128-bit numbers: the bitwise
  ones, and increment and decrement with their wrap-around at the ends of the range, where
  the carry or borrow passes from one half to the other. The mask of a prefix has zeros in
  exactly the bits after the prefix, setting or clearing the bits from a position on is
  setting or clearing these bits, and a position beyond 128 panics.\<close>

theorem uint128_refines_word:
  "u128 (uint128_and u v) = u128 u AND u128 v \<and> u128 (uint128_or u v) = u128 u OR u128 v
   \<and> u128 (uint128_xor u v) = u128 u XOR u128 v \<and> u128 (uint128_not u) = NOT (u128 u)
   \<and> u128 (addOne u) = u128 u + 1 \<and> u128 (subOne u) = u128 u - 1
   \<and> (uint128_isZero u \<longleftrightarrow> u128 u = 0) \<and> u128 (mask6 (128 - k)) = NOT (mask k)
   \<and> map_option u128 (bitsSetFrom u n)
      = (if n \<le> 128 then Some (u128 u OR mask (128 - unat n)) else None)
   \<and> map_option u128 (bitsClearedFrom u n)
      = (if n \<le> 128 then Some (u128 u AND NOT (mask (128 - unat n))) else None)"
  by (simp add: u128_laws isZero_iff u128_mask6 u128_mask6_le bitsSetFrom_def bitsClearedFrom_def
      word_le_nat_alt)

end
