(* ===== verification/Netip_Addr.thy ===== *)
theory Netip_Addr
  imports Netip_Uint128 "HOL-Library.List_Lexorder" "HOL-Library.Char_ord"
    "HOL-Library.Product_Lexorder"
begin

text \<open>
  The type \<^verbatim>\<open>Addr\<close> of \<^verbatim>\<open>net/netip/netip.go\<close>: construction from and conversion to bytes,
  comparison, classification, neighbours. The text forms are in \<open>Netip_Text\<close>. Address ports
  and prefixes are not modelled.

  The pointer \<^verbatim>\<open>z\<close> of an address is nil, one of the two sentinels \<^verbatim>\<open>z4\<close> and \<^verbatim>\<open>z6noz\<close>, or
  the interned pointer of a zone: interning makes equal zones equal pointers, so it is the
  zone itself here.
\<close>

datatype zoneval = z0 | z4 | z6noz | zone_val string

record Addr =
  ip_addr :: uint128
  ip_z :: zoneval

definition Addr_zero :: Addr where
  \<comment> \<open>the zero value \<^verbatim>\<open>Addr{}\<close>\<close>
  "Addr_zero = \<lparr>ip_addr = \<lparr>u_hi = 0, u_lo = 0\<rparr>, ip_z = z0\<rparr>"

subsection \<open>Construction\<close>

definition AddrFrom4 :: "byte list \<Rightarrow> Addr" where
  "AddrFrom4 a =
     \<lparr>ip_addr = \<lparr>u_hi = 0,
                 u_lo = 0xffff00000000 OR push_bit 24 (ucast (a ! 0)) OR push_bit 16 (ucast (a ! 1))
                        OR push_bit 8 (ucast (a ! 2)) OR ucast (a ! 3)\<rparr>,
      ip_z = z4\<rparr>"

definition AddrFrom16 :: "byte list \<Rightarrow> Addr" where
  "AddrFrom16 a =
     \<lparr>ip_addr = \<lparr>u_hi = beUint64 (take 8 a), u_lo = beUint64 (drop 8 a)\<rparr>, ip_z = z6noz\<rparr>"

definition IPv6LinkLocalAllNodes :: Addr where
  "IPv6LinkLocalAllNodes = AddrFrom16 ((replicate 16 0)[0 := 0xff, 1 := 0x02, 15 := 0x01])"

definition IPv6LinkLocalAllRouters :: Addr where
  "IPv6LinkLocalAllRouters = AddrFrom16 ((replicate 16 0)[0 := 0xff, 1 := 0x02, 15 := 0x02])"

definition IPv6Loopback :: Addr where
  "IPv6Loopback = AddrFrom16 ((replicate 16 0)[15 := 0x01])"

definition IPv6Unspecified :: Addr where
  "IPv6Unspecified = \<lparr>ip_addr = \<lparr>u_hi = 0, u_lo = 0\<rparr>, ip_z = z6noz\<rparr>"

definition IPv4Unspecified :: Addr where
  "IPv4Unspecified = AddrFrom4 (replicate 4 0)"

definition AddrFromSlice :: "byte list \<Rightarrow> Addr \<times> bool" where
  "AddrFromSlice b =
     (if length b = 4 then (AddrFrom4 b, True)
      else if length b = 16 then (AddrFrom16 b, True)
      else (Addr_zero, False))"

subsection \<open>Parts\<close>

definition Addr_v4 :: "Addr \<Rightarrow> nat \<Rightarrow> u8" where
  "Addr_v4 ip i = ucast (drop_bit ((3 - i) * 8) (u_lo (ip_addr ip)))"

definition Addr_v6 :: "Addr \<Rightarrow> nat \<Rightarrow> u8" where
  "Addr_v6 ip i = ucast (drop_bit ((7 - i mod 8) * 8) (halves (ip_addr ip) ! ((i div 8) mod 2)))"

definition Addr_v6u16 :: "Addr \<Rightarrow> nat \<Rightarrow> u16" where
  "Addr_v6u16 ip i = ucast (drop_bit ((3 - i mod 4) * 16) (halves (ip_addr ip) ! ((i div 4) mod 2)))"

definition Addr_isZero :: "Addr \<Rightarrow> bool" where
  "Addr_isZero ip \<longleftrightarrow> ip_z ip = z0"

definition Addr_IsValid :: "Addr \<Rightarrow> bool" where
  "Addr_IsValid ip \<longleftrightarrow> ip_z ip \<noteq> z0"

definition Addr_BitLen :: "Addr \<Rightarrow> int" where
  "Addr_BitLen ip = (case ip_z ip of z0 \<Rightarrow> 0 | z4 \<Rightarrow> 32 | _ \<Rightarrow> 128)"

definition Addr_Zone :: "Addr \<Rightarrow> string" where
  "Addr_Zone ip = (case ip_z ip of zone_val s \<Rightarrow> s | _ \<Rightarrow> [])"

definition Addr_Is4 :: "Addr \<Rightarrow> bool" where
  "Addr_Is4 ip \<longleftrightarrow> ip_z ip = z4"

definition Addr_Is6 :: "Addr \<Rightarrow> bool" where
  "Addr_Is6 ip \<longleftrightarrow> ip_z ip \<noteq> z0 \<and> ip_z ip \<noteq> z4"

definition Addr_Is4In6 :: "Addr \<Rightarrow> bool" where
  "Addr_Is4In6 ip \<longleftrightarrow>
     Addr_Is6 ip \<and> u_hi (ip_addr ip) = 0 \<and> drop_bit 32 (u_lo (ip_addr ip)) = 0xffff"

definition Addr_Compare :: "Addr \<Rightarrow> Addr \<Rightarrow> int" where
  "Addr_Compare ip ip2 =
     (if Addr_BitLen ip < Addr_BitLen ip2 then -1
      else if Addr_BitLen ip > Addr_BitLen ip2 then 1
      else if u_hi (ip_addr ip) < u_hi (ip_addr ip2) then -1
      else if u_hi (ip_addr ip) > u_hi (ip_addr ip2) then 1
      else if u_lo (ip_addr ip) < u_lo (ip_addr ip2) then -1
      else if u_lo (ip_addr ip) > u_lo (ip_addr ip2) then 1
      else if Addr_Is6 ip \<and> Addr_Zone ip < Addr_Zone ip2 then -1
      else if Addr_Is6 ip \<and> Addr_Zone ip > Addr_Zone ip2 then 1
      else 0)"

definition Addr_Less :: "Addr \<Rightarrow> Addr \<Rightarrow> bool" where
  "Addr_Less ip ip2 \<longleftrightarrow> Addr_Compare ip ip2 = -1"

definition Addr_Unmap :: "Addr \<Rightarrow> Addr" where
  "Addr_Unmap ip = (if Addr_Is4In6 ip then ip\<lparr>ip_z := z4\<rparr> else ip)"

definition Addr_WithZone :: "Addr \<Rightarrow> string \<Rightarrow> Addr" where
  "Addr_WithZone ip zone =
     (if \<not> Addr_Is6 ip then ip
      else if zone = [] then ip\<lparr>ip_z := z6noz\<rparr>
      else ip\<lparr>ip_z := zone_val zone\<rparr>)"

definition Addr_withoutZone :: "Addr \<Rightarrow> Addr" where
  "Addr_withoutZone ip = (if \<not> Addr_Is6 ip then ip else ip\<lparr>ip_z := z6noz\<rparr>)"

definition Addr_hasZone :: "Addr \<Rightarrow> bool" where
  "Addr_hasZone ip \<longleftrightarrow> ip_z ip \<noteq> z0 \<and> ip_z ip \<noteq> z4 \<and> ip_z ip \<noteq> z6noz"

subsection \<open>Classification\<close>

definition Addr_IsLinkLocalUnicast :: "Addr \<Rightarrow> bool" where
  "Addr_IsLinkLocalUnicast ip0 =
     (let ip = (if Addr_Is4In6 ip0 then Addr_Unmap ip0 else ip0)
      in if Addr_Is4 ip then Addr_v4 ip 0 = 169 \<and> Addr_v4 ip 1 = 254
         else if Addr_Is6 ip then Addr_v6u16 ip 0 AND 0xffc0 = 0xfe80
         else False)"

definition Addr_IsLoopback :: "Addr \<Rightarrow> bool" where
  "Addr_IsLoopback ip0 =
     (let ip = (if Addr_Is4In6 ip0 then Addr_Unmap ip0 else ip0)
      in if Addr_Is4 ip then Addr_v4 ip 0 = 127
         else if Addr_Is6 ip then u_hi (ip_addr ip) = 0 \<and> u_lo (ip_addr ip) = 1
         else False)"

definition Addr_IsMulticast :: "Addr \<Rightarrow> bool" where
  "Addr_IsMulticast ip0 =
     (let ip = (if Addr_Is4In6 ip0 then Addr_Unmap ip0 else ip0)
      in if Addr_Is4 ip then Addr_v4 ip 0 AND 0xf0 = 0xe0
         else if Addr_Is6 ip then drop_bit (64 - 8) (u_hi (ip_addr ip)) = 0xff
         else False)"

definition Addr_IsInterfaceLocalMulticast :: "Addr \<Rightarrow> bool" where
  "Addr_IsInterfaceLocalMulticast ip \<longleftrightarrow>
     Addr_Is6 ip \<and> \<not> Addr_Is4In6 ip \<and> Addr_v6u16 ip 0 AND 0xff0f = 0xff01"

definition Addr_IsLinkLocalMulticast :: "Addr \<Rightarrow> bool" where
  "Addr_IsLinkLocalMulticast ip0 =
     (let ip = (if Addr_Is4In6 ip0 then Addr_Unmap ip0 else ip0)
      in if Addr_Is4 ip then Addr_v4 ip 0 = 224 \<and> Addr_v4 ip 1 = 0 \<and> Addr_v4 ip 2 = 0
         else if Addr_Is6 ip then Addr_v6u16 ip 0 AND 0xff0f = 0xff02
         else False)"

definition Addr_IsGlobalUnicast :: "Addr \<Rightarrow> bool" where
  "Addr_IsGlobalUnicast ip0 =
     (if ip_z ip0 = z0 then False
      else let ip = (if Addr_Is4In6 ip0 then Addr_Unmap ip0 else ip0)
           in if Addr_Is4 ip \<and> (ip = IPv4Unspecified \<or> ip = AddrFrom4 [255, 255, 255, 255]) then False
              else ip \<noteq> IPv6Unspecified \<and> \<not> Addr_IsLoopback ip \<and> \<not> Addr_IsMulticast ip
                   \<and> \<not> Addr_IsLinkLocalUnicast ip)"

definition Addr_IsPrivate :: "Addr \<Rightarrow> bool" where
  "Addr_IsPrivate ip0 =
     (let ip = (if Addr_Is4In6 ip0 then Addr_Unmap ip0 else ip0)
      in if Addr_Is4 ip
         then Addr_v4 ip 0 = 10 \<or> Addr_v4 ip 0 = 172 \<and> Addr_v4 ip 1 AND 0xf0 = 16
              \<or> Addr_v4 ip 0 = 192 \<and> Addr_v4 ip 1 = 168
         else if Addr_Is6 ip then Addr_v6 ip 0 AND 0xfe = 0xfc
         else False)"

definition Addr_IsUnspecified :: "Addr \<Rightarrow> bool" where
  "Addr_IsUnspecified ip \<longleftrightarrow> ip = IPv4Unspecified \<or> ip = IPv6Unspecified"

subsection \<open>Bytes\<close>

definition Addr_As16 :: "Addr \<Rightarrow> byte list" where
  "Addr_As16 ip =
     bePutUint64 (take 8 (replicate 16 0)) (u_hi (ip_addr ip))
     @ bePutUint64 (drop 8 (replicate 16 0)) (u_lo (ip_addr ip))"

text \<open>\<^verbatim>\<open>As4\<close> panics, here \<^term>\<open>None\<close>, unless the address is an IPv4 address or a mapped one.\<close>

definition Addr_As4 :: "Addr \<Rightarrow> byte list option" where
  "Addr_As4 ip =
     (if ip_z ip = z4 \<or> Addr_Is4In6 ip
      then Some (bePutUint32 (replicate 4 0) (ucast (u_lo (ip_addr ip))))
      else None)"

definition Addr_AsSlice :: "Addr \<Rightarrow> byte list" where
  "Addr_AsSlice ip =
     (case ip_z ip of
        z0 \<Rightarrow> []
      | z4 \<Rightarrow> bePutUint32 (replicate 4 0) (ucast (u_lo (ip_addr ip)))
      | _ \<Rightarrow> bePutUint64 (take 8 (replicate 16 0)) (u_hi (ip_addr ip))
             @ bePutUint64 (drop 8 (replicate 16 0)) (u_lo (ip_addr ip)))"

definition Addr_marshalBinaryWithTrailingBytes :: "Addr \<Rightarrow> nat \<Rightarrow> byte list" where
  "Addr_marshalBinaryWithTrailingBytes ip trailingBytes =
     (case ip_z ip of
        z0 \<Rightarrow> replicate trailingBytes 0
      | z4 \<Rightarrow> bePutUint32 (replicate (4 + trailingBytes) 0) (ucast (u_lo (ip_addr ip)))
      | _ \<Rightarrow> bePutUint64 (replicate 8 0) (u_hi (ip_addr ip))
             @ bePutUint64 (replicate 8 0) (u_lo (ip_addr ip))
             @ bytes_of_string (Addr_Zone ip) @ replicate trailingBytes 0)"

definition Addr_MarshalBinary :: "Addr \<Rightarrow> byte list" where
  "Addr_MarshalBinary ip = Addr_marshalBinaryWithTrailingBytes ip 0"

definition Addr_UnmarshalBinary :: "byte list \<Rightarrow> string + Addr" where
  "Addr_UnmarshalBinary b =
     (let n = length b
      in if n = 0 then Inr Addr_zero
         else if n = 4 then Inr (AddrFrom4 b)
         else if n = 16 then Inr (AddrFrom16 b)
         else if 16 < n then Inr (Addr_WithZone (AddrFrom16 (take 16 b)) (string_of_bytes (drop 16 b)))
         else Inl ''unexpected slice size'')"

subsection \<open>Neighbours\<close>

definition Addr_Next :: "Addr \<Rightarrow> Addr" where
  "Addr_Next ip0 =
     (let ip = ip0\<lparr>ip_addr := addOne (ip_addr ip0)\<rparr>
      in if Addr_Is4 ip
         then if (ucast (u_lo (ip_addr ip)) :: u32) = 0 then Addr_zero else ip
         else if uint128_isZero (ip_addr ip) then Addr_zero else ip)"

definition Addr_Prev :: "Addr \<Rightarrow> Addr" where
  "Addr_Prev ip =
     (if Addr_Is4 ip
      then if (ucast (u_lo (ip_addr ip)) :: u32) = 0 then Addr_zero
           else ip\<lparr>ip_addr := subOne (ip_addr ip)\<rparr>
      else if uint128_isZero (ip_addr ip) then Addr_zero
      else ip\<lparr>ip_addr := subOne (ip_addr ip)\<rparr>)"

subsection \<open>Well-formed addresses\<close>

text \<open>The package keeps \<^verbatim>\<open>Addr\<close> opaque, so that every value is one of these: the zero value, an
  IPv4 address stored as a mapped one, or an IPv6 address, whose zone if any is not empty.\<close>

definition addr_wf :: "Addr \<Rightarrow> bool" where
  "addr_wf ip \<longleftrightarrow>
     (case ip_z ip of
        z0 \<Rightarrow> ip = Addr_zero
      | z4 \<Rightarrow> u_hi (ip_addr ip) = 0 \<and> drop_bit 32 (u_lo (ip_addr ip)) = 0xffff
      | z6noz \<Rightarrow> True
      | zone_val s \<Rightarrow> s \<noteq> [])"

lemmas addr_defs = Addr_Is4_def Addr_Is6_def Addr_Is4In6_def Addr_IsValid_def Addr_isZero_def
  Addr_BitLen_def Addr_Zone_def Addr_hasZone_def

lemma ffff_low_bits: "n < 32 \<Longrightarrow> \<not> bit (0xffff00000000 :: u64) n"
  using bit_push_bit_iff [of 32 "0xffff :: u64" n] by simp

definition join4 :: "byte \<Rightarrow> byte \<Rightarrow> byte \<Rightarrow> byte \<Rightarrow> u32" where
  "join4 a b c d = push_bit 24 (ucast a) OR push_bit 16 (ucast b) OR push_bit 8 (ucast c) OR ucast d"

lemma be32_join4 [simp]: "be32 (join4 a b c d) = [a, b, c, d]"
  by (simp add: join4_def bigEndian_AppendUint32_def byte_drop_push)

lemma join4_be32: "\<exists>a b c d. w = join4 a b c d"
proof -
  obtain a b c d where "be32 w = [a, b, c, d]"
    using BigEndian.w32.length_app [of w] by (auto simp: bigEndian_AppendUint32_def)
  then have "be32 w = be32 (join4 a b c d)" by simp
  then have "w = join4 a b c d" using BigEndian.w32.app_inj by blast
  then show ?thesis by blast
qed

lemma ucast_AddrFrom4:
  "(ucast (u_lo (ip_addr (AddrFrom4 [a, b, c, d]))) :: u32) = join4 a b c d"
proof (rule bit_word_eqI)
  fix n assume "n < LENGTH(32)"
  then have n: "n < 32" "\<not> bit (0xffff00000000 :: u64) n"
    using ffff_low_bits [of n] by simp_all
  have "bit (ucast (u_lo (ip_addr (AddrFrom4 [a, b, c, d]))) :: u32) n
      = bit (u_lo (ip_addr (AddrFrom4 [a, b, c, d]))) n"
    using n(1) by (simp only: bit_simps) simp
  then show "bit (ucast (u_lo (ip_addr (AddrFrom4 [a, b, c, d]))) :: u32) n = bit (join4 a b c d) n"
    using n by (auto simp: bit_simps AddrFrom4_def join4_def)
qed

lemma addr_wf_AddrFrom4: "length a = 4 \<Longrightarrow> addr_wf (AddrFrom4 a)"
proof -
  have "drop_bit 32 (push_bit k (ucast (b :: byte)) :: u64) = 0" if "k \<le> 24" for b k
    using that by (intro bit_word_eqI) (auto simp: bit_simps dest: bit_imp_le_length)
  note d = this this [of 0, simplified]
  show ?thesis by (simp add: addr_wf_def AddrFrom4_def drop_bit_or d)
qed

lemma AddrFrom4_of_lo:
  assumes "drop_bit 32 l = 0xffff" and "(ucast l :: u32) = join4 a b c d"
  shows "\<lparr>ip_addr = \<lparr>u_hi = 0, u_lo = l\<rparr>, ip_z = z4\<rparr> = AddrFrom4 [a, b, c, d]"
proof -
  have split: "l = push_bit 32 (drop_bit 32 l) OR ucast (ucast l :: u32)" for l :: u64
    by (rule bit_word_eqI) (auto simp: bit_simps)
  have "drop_bit 32 (u_lo (ip_addr (AddrFrom4 [a, b, c, d]))) = 0xffff"
    using addr_wf_AddrFrom4 [of "[a, b, c, d]"] by (simp add: addr_wf_def AddrFrom4_def)
  then have "l = u_lo (ip_addr (AddrFrom4 [a, b, c, d]))"
    using split [of l] split [of "u_lo (ip_addr (AddrFrom4 [a, b, c, d]))"] assms
    by (simp add: ucast_AddrFrom4)
  then show ?thesis by (simp add: AddrFrom4_def)
qed

lemma addr_wf_cases:
  assumes "addr_wf ip"
  obtains (zero) "ip = Addr_zero"
  | (v4) a b c d where "ip = AddrFrom4 [a, b, c, d]"
  | (v6) h l zz where "ip = \<lparr>ip_addr = \<lparr>u_hi = h, u_lo = l\<rparr>, ip_z = zz\<rparr>"
      "zz = z6noz \<or> (\<exists>s. s \<noteq> [] \<and> zz = zone_val s)"
proof (cases "ip_z ip")
  case z4
  obtain h l where ip: "ip = \<lparr>ip_addr = \<lparr>u_hi = h, u_lo = l\<rparr>, ip_z = z4\<rparr>"
    using z4 by (metis Addr.surjective uint128.surjective old.unit.exhaust)
  obtain a b c d where "(ucast l :: u32) = join4 a b c d" using join4_be32 by blast
  then have "ip = AddrFrom4 [a, b, c, d]"
    using AddrFrom4_of_lo [of l] assms ip by (simp add: addr_wf_def)
  then show thesis by (rule that(2))
next
  case z0
  then show thesis using assms that(1) by (simp add: addr_wf_def)
next
  case z6noz
  then show thesis
    by (intro that(3) [of "u_hi (ip_addr ip)" "u_lo (ip_addr ip)" "ip_z ip"]) simp_all
next
  case (zone_val s)
  then show thesis
    using assms
    by (intro that(3) [of "u_hi (ip_addr ip)" "u_lo (ip_addr ip)" "ip_z ip"]) (simp_all add: addr_wf_def)
qed

lemma bePut_fresh [simp]:
  "bePutUint64 (replicate 8 0) v = be64 v"
  "bePutUint32 (replicate (4 + n) 0) w = be32 w @ replicate n 0"
  "bePutUint32 (replicate 4 0) w = be32 w"
  by (simp_all add: bePutUint64_codec bePutUint32_codec)

lemma be64_not_Nil [simp]: "be64 v \<noteq> []"
  by (simp add: bigEndian_AppendUint64_def)

lemma AddrFrom16_be64 [simp]:
  "AddrFrom16 (be64 h @ be64 l) = \<lparr>ip_addr = \<lparr>u_hi = h, u_lo = l\<rparr>, ip_z = z6noz\<rparr>"
  using beUint64_be64 [of h "[]"] beUint64_be64 [of l "[]"]
  by (simp add: AddrFrom16_def BigEndian.w64.length_app)

lemma addr_wf_simps [simp]:
  "addr_wf Addr_zero"
  "addr_wf \<lparr>ip_addr = u, ip_z = z6noz\<rparr>"
  "addr_wf \<lparr>ip_addr = u, ip_z = zone_val s\<rparr> \<longleftrightarrow> s \<noteq> []"
  by (simp_all add: addr_wf_def Addr_zero_def)

lemma addr_wf_AddrFrom16 [simp]: "addr_wf (AddrFrom16 a)"
  by (simp add: AddrFrom16_def)

lemma addr_wf_Unmap: "addr_wf ip \<Longrightarrow> addr_wf (Addr_Unmap ip)"
  by (auto simp: Addr_Unmap_def addr_wf_def addr_defs)

lemma addr_wf_WithZone: "addr_wf ip \<Longrightarrow> addr_wf (Addr_WithZone ip s)"
  by (auto simp: Addr_WithZone_def addr_wf_def)

lemma addr_wf_withoutZone: "addr_wf ip \<Longrightarrow> addr_wf (Addr_withoutZone ip)"
  by (auto simp: Addr_withoutZone_def addr_wf_def)

lemma MarshalBinary_AddrFrom4 [simp]: "Addr_MarshalBinary (AddrFrom4 [a, b, c, d]) = [a, b, c, d]"
proof -
  have "be32 (ucast (u_lo (ip_addr (AddrFrom4 [a, b, c, d])))) = [a, b, c, d]"
    by (simp only: ucast_AddrFrom4 be32_join4)
  moreover have "ip_z (AddrFrom4 [a, b, c, d]) = z4" by (simp add: AddrFrom4_def)
  ultimately show ?thesis
    by (simp add: Addr_MarshalBinary_def Addr_marshalBinaryWithTrailingBytes_def del: ucast_AddrFrom4)
qed

lemma MarshalBinary_v6 [simp]:
  "Addr_MarshalBinary \<lparr>ip_addr = \<lparr>u_hi = h, u_lo = l\<rparr>, ip_z = z6noz\<rparr> = be64 h @ be64 l"
  "Addr_MarshalBinary \<lparr>ip_addr = \<lparr>u_hi = h, u_lo = l\<rparr>, ip_z = zone_val s\<rparr>
     = be64 h @ be64 l @ bytes_of_string s"
  by (simp_all add: Addr_MarshalBinary_def Addr_marshalBinaryWithTrailingBytes_def Addr_Zone_def)

subsection \<open>Comparison\<close>

text \<open>A three-way comparison that orders by a key. The comparisons of address ports and of
  prefixes are built from the one of addresses, and satisfy the same contract.\<close>

definition cmp_Compare :: "'a::linorder \<Rightarrow> 'a \<Rightarrow> int" where
  "cmp_Compare x y = (if x < y then -1 else if y < x then 1 else 0)"

locale comparison =
  fixes compare3 :: "'a \<Rightarrow> 'a \<Rightarrow> int"
    and key :: "'a \<Rightarrow> 'k::linorder"
  assumes compare_key: "compare3 x y = cmp_Compare (key x) (key y)"
begin

lemma compare_antisym: "compare3 y x = - compare3 x y"
  by (auto simp: compare_key cmp_Compare_def dest: less_asym)

lemma compare_le: "compare3 x y \<le> 0 \<longleftrightarrow> key x \<le> key y"
  by (auto simp: compare_key cmp_Compare_def)

lemma compare_eq: "compare3 x y = 0 \<longleftrightarrow> key x = key y"
  by (auto simp: compare_key cmp_Compare_def)

lemma compare_less: "compare3 x y = -1 \<longleftrightarrow> key x < key y"
  by (auto simp: compare_key cmp_Compare_def)

lemma compare_trans: "compare3 x y \<le> 0 \<Longrightarrow> compare3 y w \<le> 0 \<Longrightarrow> compare3 x w \<le> 0"
  by (auto simp: compare_le)

end

definition addr_key :: "Addr \<Rightarrow> int \<times> (128 word \<times> string)" where
  "addr_key ip = (Addr_BitLen ip, u128 (ip_addr ip), Addr_Zone ip)"

lemma u128_eq_iff: "u128 u = u128 v \<longleftrightarrow> u_hi u = u_hi v \<and> u_lo u = u_lo v"
  by (auto simp: u128_inject)

lemma Addr_Compare_u128:
  "Addr_Compare x y =
     (if Addr_BitLen x < Addr_BitLen y then -1
      else if Addr_BitLen y < Addr_BitLen x then 1
      else if u128 (ip_addr x) < u128 (ip_addr y) then -1
      else if u128 (ip_addr y) < u128 (ip_addr x) then 1
      else cmp_Compare (Addr_Zone x) (Addr_Zone y))"
proof -
  have "Addr_Zone x = [] \<and> Addr_Zone y = []" if "Addr_BitLen x = Addr_BitLen y" "\<not> Addr_Is6 x"
    using that by (cases "ip_z x"; cases "ip_z y") (simp_all add: addr_defs)
  then show ?thesis
    using less_linear [of "u_hi (ip_addr x)" "u_hi (ip_addr y)"]
      less_linear [of "u_lo (ip_addr x)" "u_lo (ip_addr y)"]
    by (auto simp: Addr_Compare_def cmp_Compare_def u128_less_iff)
qed

interpretation addr_cmp: comparison Addr_Compare addr_key
proof
  fix x y
  show "Addr_Compare x y = cmp_Compare (addr_key x) (addr_key y)"
    unfolding Addr_Compare_u128 cmp_Compare_def addr_key_def less_prod_simp by auto
qed

lemma addr_key_inject:
  assumes "addr_wf a" and "addr_wf b" and "addr_key a = addr_key b"
  shows "a = b"
proof (rule Addr.equality)
  show "ip_addr a = ip_addr b" using assms(3) by (simp add: addr_key_def u128_inject)
  show "ip_z a = ip_z b"
    using assms by (cases "ip_z a"; cases "ip_z b") (auto simp: addr_key_def addr_wf_def addr_defs)
qed simp

subsection \<open>Neighbours\<close>

lemma subOne_addOne [simp]: "subOne (addOne u) = u" and addOne_subOne [simp]: "addOne (subOne u) = u"
  using u128_inject [of "subOne (addOne u)" u] u128_inject [of "addOne (subOne u)" u]
  by (simp_all add: u128_laws)

lemma Next_Prev:
  "Addr_IsValid (Addr_Next ip) \<Longrightarrow> Addr_Prev (Addr_Next ip) = ip"
  "Addr_IsValid (Addr_Prev ip) \<Longrightarrow> addr_wf ip \<Longrightarrow> Addr_Next (Addr_Prev ip) = ip"
  by (auto simp: Addr_Next_def Addr_Prev_def Let_def Addr_IsValid_def Addr_zero_def Addr_Is4_def
      uint128_isZero_def addr_wf_def split: if_splits)

lemma div_eq_range:
  fixes x k c :: int
  assumes "0 < k"
  shows "x div k = c \<longleftrightarrow> c * k \<le> x \<and> x < (c + 1) * k"
proof
  assume "x div k = c"
  then have "x = c * k + x mod k" by (metis div_mult_mod_eq)
  then show "c * k \<le> x \<and> x < (c + 1) * k"
    using pos_mod_sign [OF assms, of x] pos_mod_bound [OF assms, of x] by (simp add: algebra_simps)
next
  assume "c * k \<le> x \<and> x < (c + 1) * k"
  then show "x div k = c"
    by (intro int_div_pos_eq [where r = "x - c * k"]) (simp_all add: algebra_simps)
qed

lemma v4_range:
  "drop_bit 32 (l :: u64) = 0xffff \<longleftrightarrow> 0xffff * 2 ^ 32 \<le> uint l \<and> uint l < 0x10000 * 2 ^ 32"
proof -
  have "drop_bit 32 l = 0xffff \<longleftrightarrow> uint l div 2 ^ 32 = 0xffff"
    by (simp add: word_uint_eq_iff drop_bit_eq_div uint_div)
  also have "\<dots> \<longleftrightarrow> 0xffff * 2 ^ 32 \<le> uint l \<and> uint l < 0x10000 * 2 ^ 32"
    using div_eq_range [of "2 ^ 32" "uint l" "0xffff"] by simp
  finally show ?thesis .
qed

lemma v4_last: "(ucast (l :: u64) :: u32) = 0 \<longleftrightarrow> uint l mod 2 ^ 32 = 0"
  by (simp add: word_uint_eq_iff unsigned_ucast_eq take_bit_eq_mod)

lemma addOne_v4:
  assumes "uint l < 2 ^ 64 - 1"
  shows "addOne \<lparr>u_hi = h, u_lo = l\<rparr> = \<lparr>u_hi = h, u_lo = l + 1\<rparr>" and "uint (l + 1) = uint l + 1"
proof -
  obtain t c where add: "Add64 l 1 0 = (t, c)" by (cases "Add64 l 1 0")
  have t: "t = l + 1" using add by (simp add: Add64_def Let_def)
  have ex: "uint l + 1 = uint t + 2 ^ 64 * uint c" "uint c \<le> 1" using Add64_exact [OF add] by simp_all
  show plus: "uint (l + 1) = uint l + 1" using assms by (simp add: uint_word_ariths)
  then have "uint c = 0" using ex by (simp add: t)
  then have "c = 0" by (simp add: word_uint_eq_iff)
  then show "addOne \<lparr>u_hi = h, u_lo = l\<rparr> = \<lparr>u_hi = h, u_lo = l + 1\<rparr>"
    by (simp add: addOne_def add t)
qed

lemma Next_less:
  assumes "addr_wf ip" and "Addr_IsValid (Addr_Next ip)"
  shows "addr_wf (Addr_Next ip)" and "u128 (ip_addr (Addr_Next ip)) = u128 (ip_addr ip) + 1"
    and "u128 (ip_addr (Addr_Next ip)) \<noteq> 0" and "ip_z (Addr_Next ip) = ip_z ip"
proof -
  have nz: "Addr_Next ip = ip\<lparr>ip_addr := addOne (ip_addr ip)\<rparr>" "ip_z ip \<noteq> z0"
    using assms(2) by (auto simp: Addr_Next_def Let_def Addr_IsValid_def Addr_zero_def split: if_splits)
  then show "u128 (ip_addr (Addr_Next ip)) = u128 (ip_addr ip) + 1" "ip_z (Addr_Next ip) = ip_z ip"
    by (simp_all add: u128_laws)
  have "addr_wf (Addr_Next ip) \<and> u128 (ip_addr (Addr_Next ip)) \<noteq> 0"
  proof (cases "ip_z ip = z4")
    case False
    then have "\<not> uint128_isZero (addOne (ip_addr ip))"
      using assms(2) by (auto simp: Addr_Next_def Let_def Addr_Is4_def Addr_IsValid_def Addr_zero_def)
    then show ?thesis
      using nz assms(1) False by (auto simp: isZero_iff addr_wf_def split: zoneval.splits)
  next
    case True
    obtain l where ip: "ip_addr ip = \<lparr>u_hi = 0, u_lo = l\<rparr>" and l: "drop_bit 32 l = 0xffff"
      using assms(1) True by (cases "ip_addr ip") (auto simp: addr_wf_def)
    have r: "0xffff * 2 ^ 32 \<le> uint l" "uint l < 0x10000 * 2 ^ 32" using l by (simp_all add: v4_range)
    note plus = addOne_v4(1) [of l 0] addOne_v4(2) [of l]
    have next_lo: "addOne (ip_addr ip) = \<lparr>u_hi = 0, u_lo = l + 1\<rparr>" using plus r ip by simp
    then have "(ucast (l + 1) :: u32) \<noteq> 0"
      using assms(2) True
      by (auto simp: Addr_Next_def Let_def Addr_Is4_def Addr_IsValid_def Addr_zero_def)
    then have "(uint l + 1) mod 2 ^ 32 \<noteq> 0" using plus(2) r by (simp add: v4_last)
    then have "uint l + 1 < 0x10000 * 2 ^ 32"
      using r by (cases "uint l + 1 = 0x10000 * 2 ^ 32") auto
    then have "drop_bit 32 (l + 1) = 0xffff" using plus(2) r by (simp add: v4_range)
    moreover have "uint (u128 (addOne (ip_addr ip))) \<noteq> 0" using plus r by (simp add: next_lo uint_u128)
    ultimately show ?thesis using nz True next_lo by (auto simp: addr_wf_def)
  qed
  then show "addr_wf (Addr_Next ip)" "u128 (ip_addr (Addr_Next ip)) \<noteq> 0" by auto
qed

text \<open>Where \<^verbatim>\<open>Next\<close> overflows, no address of the family is greater.\<close>

lemma Next_overflow:
  assumes "addr_wf ip" and "Addr_IsValid ip" and "\<not> Addr_IsValid (Addr_Next ip)"
    and "addr_wf x" and "ip_z x = ip_z ip"
  shows "u128 (ip_addr x) \<le> u128 (ip_addr ip)"
proof (cases "ip_z ip = z4")
  case False
  then have "uint128_isZero (addOne (ip_addr ip))"
    using assms(2,3) by (auto simp: Addr_Next_def Let_def Addr_Is4_def Addr_IsValid_def split: if_splits)
  then have "u128 (ip_addr ip) + 1 = 0" by (simp add: isZero_iff u128_laws)
  then have "u128 (ip_addr ip) = - 1" by (simp add: eq_neg_iff_add_eq_0)
  then show ?thesis by simp
next
  case True
  obtain l where ip: "ip_addr ip = \<lparr>u_hi = 0, u_lo = l\<rparr>" and l: "drop_bit 32 l = 0xffff"
    using assms(1) True by (cases "ip_addr ip") (auto simp: addr_wf_def)
  obtain k where x: "ip_addr x = \<lparr>u_hi = 0, u_lo = k\<rparr>" and k: "drop_bit 32 k = 0xffff"
    using assms(4,5) True by (cases "ip_addr x") (auto simp: addr_wf_def)
  have r: "0xffff * 2 ^ 32 \<le> uint l" "uint l < 0x10000 * 2 ^ 32" "uint k < 0x10000 * 2 ^ 32"
    using l k by (simp_all add: v4_range)
  note plus = addOne_v4(1) [of l 0] addOne_v4(2) [of l]
  have "addOne (ip_addr ip) = \<lparr>u_hi = 0, u_lo = l + 1\<rparr>" using plus r ip by simp
  then have "(ucast (l + 1) :: u32) = 0"
    using assms(2,3) True
    by (auto simp: Addr_Next_def Let_def Addr_Is4_def Addr_IsValid_def split: if_splits)
  then have "(uint l + 1) mod 2 ^ 32 = 0" using plus(2) r by (simp add: v4_last)
  then obtain q where q: "uint l + 1 = 2 ^ 32 * q" by (metis dvd_def mod_eq_0_iff_dvd)
  then have "q = 0x10000" using r by simp
  then have "uint k \<le> uint l" using q r by simp
  then show ?thesis by (simp add: word_le_def uint_u128 ip x)
qed

lemma word_next:
  fixes x y :: "'a::len word"
  assumes "x + 1 \<noteq> 0"
  shows "x < x + 1" and "\<not> (x < y \<and> y < x + 1)"
  using assms unatSuc [of x] by (auto simp: word_less_nat_alt add.commute)

subsection \<open>Properties\<close>

text \<open>C29: \<^verbatim>\<open>UnmarshalBinary\<close> restores any address from what \<^verbatim>\<open>MarshalBinary\<close> made of it: the zero
  address, an IPv4 address, an IPv6 address with or without a zone.\<close>

theorem Addr_binary_roundtrip:
  assumes "addr_wf ip"
  shows "Addr_UnmarshalBinary (Addr_MarshalBinary ip) = Inr ip"
  using assms
proof (cases rule: addr_wf_cases)
  case zero
  then show ?thesis
    by (simp add: Addr_UnmarshalBinary_def Addr_MarshalBinary_def Addr_marshalBinaryWithTrailingBytes_def
        Addr_zero_def)
next
  case (v4 a b c d)
  then show ?thesis by (simp add: Addr_UnmarshalBinary_def)
next
  case (v6 h l zz)
  have "AddrFrom16 (be64 h @ take 8 (be64 l)) = \<lparr>ip_addr = \<lparr>u_hi = h, u_lo = l\<rparr>, ip_z = z6noz\<rparr>"
    by (simp add: BigEndian.w64.length_app)
  then show ?thesis
    using v6 by (auto simp: Addr_UnmarshalBinary_def BigEndian.w64.length_app Addr_WithZone_def
        Addr_Is6_def comp_def)
qed

theorem Addr_binary_roundtrip_witness:
  "Addr_UnmarshalBinary (Addr_MarshalBinary (Addr_WithZone IPv6Loopback ''eth0''))
     = Inr (Addr_WithZone IPv6Loopback ''eth0'')"
  by (rule Addr_binary_roundtrip) (simp add: addr_wf_WithZone IPv6Loopback_def)

text \<open>C27: \<^verbatim>\<open>Compare\<close> is a total order on addresses, and \<^verbatim>\<open>0\<close> is returned only for equal ones: the sign
  changes with the order of the arguments and the comparison is transitive. \<^verbatim>\<open>Less\<close> is the strict
  part of this order.\<close>

theorem Addr_Compare_total_order:
  assumes "addr_wf a" and "addr_wf b"
  shows "(Addr_Compare a b = 0 \<longleftrightarrow> a = b) \<and> Addr_Compare b a = - Addr_Compare a b
    \<and> (Addr_Compare a b \<le> 0 \<and> Addr_Compare b c \<le> 0 \<longrightarrow> Addr_Compare a c \<le> 0)
    \<and> (Addr_Less a b \<longleftrightarrow> Addr_Compare a b \<le> 0 \<and> a \<noteq> b)"
proof -
  have "Addr_Compare a b \<in> {-1, 0, 1}" by (simp add: Addr_Compare_def)
  then show ?thesis
    using addr_cmp.compare_antisym [of b a] addr_cmp.compare_eq [of a b]
      addr_key_inject [OF assms] addr_cmp.compare_trans [of a b c] by (auto simp: Addr_Less_def)
qed

theorem Addr_Compare_total_order_witness:
  "Addr_Compare IPv6Loopback (AddrFrom4 [127, 0, 0, 1]) = - Addr_Compare (AddrFrom4 [127, 0, 0, 1]) IPv6Loopback
   \<and> Addr_Less (AddrFrom4 [127, 0, 0, 1]) IPv6Loopback"
proof -
  have "Addr_Compare (AddrFrom4 [127, 0, 0, 1]) IPv6Loopback \<le> 0" "AddrFrom4 [127, 0, 0, 1] \<noteq> IPv6Loopback"
    by code_simp+
  then show ?thesis
    using Addr_Compare_total_order [of "AddrFrom4 [127, 0, 0, 1]" IPv6Loopback]
    by (simp add: addr_wf_AddrFrom4 IPv6Loopback_def)
qed

text \<open>C28: \<^verbatim>\<open>Next\<close> returns the successor of an address in the order of \<^verbatim>\<open>Compare\<close> whenever its family and
  zone have a greater address at all: the result is a greater one, no address of the same zone
  lies between, and \<^verbatim>\<open>Prev\<close> leads back. Where there is no greater address, the result is the
  zero \<^verbatim>\<open>Addr\<close>.\<close>

theorem Addr_Next_successor:
  assumes "addr_wf ip" and "Addr_IsValid ip"
  shows "if \<exists>y. addr_wf y \<and> ip_z y = ip_z ip \<and> Addr_Less ip y
    then addr_wf (Addr_Next ip) \<and> ip_z (Addr_Next ip) = ip_z ip \<and> Addr_Less ip (Addr_Next ip)
      \<and> Addr_Prev (Addr_Next ip) = ip
      \<and> (\<forall>x. Addr_Zone x = Addr_Zone ip \<longrightarrow> \<not> (Addr_Less ip x \<and> Addr_Less x (Addr_Next ip)))
    else Addr_Next ip = Addr_zero"
proof (cases "Addr_IsValid (Addr_Next ip)")
  case True
  note nx = Next_less [OF assms(1) True]
  have keys: "Addr_BitLen (Addr_Next ip) = Addr_BitLen ip" "Addr_Zone (Addr_Next ip) = Addr_Zone ip"
    using nx(4) by (simp_all add: Addr_BitLen_def Addr_Zone_def)
  have step: "u128 (ip_addr ip) < u128 (ip_addr (Addr_Next ip))"
    "\<not> (u128 (ip_addr ip) < u128 (ip_addr x) \<and> u128 (ip_addr x) < u128 (ip_addr (Addr_Next ip)))" for x
    using nx(2,3) word_next [of "u128 (ip_addr ip)"] by simp_all
  then have less: "Addr_Less ip (Addr_Next ip)"
    and "\<And>x. Addr_Zone x = Addr_Zone ip \<Longrightarrow> \<not> (Addr_Less ip x \<and> Addr_Less x (Addr_Next ip))"
    using keys by (auto simp: Addr_Less_def addr_cmp.compare_less addr_key_def)
  moreover have "\<exists>y. addr_wf y \<and> ip_z y = ip_z ip \<and> Addr_Less ip y" using nx(1,4) less by blast
  ultimately show ?thesis using nx(1,4) Next_Prev(1) [OF True] by simp
next
  case False
  have "Addr_Next ip = Addr_zero"
    using False assms(2) by (auto simp: Addr_Next_def Let_def Addr_IsValid_def split: if_splits)
  moreover have "\<not> Addr_Less ip y" if "addr_wf y" "ip_z y = ip_z ip" for y
    using Next_overflow [OF assms False that] that(2)
    by (auto simp: Addr_Less_def addr_cmp.compare_less addr_key_def Addr_BitLen_def Addr_Zone_def)
  ultimately show ?thesis by auto
qed

theorem Addr_Next_successor_witness:
  "Addr_Less (AddrFrom4 [10, 0, 255, 255]) (Addr_Next (AddrFrom4 [10, 0, 255, 255]))
   \<and> Addr_Prev (Addr_Next (AddrFrom4 [10, 0, 255, 255])) = AddrFrom4 [10, 0, 255, 255]"
proof -
  have "Addr_Less (AddrFrom4 [10, 0, 255, 255]) (AddrFrom4 [10, 1, 0, 0])"
    "ip_z (AddrFrom4 [10, 1, 0, 0]) = ip_z (AddrFrom4 [10, 0, 255, 255])"
    "Addr_IsValid (AddrFrom4 [10, 0, 255, 255])"
    by code_simp+
  then have "\<exists>y. addr_wf y \<and> ip_z y = ip_z (AddrFrom4 [10, 0, 255, 255]) \<and> Addr_Less (AddrFrom4 [10, 0, 255, 255]) y"
    using addr_wf_AddrFrom4 [of "[10, 1, 0, 0]"] by auto
  moreover have "addr_wf (AddrFrom4 [10, 0, 255, 255])" by (simp add: addr_wf_AddrFrom4)
  ultimately show ?thesis
    using Addr_Next_successor [of "AddrFrom4 [10, 0, 255, 255]"]
      \<open>Addr_IsValid (AddrFrom4 [10, 0, 255, 255])\<close> by presburger
qed

end
