(* ===== verification/Netip_Text.thy ===== *)
theory Netip_Text
  imports Netip_Addr
begin

text \<open>
  The text form of addresses in \<^verbatim>\<open>net/netip/netip.go\<close>: \<^verbatim>\<open>ParseAddr\<close> with its IPv4 and IPv6
  parsers, and \<^verbatim>\<open>String\<close> with the compression of zero fields.

  Text is a HOL string where the code appends to a byte slice and where it reads a string.
  A parse error keeps its three fields; where the IPv6 parser wraps the error of the
  embedded IPv4 address, the wrapped error stands for its rendering (which only quotes).
\<close>

datatype parseAddrError = ParseAddrError (pe_in: string) (pe_msg: parse_msg) (pe_at: string)
  and parse_msg = Msg string | ErrorOf parseAddrError

subsection \<open>Printing\<close>

definition digits :: string where
  "digits = ''0123456789abcdef''"

definition appendDecimal :: "string \<Rightarrow> u8 \<Rightarrow> string" where
  "appendDecimal b x =
     (let b1 = (if 100 \<le> x then b @ [digits ! unat (x div 100)] else b);
          b2 = (if 10 \<le> x then b1 @ [digits ! unat (x div 10 mod 10)] else b1)
      in b2 @ [digits ! unat (x mod 10)])"

definition appendHex :: "string \<Rightarrow> u16 \<Rightarrow> string" where
  "appendHex b x =
     (let b1 = (if 0x1000 \<le> x then b @ [digits ! unat (drop_bit 12 x)] else b);
          b2 = (if 0x100 \<le> x then b1 @ [digits ! unat (drop_bit 8 x AND 0xf)] else b1);
          b3 = (if 0x10 \<le> x then b2 @ [digits ! unat (drop_bit 4 x AND 0xf)] else b2)
      in b3 @ [digits ! unat (x AND 0xf)])"

definition appendHexPad :: "string \<Rightarrow> u16 \<Rightarrow> string" where
  "appendHexPad b x =
     b @ [digits ! unat (drop_bit 12 x), digits ! unat (drop_bit 8 x AND 0xf),
          digits ! unat (drop_bit 4 x AND 0xf), digits ! unat (x AND 0xf)]"

definition appendTo4 :: "Addr \<Rightarrow> string \<Rightarrow> string" where
  "appendTo4 ip ret =
     appendDecimal (appendDecimal (appendDecimal (appendDecimal ret (Addr_v4 ip 0)
       @ ''.'') (Addr_v4 ip 1) @ ''.'') (Addr_v4 ip 2) @ ''.'') (Addr_v4 ip 3)"

definition string4 :: "Addr \<Rightarrow> string" where
  "string4 ip = appendTo4 ip []"

text \<open>The end of the run of zero fields that starts at \<open>j\<close>; the longest run of two or more.\<close>

function zeroRun :: "Addr \<Rightarrow> nat \<Rightarrow> nat" where
  "zeroRun ip j = (if j < 8 \<and> Addr_v6u16 ip j = 0 then zeroRun ip (j + 1) else j)"
  by pat_completeness auto
termination
  by (relation "measure (\<lambda>(ip, j). 8 - j)") auto

declare zeroRun.simps [simp del]

function findZeros :: "Addr \<Rightarrow> nat \<Rightarrow> nat \<Rightarrow> nat \<Rightarrow> nat \<times> nat" where
  "findZeros ip i zeroStart zeroEnd =
     (if i < 8 then
        let j = zeroRun ip i; l = j - i
        in if 2 \<le> l \<and> zeroEnd - zeroStart < l then findZeros ip (i + 1) i j
           else findZeros ip (i + 1) zeroStart zeroEnd
      else (zeroStart, zeroEnd))"
  by pat_completeness auto
termination
  by (relation "measure (\<lambda>(ip, i, a, b). 8 - i)") auto

declare findZeros.simps [simp del]

text \<open>The loop that writes the fields. Its counter grows in each round, as a run ends behind
  its start, so eight rounds are enough; the first argument counts them.\<close>

fun appendTo6_loop :: "nat \<Rightarrow> Addr \<Rightarrow> nat \<Rightarrow> nat \<Rightarrow> nat \<Rightarrow> string \<Rightarrow> string" where
  "appendTo6_loop 0 ip zeroStart zeroEnd i ret = ret"
| "appendTo6_loop (Suc n) ip zeroStart zeroEnd i ret =
     (if i < 8 then
        if i = zeroStart then
          if 8 \<le> zeroEnd then ret @ ''::''
          else appendTo6_loop n ip zeroStart zeroEnd (zeroEnd + 1)
                 (appendHex (ret @ ''::'') (Addr_v6u16 ip zeroEnd))
        else
          appendTo6_loop n ip zeroStart zeroEnd (i + 1)
            (appendHex (if 0 < i then ret @ '':'' else ret) (Addr_v6u16 ip i))
      else ret)"

definition appendTo6 :: "Addr \<Rightarrow> string \<Rightarrow> string" where
  "appendTo6 ip ret =
     (let (zeroStart, zeroEnd) = findZeros ip 0 255 255;
          ret1 = appendTo6_loop 8 ip zeroStart zeroEnd 0 ret
      in if ip_z ip \<noteq> z6noz then ret1 @ ''%'' @ Addr_Zone ip else ret1)"

definition string6 :: "Addr \<Rightarrow> string" where
  "string6 ip = appendTo6 ip []"

definition Addr_String :: "Addr \<Rightarrow> string" where
  "Addr_String ip =
     (case ip_z ip of
        z0 \<Rightarrow> ''invalid IP''
      | z4 \<Rightarrow> string4 ip
      | _ \<Rightarrow>
         if Addr_Is4In6 ip
         then if Addr_Zone ip \<noteq> [] then ''::ffff:'' @ string4 (Addr_Unmap ip) @ ''%'' @ Addr_Zone ip
              else ''::ffff:'' @ string4 (Addr_Unmap ip)
         else string6 ip)"

definition Addr_AppendTo :: "Addr \<Rightarrow> string \<Rightarrow> string" where
  "Addr_AppendTo ip b =
     (case ip_z ip of
        z0 \<Rightarrow> b
      | z4 \<Rightarrow> appendTo4 ip b
      | _ \<Rightarrow>
         if Addr_Is4In6 ip
         then let b1 = appendTo4 (Addr_Unmap ip) (b @ ''::ffff:'')
              in if Addr_Zone ip \<noteq> [] then b1 @ ''%'' @ Addr_Zone ip else b1
         else appendTo6 ip b)"

fun StringExpanded_loop :: "Addr \<Rightarrow> nat list \<Rightarrow> string \<Rightarrow> string" where
  "StringExpanded_loop ip [] ret = ret"
| "StringExpanded_loop ip (i # is) ret =
     StringExpanded_loop ip is (appendHexPad (if 0 < i then ret @ '':'' else ret) (Addr_v6u16 ip i))"

definition Addr_StringExpanded :: "Addr \<Rightarrow> string" where
  "Addr_StringExpanded ip =
     (if ip_z ip = z0 \<or> ip_z ip = z4 then Addr_String ip
      else let ret = StringExpanded_loop ip [0..<8] []
           in if ip_z ip \<noteq> z6noz then ret @ ''%'' @ Addr_Zone ip else ret)"

definition Addr_MarshalText :: "Addr \<Rightarrow> string" where
  "Addr_MarshalText ip =
     (case ip_z ip of
        z0 \<Rightarrow> []
      | z4 \<Rightarrow> appendTo4 ip []
      | _ \<Rightarrow>
         if Addr_Is4In6 ip
         then let b = appendTo4 (Addr_Unmap ip) ''::ffff:''
              in if Addr_Zone ip \<noteq> [] then b @ ''%'' @ Addr_Zone ip else b
         else appendTo6 ip [])"

subsection \<open>Parsing\<close>

abbreviation code_point :: "char \<Rightarrow> nat" where
  "code_point c \<equiv> of_char c"

abbreviation decimal :: "char \<Rightarrow> bool" where
  \<comment> \<open>between the characters 0 and 9\<close>
  "decimal c \<equiv> 48 \<le> code_point c \<and> code_point c \<le> 57"

fun parseIPv4_loop ::
  "string \<Rightarrow> nat \<Rightarrow> string \<Rightarrow> u8 list \<Rightarrow> nat \<Rightarrow> nat \<Rightarrow> nat
   \<Rightarrow> parseAddrError + (u8 list \<times> nat \<times> nat)" where
  \<comment> \<open>the third argument is what is left of \<open>s\<close> at position \<open>i\<close>\<close>
  "parseIPv4_loop s i [] flds val pos digLen = Inr (flds, val, pos)"
| "parseIPv4_loop s i (c # cs) flds val pos digLen =
     (if decimal c then
        if digLen = 1 \<and> val = 0
        then Inl (ParseAddrError s (Msg ''IPv4 field has octet with leading zero'') [])
        else let val1 = val * 10 + code_point c - 48
             in if 255 < val1 then Inl (ParseAddrError s (Msg ''IPv4 field has value >255'') [])
                else parseIPv4_loop s (i + 1) cs flds val1 pos (digLen + 1)
      else if c = CHR ''.'' then
        if i = 0 \<or> i = length s - 1 \<or> s ! (i - 1) = CHR ''.''
        then Inl (ParseAddrError s (Msg ''IPv4 field must have at least one digit'') (drop i s))
        else if pos = 3 then Inl (ParseAddrError s (Msg ''IPv4 address too long'') [])
        else parseIPv4_loop s (i + 1) cs (flds[pos := of_nat val]) 0 (pos + 1) 0
      else Inl (ParseAddrError s (Msg ''unexpected character'') (drop i s)))"

definition parseIPv4 :: "string \<Rightarrow> parseAddrError + Addr" where
  "parseIPv4 s =
     (case parseIPv4_loop s 0 s (replicate 4 0) 0 0 0 of
        Inl e \<Rightarrow> Inl e
      | Inr (flds, val, pos) \<Rightarrow>
          if pos < 3 then Inl (ParseAddrError s (Msg ''IPv4 address too short'') [])
          else Inr (AddrFrom4 (flds[3 := of_nat val])))"

definition hexValue :: "char \<Rightarrow> u32 option" where
  "hexValue c =
     (if decimal c then Some (of_nat (code_point c - 48))
      else if 97 \<le> code_point c \<and> code_point c \<le> 102 then Some (of_nat (code_point c - 97 + 10))
      else if 65 \<le> code_point c \<and> code_point c \<le> 70 then Some (of_nat (code_point c - 65 + 10))
      else None)"

fun hexField :: "string \<Rightarrow> u32 \<Rightarrow> nat \<Rightarrow> (u32 \<times> nat) option" where
  \<comment> \<open>the inner loop: \<^verbatim>\<open>acc\<close> and \<^verbatim>\<open>off\<close>, or \<open>None\<close> when \<^verbatim>\<open>acc\<close> exceeds 16 bits\<close>
  "hexField [] acc off = Some (acc, off)"
| "hexField (c # cs) acc off =
     (case hexValue c of
        None \<Rightarrow> Some (acc, off)
      | Some d \<Rightarrow>
          let acc1 = push_bit 4 acc + d
          in if 0xffff < acc1 then None else hexField cs acc1 (off + 1))"

function parseIPv6_loop ::
  "string \<Rightarrow> byte list \<Rightarrow> nat \<Rightarrow> nat option \<Rightarrow> string
   \<Rightarrow> parseAddrError + (byte list \<times> nat \<times> nat option \<times> string)" where
  \<comment> \<open>\<^verbatim>\<open>for i < 16\<close>, with \<^verbatim>\<open>ip\<close>, \<^verbatim>\<open>i\<close>, \<^verbatim>\<open>ellipsis\<close> and \<^verbatim>\<open>s\<close>; \<open>inp\<close> is the whole input\<close>
  "parseIPv6_loop inp ip i ellipsis s =
     (if \<not> i < 16 then Inr (ip, i, ellipsis, s)
      else case hexField s 0 0 of
        None \<Rightarrow> Inl (ParseAddrError inp (Msg ''IPv6 field has value >=2^16'') s)
      | Some (acc, off) \<Rightarrow>
          if off = 0 then Inl (ParseAddrError inp
            (Msg ''each colon-separated field must have at least one digit'') s)
          else if off < length s \<and> s ! off = CHR ''.'' then
            if ellipsis = None \<and> i \<noteq> 12 then Inl (ParseAddrError inp
              (Msg ''embedded IPv4 address must replace the final 2 fields of the address'') s)
            else if 16 < i + 4 then Inl (ParseAddrError inp
              (Msg ''too many hex fields to fit an embedded IPv4 at the end of the address'') s)
            else (case parseIPv4 s of
                Inl err \<Rightarrow> Inl (ParseAddrError inp (ErrorOf err) s)
              | Inr ip4 \<Rightarrow>
                  Inr (ip[i := Addr_v4 ip4 0, i + 1 := Addr_v4 ip4 1, i + 2 := Addr_v4 ip4 2,
                          i + 3 := Addr_v4 ip4 3], i + 4, ellipsis, []))
          else
            let ip1 = ip[i := ucast (drop_bit 8 acc), i + 1 := ucast acc];
                i1 = i + 2;
                s1 = drop off s
            in if s1 = [] then Inr (ip1, i1, ellipsis, s1)
               else if hd s1 \<noteq> CHR '':'' then Inl (ParseAddrError inp
                 (Msg ''unexpected character, want colon'') s1)
               else if length s1 = 1 then Inl (ParseAddrError inp
                 (Msg ''colon must be followed by more characters'') s1)
               else
                 let s2 = tl s1
                 in if hd s2 = CHR '':'' then
                      if ellipsis \<noteq> None then Inl (ParseAddrError inp (Msg ''multiple :: in address'') s2)
                      else let s3 = tl s2
                           in if s3 = [] then Inr (ip1, i1, Some i1, s3)
                              else parseIPv6_loop inp ip1 i1 (Some i1) s3
                    else parseIPv6_loop inp ip1 i1 ellipsis s2)"
  by pat_completeness auto
termination
  by (relation "measure (\<lambda>(inp, ip, i, e, s). 16 - i)") auto

declare parseIPv6_loop.simps [simp del]

text \<open>The two loops that open the gap for the ellipsis, counted down to it.\<close>

fun moveUp :: "byte list \<Rightarrow> nat \<Rightarrow> nat \<Rightarrow> nat \<Rightarrow> byte list" where
  "moveUp ip ellipsis n 0 = ip"
| "moveUp ip ellipsis n (Suc k) =
     moveUp (ip[ellipsis + k + n := ip ! (ellipsis + k)]) ellipsis n k"

fun zeroFill :: "byte list \<Rightarrow> nat \<Rightarrow> nat \<Rightarrow> byte list" where
  "zeroFill ip ellipsis 0 = ip"
| "zeroFill ip ellipsis (Suc k) = zeroFill (ip[ellipsis + k := 0]) ellipsis k"

definition parseIPv6_finish ::
  "string \<Rightarrow> string \<Rightarrow> byte list \<times> nat \<times> nat option \<times> string \<Rightarrow> parseAddrError + Addr" where
  "parseIPv6_finish inp zone st =
     (case st of (ip, i, ellipsis, s) \<Rightarrow>
        if s \<noteq> [] then Inl (ParseAddrError inp (Msg ''trailing garbage after address'') s)
        else if i < 16 then
          (case ellipsis of
             None \<Rightarrow> Inl (ParseAddrError inp (Msg ''address string too short'') [])
           | Some e \<Rightarrow>
               let n = 16 - i
               in Inr (Addr_WithZone (AddrFrom16 (zeroFill (moveUp ip e n (i - e)) e n)) zone))
        else if ellipsis \<noteq> None then
          Inl (ParseAddrError inp (Msg ''the :: must expand to at least one field of zeros'') [])
        else Inr (Addr_WithZone (AddrFrom16 ip) zone))"

text \<open>\<^verbatim>\<open>parseIPv6\<close> after the zone has been cut off.\<close>

definition parseIPv6_rest :: "string \<Rightarrow> string \<Rightarrow> string \<Rightarrow> parseAddrError + Addr" where
  "parseIPv6_rest inp zone s =
     (let leading = 2 \<le> length s \<and> s ! 0 = CHR '':'' \<and> s ! 1 = CHR '':'';
          s1 = (if leading then drop 2 s else s)
      in if leading \<and> s1 = [] then Inr (Addr_WithZone IPv6Unspecified zone)
         else case parseIPv6_loop inp (replicate 16 0) 0 (if leading then Some 0 else None) s1 of
                Inl e \<Rightarrow> Inl e
              | Inr st \<Rightarrow> parseIPv6_finish inp zone st)"

definition parseIPv6 :: "string \<Rightarrow> parseAddrError + Addr" where
  "parseIPv6 inp =
     (let (s, zone, zoned) =
            (case IndexByteString inp (CHR ''%'') of
               None \<Rightarrow> (inp, [], False)
             | Some i \<Rightarrow> (take i inp, drop (i + 1) inp, True))
      in if zoned \<and> zone = []
         then Inl (ParseAddrError inp (Msg ''zone must be a non-empty string'') [])
         else parseIPv6_rest inp zone s)"

fun ParseAddr_scan :: "string \<Rightarrow> string \<Rightarrow> parseAddrError + Addr" where
  "ParseAddr_scan s [] = Inl (ParseAddrError s (Msg ''unable to parse IP'') [])"
| "ParseAddr_scan s (c # cs) =
     (if c = CHR ''.'' then parseIPv4 s
      else if c = CHR '':'' then parseIPv6 s
      else if c = CHR ''%'' then Inl (ParseAddrError s (Msg ''missing IPv6 address'') [])
      else ParseAddr_scan s cs)"

definition ParseAddr :: "string \<Rightarrow> parseAddrError + Addr" where
  "ParseAddr s = ParseAddr_scan s s"

definition MustParseAddr :: "string \<Rightarrow> Addr option" where
  \<comment> \<open>\<open>None\<close> is the panic\<close>
  "MustParseAddr s = (case ParseAddr s of Inl _ \<Rightarrow> None | Inr ip \<Rightarrow> Some ip)"

definition Addr_UnmarshalText :: "string \<Rightarrow> parseAddrError + Addr" where
  "Addr_UnmarshalText txt = (if txt = [] then Inr Addr_zero else ParseAddr txt)"

subsection \<open>Digits\<close>

lemma all_less_16:
  "(k :: nat) < 16 \<longleftrightarrow> k = 0 \<or> k = 1 \<or> k = 2 \<or> k = 3 \<or> k = 4 \<or> k = 5 \<or> k = 6 \<or> k = 7 \<or> k = 8
     \<or> k = 9 \<or> k = 10 \<or> k = 11 \<or> k = 12 \<or> k = 13 \<or> k = 14 \<or> k = 15"
  by presburger

lemma digit_char:
  assumes "k < 10"
  shows "code_point (digits ! k) = 48 + k" and "digits ! k \<noteq> CHR ''.''" and "digits ! k \<noteq> CHR '':''"
  using assms by (auto simp: less_Suc_eq numeral_eq_Suc digits_def)

lemma hex_char:
  assumes "k < 16"
  shows "hexValue (digits ! k) = Some (of_nat k)" and "digits ! k \<noteq> CHR '':''"
    and "digits ! k \<noteq> CHR ''%''" and "digits ! k \<noteq> CHR ''.''"
  using assms by (auto simp: all_less_16 digits_def hexValue_def)

abbreviation dec :: "u8 \<Rightarrow> string" where
  "dec x \<equiv> appendDecimal [] x"

lemma appendDecimal_append: "appendDecimal b x = b @ dec x"
  by (simp add: appendDecimal_def Let_def)

lemma dec_cases:
  obtains (one) "unat x < 10" "dec x = [digits ! unat x]"
  | (two) "10 \<le> unat x" "unat x < 100" "dec x = [digits ! (unat x div 10), digits ! (unat x mod 10)]"
  | (three) "100 \<le> unat x" "unat x < 256"
      "dec x = [digits ! (unat x div 100), digits ! (unat x div 10 mod 10), digits ! (unat x mod 10)]"
proof -
  have u: "unat x < 256" using unsigned_less [of x, where 'a = nat] by simp
  have d: "unat (x div 100) = unat x div 100" "unat (x div 10 mod 10) = unat x div 10 mod 10"
    "unat (x mod 10) = unat x mod 10" by (simp_all add: unat_div unat_mod)
  have c: "100 \<le> x \<longleftrightarrow> 100 \<le> unat x" "10 \<le> x \<longleftrightarrow> 10 \<le> unat x"
    by (simp_all add: word_le_nat_alt)
  consider "unat x < 10" | "10 \<le> unat x" "unat x < 100" | "100 \<le> unat x" by linarith
  then show thesis
    by cases (use that u in \<open>auto simp: appendDecimal_def Let_def c d\<close>)
qed

lemma parse_digit:
  assumes "k < 10" and "\<not> (digLen = 1 \<and> val = 0)" and "val * 10 + k \<le> 255"
  shows "parseIPv4_loop s i (digits ! k # cs) flds val pos digLen =
    parseIPv4_loop s (i + 1) cs flds (val * 10 + k) pos (digLen + 1)"
  using assms by (auto simp: digit_char)

lemma parse_dec:
  "parseIPv4_loop s i (dec x @ rest) flds 0 pos 0 =
     parseIPv4_loop s (i + length (dec x)) rest flds (unat x) pos (length (dec x))"
proof (cases x rule: dec_cases)
  case one
  then show ?thesis by (simp add: parse_digit del: parseIPv4_loop.simps)
next
  case two
  then show ?thesis by (simp add: parse_digit del: parseIPv4_loop.simps)
next
  case three
  have hundreds: "unat x div 100 = unat x div 10 div 10" by (simp flip: div_mult2_eq)
  have "unat x div 100 < 10" "unat x div 10 mod 10 < 10" "unat x mod 10 < 10" "unat x div 100 \<noteq> 0"
    using three by simp_all
  moreover have tens: "unat x div 100 * 10 + unat x div 10 mod 10 = unat x div 10"
    unfolding hundreds by simp
  moreover have "unat x div 10 \<le> 255" "unat x div 10 * 10 + unat x mod 10 = unat x"
    using three by simp_all
  ultimately
  show ?thesis using three by (simp add: parse_digit del: parseIPv4_loop.simps)
qed

lemma dec_last: "dec x \<noteq> []" "last (dec x) \<noteq> CHR ''.''"
  by (cases x rule: dec_cases; simp add: digit_char)+

lemma parse_dec_dot:
  assumes "s = pre @ dec x @ ''.'' @ rest" and "rest \<noteq> []" and "pos < 3" and "i = length pre"
  shows "parseIPv4_loop s i (dec x @ ''.'' @ rest) flds 0 pos 0 =
    parseIPv4_loop s (i + length (dec x) + 1) rest (flds[pos := x]) 0 (pos + 1) 0"
proof -
  obtain ys y where d: "dec x = ys @ [y]" using dec_last(1) [of x] by (metis rev_exhaust)
  have "s ! (i + length (dec x) - 1) = last (dec x)"
    using assms(1,4) nth_append_length [of "pre @ ys" y "CHR ''.'' # rest"] by (simp add: d)
  then have "s ! (i + length (dec x) - 1) \<noteq> CHR ''.''" using dec_last(2) by metis
  moreover have "i + length (dec x) \<noteq> 0" "i + length (dec x) \<noteq> length s - 1"
    using assms dec_last(1) [of x] by auto
  ultimately show ?thesis using assms(3) dec_last(1) [of x] by (simp add: parse_dec)
qed

lemma parseIPv4_dotted:
  "parseIPv4 (dec a @ ''.'' @ dec b @ ''.'' @ dec c @ ''.'' @ dec d) = Inr (AddrFrom4 [a, b, c, d])"
proof -
  let ?s = "dec a @ ''.'' @ dec b @ ''.'' @ dec c @ ''.'' @ dec d"
  let ?n = "length (dec a) + 1"
  let ?m = "?n + length (dec b) + 1"
  note steps = parse_dec_dot [of ?s "[]" a "dec b @ ''.'' @ dec c @ ''.'' @ dec d" 0 0 "replicate 4 0"]
    parse_dec_dot [of ?s "dec a @ ''.''" b "dec c @ ''.'' @ dec d" 1 ?n "[a, 0, 0, 0]"]
    parse_dec_dot [of ?s "dec a @ ''.'' @ dec b @ ''.''" c "dec d" 2 ?m "[a, b, 0, 0]"]
    parse_dec [of ?s "?m + length (dec c) + 1" d "[]" "[a, b, c, 0]" 3]
  have "parseIPv4_loop ?s 0 ?s (replicate 4 0) 0 0 0
      = parseIPv4_loop ?s ?n (dec b @ ''.'' @ dec c @ ''.'' @ dec d) [a, 0, 0, 0] 0 1 0"
    using steps(1) by (simp add: numeral_eq_Suc)
  also have "\<dots> = parseIPv4_loop ?s ?m (dec c @ ''.'' @ dec d) [a, b, 0, 0] 0 2 0"
    using steps(2) by (simp add: numeral_2_eq_2)
  also have "\<dots> = parseIPv4_loop ?s (?m + length (dec c) + 1) (dec d) [a, b, c, 0] 0 3 0"
    using steps(3) dec_last(1) [of d] by simp
  also have "\<dots> = Inr ([a, b, c, 0], unat d, 3)"
    using steps(4) by simp
  finally have "parseIPv4_loop ?s 0 ?s (replicate 4 0) 0 0 0 = Inr ([a, b, c, 0], unat d, 3)" .
  then show ?thesis by (simp add: parseIPv4_def)
qed

lemma Addr_v4_AddrFrom4:
  "Addr_v4 (AddrFrom4 [a, b, c, d]) 0 = a" "Addr_v4 (AddrFrom4 [a, b, c, d]) 1 = b"
  "Addr_v4 (AddrFrom4 [a, b, c, d]) 2 = c" "Addr_v4 (AddrFrom4 [a, b, c, d]) 3 = d"
proof -
  have v: "Addr_v4 ip i = ucast (drop_bit ((3 - i) * 8) (ucast (u_lo (ip_addr ip)) :: u32))" if "i < 4" for ip i
    unfolding Addr_v4_def using that by (intro bit_word_eqI) (auto simp: bit_simps)
  have "be32 (ucast (u_lo (ip_addr (AddrFrom4 [a, b, c, d])))) = [a, b, c, d]"
    by (simp only: ucast_AddrFrom4 be32_join4)
  then show "Addr_v4 (AddrFrom4 [a, b, c, d]) 0 = a" "Addr_v4 (AddrFrom4 [a, b, c, d]) 1 = b"
    "Addr_v4 (AddrFrom4 [a, b, c, d]) 2 = c" "Addr_v4 (AddrFrom4 [a, b, c, d]) 3 = d"
    by (simp_all add: v bigEndian_AppendUint32_def)
qed

lemma string4_AddrFrom4:
  "string4 (AddrFrom4 [a, b, c, d]) = dec a @ ''.'' @ dec b @ ''.'' @ dec c @ ''.'' @ dec d"
  using Addr_v4_AddrFrom4 [of a b c d]
  by (simp add: string4_def appendTo4_def appendDecimal_append [of "_ @ _"] appendDecimal_append [of "_ # _"])

end
