(* ===== verification/Netip_Roundtrip.thy ===== *)
theory Netip_Roundtrip
  imports Netip_Text
begin

text \<open>
  Parsing inverts printing for the addresses of \<^verbatim>\<open>net/netip\<close>. The IPv6 parser is followed
  field by field: hexadecimal fields, the fields on both sides of the ellipsis, the moving of
  the bytes behind it to the end. The printer writes the fields in this form, with the
  ellipsis in place of a run of zero fields. IPv4-mapped addresses are printed in mixed
  notation.
\<close>


subsection \<open>Hexadecimal fields\<close>

abbreviation hexd :: "u16 \<Rightarrow> string" where
  "hexd g \<equiv> appendHex [] g"

lemma appendHex_append: "appendHex b g = b @ hexd g"
  by (simp add: appendHex_def Let_def)

lemma nibble: "unat (w AND 0xf) = unat (w :: u16) mod 16"
proof -
  have m: "(0xf :: u16) = mask 4" by (simp add: mask_eq_exp_minus_1)
  show ?thesis unfolding m
    by (simp add: unsigned_take_bit_eq take_bit_eq_mod unat_mod flip: take_bit_eq_mask)
qed

lemma nibbles:
  "unat (drop_bit 12 (g :: u16)) = unat g div 4096"
  "unat (drop_bit 8 g AND 0xf) = unat g div 256 mod 16"
  "unat (drop_bit 4 g AND 0xf) = unat g div 16 mod 16"
  "unat (g AND 0xf) = unat g mod 16"
  "unat (drop_bit 8 g) = unat g div 256" "unat (drop_bit 4 g) = unat g div 16"
  unfolding nibble unat_drop_bit_eq by (simp_all add: drop_bit_eq_div)

lemma hexField_digit:
  assumes "k < 16" and "a * 16 + k \<le> 65535"
  shows "hexField (digits ! k # cs) (of_nat a) off = hexField cs (of_nat (a * 16 + k)) (off + 1)"
proof -
  have acc: "push_bit 4 (of_nat a) + of_nat k = (of_nat (a * 16 + k) :: u32)"
    by (simp add: push_bit_eq_mult)
  have "unat (of_nat (a * 16 + k) :: u32) = a * 16 + k"
    using assms(2) by (simp add: unat_of_nat take_bit_eq_mod del: of_nat_add of_nat_mult)
  then have "\<not> 0xffff < (of_nat (a * 16 + k) :: u32)"
    using assms(2) by (simp add: word_less_nat_alt del: of_nat_add of_nat_mult)
  then show ?thesis using assms(1) acc by (simp add: hex_char Let_def)
qed

lemma hexd_cases:
  fixes g :: u16
  defines "m \<equiv> unat g"
  obtains (one) "m < 16" "hexd g = [digits ! m]"
  | (two) "16 \<le> m" "m < 256" "hexd g = [digits ! (m div 16 mod 16), digits ! (m mod 16)]"
  | (three) "256 \<le> m" "m < 4096"
      "hexd g = [digits ! (m div 256 mod 16), digits ! (m div 16 mod 16), digits ! (m mod 16)]"
  | (four) "4096 \<le> m" "m < 65536"
      "hexd g = [digits ! (m div 4096), digits ! (m div 256 mod 16), digits ! (m div 16 mod 16),
                 digits ! (m mod 16)]"
proof -
  have u: "m < 65536" using unsigned_less [of g, where 'a = nat] by (simp add: m_def)
  have c: "0x1000 \<le> g \<longleftrightarrow> 4096 \<le> m" "0x100 \<le> g \<longleftrightarrow> 256 \<le> m" "0x10 \<le> g \<longleftrightarrow> 16 \<le> m"
    by (simp_all add: word_le_nat_alt m_def)
  consider "m < 16" | "16 \<le> m" "m < 256" | "256 \<le> m" "m < 4096" | "4096 \<le> m" by linarith
  then show thesis
    by cases (use that u in \<open>auto simp: appendHex_def Let_def c nibbles m_def [symmetric]\<close>)
qed

lemma digits_base16:
  fixes m :: nat
  shows "m div 16 * 16 + m mod 16 = m" "m div 256 * 16 + m div 16 mod 16 = m div 16"
    "m div 4096 * 16 + m div 256 mod 16 = m div 256"
proof -
  have "m div 256 = m div 16 div 16" "m div 4096 = m div 256 div 16" by (simp_all flip: div_mult2_eq)
  then show "m div 16 * 16 + m mod 16 = m" "m div 256 * 16 + m div 16 mod 16 = m div 16"
    "m div 4096 * 16 + m div 256 mod 16 = m div 256" by simp_all
qed

lemma hexField_digits:
  assumes "\<forall>k \<in> set ks. k < 16" and "foldl (\<lambda>a k. a * 16 + k) a ks \<le> 65535"
  shows "hexField (map (nth digits) ks @ rest) (of_nat a) off =
    hexField rest (of_nat (foldl (\<lambda>a k. a * 16 + k) a ks)) (off + length ks)"
  using assms
proof (induction ks arbitrary: a off)
  case Nil
  then show ?case by simp
next
  case (Cons k ks)
  have mono: "a \<le> foldl (\<lambda>a k. a * 16 + k) a ks" for a
  proof (induction ks arbitrary: a)
    case (Cons k ks)
    have "a \<le> a * 16 + k" by simp
    also have "\<dots> \<le> foldl (\<lambda>a k. a * 16 + k) (a * 16 + k) ks" by (rule Cons)
    finally show ?case by simp
  qed simp
  have "a * 16 + k \<le> 65535" using mono [of "a * 16 + k"] Cons.prems(2) by simp
  then show ?case
    using hexField_digit [of k a "map (nth digits) ks @ rest" off] Cons.IH [of "a * 16 + k" "off + 1"]
      Cons.prems
    by (simp del: hexField.simps of_nat_add of_nat_mult)
qed

lemma hexd_digits:
  obtains ks where "hexd g = map (nth digits) ks" and "\<forall>k \<in> set ks. k < 16" and "ks \<noteq> []"
    and "foldl (\<lambda>a k. a * 16 + k) 0 ks = unat g"
proof (cases g rule: hexd_cases)
  case one
  then show thesis by (intro that [of "[unat g]"]) simp_all
next
  case two
  then show thesis
    using digits_base16 [of "unat g"]
    by (intro that [of "[unat g div 16 mod 16, unat g mod 16]"]) simp_all
next
  case three
  then show thesis
    using digits_base16 [of "unat g"]
    by (intro that [of "[unat g div 256 mod 16, unat g div 16 mod 16, unat g mod 16]"]) simp_all
next
  case four
  then show thesis
    using digits_base16 [of "unat g"]
    by (intro that [of "[unat g div 4096, unat g div 256 mod 16, unat g div 16 mod 16, unat g mod 16]"])
      simp_all
qed

lemma hexField_hexd:
  assumes "rest = [] \<or> hexValue (hd rest) = None"
  shows "hexField (hexd g @ rest) 0 0 = Some (ucast g, length (hexd g))"
proof -
  obtain ks where ks: "hexd g = map (nth digits) ks" "\<forall>k \<in> set ks. k < 16"
    "foldl (\<lambda>a k. a * 16 + k) 0 ks = unat g" by (rule hexd_digits)
  have "unat g \<le> 65535" using unsigned_less [of g, where 'a = nat] by simp
  then have "hexField (hexd g @ rest) 0 0 = hexField rest (of_nat (unat g)) (length ks)"
    using hexField_digits [of ks 0 rest 0] ks by simp
  also have "\<dots> = Some (of_nat (unat g), length ks)" using assms by (cases rest) auto
  finally show ?thesis using ks by simp
qed

lemma hexd_chars: "hexd g \<noteq> []" "CHR '':'' \<notin> set (hexd g)" "CHR ''%'' \<notin> set (hexd g)"
  "CHR ''.'' \<notin> set (hexd g)"
proof -
  obtain ks where ks: "hexd g = map (nth digits) ks" "\<forall>k \<in> set ks. k < 16" "ks \<noteq> []"
    by (rule hexd_digits)
  show "hexd g \<noteq> []" "CHR '':'' \<notin> set (hexd g)" "CHR ''%'' \<notin> set (hexd g)" "CHR ''.'' \<notin> set (hexd g)"
    using ks hex_char(2-4) by (force simp: ks(1))+
qed

subsection \<open>The fields of an IPv6 address\<close>

abbreviation be16 :: "u16 \<Rightarrow> byte list" where
  "be16 g \<equiv> [ucast (drop_bit 8 g), ucast g]"

fun joinHex :: "u16 list \<Rightarrow> string" where
  "joinHex [] = []"
| "joinHex [g] = hexd g"
| "joinHex (g # h # gs) = hexd g @ '':'' @ joinHex (h # gs)"

fun putFields :: "byte list \<Rightarrow> nat \<Rightarrow> u16 list \<Rightarrow> byte list" where
  "putFields ip i [] = ip"
| "putFields ip i (g # gs) =
     putFields (ip[i := ucast (drop_bit 8 g), i + 1 := ucast g]) (i + 2) gs"

lemma hd_hexd: "hd (hexd g @ r) \<noteq> CHR '':''" "hd (joinHex (g # gs) @ r) \<noteq> CHR '':''"
proof -
  have h: "hd (hexd g @ r) \<noteq> CHR '':''" for r
    using hexd_chars(1,2) [of g] by (cases "hexd g") auto
  then show "hd (hexd g @ r) \<noteq> CHR '':''" "hd (joinHex (g # gs) @ r) \<noteq> CHR '':''"
    by (cases gs; simp)+
qed

lemma joinHex_not_Nil: "gs \<noteq> [] \<Longrightarrow> joinHex gs \<noteq> []"
  by (induction gs rule: joinHex.induct) (simp_all add: hexd_chars)

lemma ucast_field: "(ucast (ucast (g :: u16) :: u32) :: byte) = ucast g"
  "(ucast (drop_bit 8 (ucast (g :: u16) :: u32)) :: byte) = ucast (drop_bit 8 g)"
  by (rule bit_word_eqI; auto simp: bit_simps)+

lemma hexValue_colon [simp]: "hexValue (CHR '':'') = None"
  by (simp add: hexValue_def)

lemma parse_field:
  assumes "i < 16"
  shows "parseIPv6_loop inp ip i ell (hexd g) =
           Inr (ip[i := ucast (drop_bit 8 g), i + 1 := ucast g], i + 2, ell, [])"
    and "r \<noteq> [] \<Longrightarrow> hd r \<noteq> CHR '':'' \<Longrightarrow> parseIPv6_loop inp ip i ell (hexd g @ '':'' @ r) =
           parseIPv6_loop inp (ip[i := ucast (drop_bit 8 g), i + 1 := ucast g]) (i + 2) ell r"
    and "parseIPv6_loop inp ip i None (hexd g @ ''::'' @ r) =
           (let ip1 = ip[i := ucast (drop_bit 8 g), i + 1 := ucast g]
            in if r = [] then Inr (ip1, i + 2, Some (i + 2), [])
               else parseIPv6_loop inp ip1 (i + 2) (Some (i + 2)) r)"
  using assms hexField_hexd [of "[]" g] hexField_hexd [of "'':'' @ r" g]
    hexField_hexd [of "''::'' @ r" g] hexd_chars(1) [of g]
  by (subst parseIPv6_loop.simps, simp add: Let_def ucast_field)+

lemma parse_fields:
  assumes "gs \<noteq> []" and "i + 2 * length gs \<le> 16"
  shows "parseIPv6_loop inp ip i ell (joinHex gs) =
    Inr (putFields ip i gs, i + 2 * length gs, ell, [])"
  using assms
proof (induction gs arbitrary: ip i rule: joinHex.induct)
  case (3 g h gs)
  then show ?case
    using hd_hexd(2) [of h gs "[]"] joinHex_not_Nil [of "h # gs"]
      parse_field(2) [of i "joinHex (h # gs)" inp ip ell g] by simp
qed (simp_all add: parse_field(1))

lemma parse_fields_gap:
  assumes "gs \<noteq> []" and "i + 2 * length gs \<le> 16"
  shows "parseIPv6_loop inp ip i None (joinHex gs @ ''::'' @ r) =
    (let ip1 = putFields ip i gs; i1 = i + 2 * length gs
     in if r = [] then Inr (ip1, i1, Some i1, []) else parseIPv6_loop inp ip1 i1 (Some i1) r)"
  using assms
proof (induction gs arbitrary: ip i rule: joinHex.induct)
  case (2 g)
  then show ?case using parse_field(3) [of i inp ip g r] by (simp add: Let_def)
next
  case (3 g h gs)
  then show ?case
    using hd_hexd(2) [of h gs "''::'' @ r"] joinHex_not_Nil [of "h # gs"]
      parse_field(2) [of i "joinHex (h # gs) @ ''::'' @ r" inp ip None g] by (simp add: Let_def)
qed simp

lemma putFields_append:
  assumes "i + 2 * length gs \<le> length ip"
  shows "putFields ip i gs = take i ip @ concat (map be16 gs) @ drop (i + 2 * length gs) ip"
  using assms
proof (induction gs arbitrary: ip i)
  case (Cons g gs)
  have len: "i + 1 < length ip" using Cons.prems by simp
  let ?ip = "ip[i := ucast (drop_bit 8 g), i + 1 := ucast g]"
  have "take (i + 2) ?ip = take i ip @ be16 g"
    using len by (simp add: take_Suc_conv_app_nth nth_list_update numeral_2_eq_2)
  moreover have "drop (i + 2 + 2 * length gs) ?ip = drop (i + 2 * length (g # gs)) ip"
    by (simp add: add.commute add.left_commute)
  ultimately show ?case using Cons.IH [of "i + 2" ?ip] Cons.prems by simp
qed simp

lemma length_moveUp [simp]: "length (moveUp ip e n k) = length ip"
  by (induction k arbitrary: ip) simp_all

lemma length_zeroFill [simp]: "length (zeroFill ip e k) = length ip"
  by (induction k arbitrary: ip) simp_all

lemma nth_moveUp:
  assumes "0 < n" and "e + n + k \<le> length ip" and "j < length ip"
  shows "moveUp ip e n k ! j = (if e + n \<le> j \<and> j < e + n + k then ip ! (j - n) else ip ! j)"
  using assms(2,3)
proof (induction k arbitrary: ip)
  case (Suc k)
  let ?ip = "ip[e + k + n := ip ! (e + k)]"
  have "moveUp ip e n (Suc k) ! j
      = (if e + n \<le> j \<and> j < e + n + k then ?ip ! (j - n) else ?ip ! j)"
    using Suc.IH [of ?ip] Suc.prems by simp
  then show ?case
    using Suc.prems assms(1) by (cases "j = e + k + n") (auto simp: nth_list_update)
qed auto

lemma nth_zeroFill:
  assumes "e + k \<le> length ip" and "j < length ip"
  shows "zeroFill ip e k ! j = (if e \<le> j \<and> j < e + k then 0 else ip ! j)"
  using assms by (induction k arbitrary: ip) (auto simp: nth_list_update)

lemma open_gap:
  assumes "length a = e" and "e + length b = i" and "i < length (a @ b @ c)"
  defines "n \<equiv> length (a @ b @ c) - i"
  shows "zeroFill (moveUp (a @ b @ c) e n (i - e)) e n = a @ replicate n 0 @ b"
proof (rule nth_equalityI)
  show "length (zeroFill (moveUp (a @ b @ c) e n (i - e)) e n) = length (a @ replicate n 0 @ b)"
    using assms by simp
  fix j assume "j < length (zeroFill (moveUp (a @ b @ c) e n (i - e)) e n)"
  then have j: "j < length (a @ b @ c)" by simp
  have "0 < n" "e + n + (i - e) \<le> length (a @ b @ c)" "e + n \<le> length (a @ b @ c)" using assms by auto
  then have "zeroFill (moveUp (a @ b @ c) e n (i - e)) e n ! j =
    (if e \<le> j \<and> j < e + n then 0
     else if e + n \<le> j \<and> j < e + n + (i - e) then (a @ b @ c) ! (j - n) else (a @ b @ c) ! j)"
    using j by (simp add: nth_zeroFill nth_moveUp)
  also have "\<dots> = (a @ replicate n 0 @ b) ! j"
    using assms j by (auto simp: nth_append add.commute)
  finally show "zeroFill (moveUp (a @ b @ c) e n (i - e)) e n ! j = (a @ replicate n 0 @ b) ! j" .
qed

subsection \<open>Printing the fields\<close>

abbreviation ipFields :: "Addr \<Rightarrow> u16 list" where
  "ipFields ip \<equiv> map (Addr_v6u16 ip) [0..<8]"

lemma zeroRun_bounds: "j \<le> 8 \<Longrightarrow> j \<le> zeroRun ip j \<and> zeroRun ip j \<le> 8"
proof (induction ip j rule: zeroRun.induct)
  case (1 ip j)
  then show ?case by (subst (1 2) zeroRun.simps) auto
qed

lemma zeroRun_zero: "j \<le> k \<Longrightarrow> k < zeroRun ip j \<Longrightarrow> Addr_v6u16 ip k = 0"
proof (induction ip j rule: zeroRun.induct)
  case (1 ip j)
  show ?case
  proof (cases "j < 8 \<and> Addr_v6u16 ip j = 0")
    case True
    then show ?thesis using 1 by (cases "k = j") (auto simp: zeroRun.simps [of ip j])
  next
    case False
    then show ?thesis using 1 by (auto simp: zeroRun.simps [of ip j] split: if_splits)
  qed
qed

definition zeroSpan :: "Addr \<Rightarrow> nat \<times> nat \<Rightarrow> bool" where
  "zeroSpan ip = (\<lambda>(zs, ze). (zs, ze) = (255, 255)
     \<or> zs + 2 \<le> ze \<and> ze \<le> 8 \<and> (\<forall>k. zs \<le> k \<and> k < ze \<longrightarrow> Addr_v6u16 ip k = 0))"

lemma findZeros_span: "zeroSpan ip (zs, ze) \<Longrightarrow> zeroSpan ip (findZeros ip i zs ze)"
proof (induction ip i zs ze rule: findZeros.induct)
  case (1 ip i zs ze)
  show ?case
  proof (cases "i < 8")
    case True
    have run: "2 \<le> zeroRun ip i - i \<Longrightarrow> zeroSpan ip (i, zeroRun ip i)"
      using zeroRun_bounds [of i ip] zeroRun_zero [of i _ ip] True by (auto simp: zeroSpan_def)
    show ?thesis
      using 1(1,2) [OF True refl refl] 1(3) run True
      by (subst findZeros.simps) (auto simp: Let_def)
  next
    case False
    then show ?thesis using 1(3) by (simp add: findZeros.simps)
  qed
qed

lemma joinHex_Cons: "joinHex (g # gs) = hexd g @ concat (map (\<lambda>g. '':'' @ hexd g) gs)"
  by (induction gs arbitrary: g) simp_all

lemma print_rest:
  assumes "0 < i" and "8 - i \<le> n" and "zs < i \<or> 8 \<le> zs"
  shows "appendTo6_loop n ip zs ze i ret =
    ret @ concat (map (\<lambda>k. '':'' @ hexd (Addr_v6u16 ip k)) [i..<8])"
  using assms
proof (induction n arbitrary: i ret)
  case (Suc n)
  show ?case
  proof (cases "i < 8")
    case True
    then have "[i..<8] = i # [i + 1..<8]" "i \<noteq> zs" "zs < i + 1 \<or> 8 \<le> zs" "8 - (i + 1) \<le> n"
      using Suc.prems by (auto simp: upt_conv_Cons)
    then show ?thesis
      using Suc.IH [of "i + 1"] Suc.prems True by (simp add: appendHex_append [of "_ @ _"])
  qed simp
qed simp

lemma print_to_gap:
  assumes "0 < i" and "i \<le> zs" and "zs < ze" and "ze \<le> 8" and "8 - i \<le> n"
  shows "appendTo6_loop n ip zs ze i ret =
    ret @ concat (map (\<lambda>k. '':'' @ hexd (Addr_v6u16 ip k)) [i..<zs])
        @ ''::'' @ joinHex (map (Addr_v6u16 ip) [ze..<8])"
  using assms
proof (induction n arbitrary: i ret)
  case (Suc n)
  show ?case
  proof (cases "i = zs")
    case True
    show ?thesis
    proof (cases "ze = 8")
      case False
      then have "[ze..<8] = ze # [ze + 1..<8]" using Suc.prems by (simp add: upt_conv_Cons)
      then show ?thesis
        using True False Suc.prems print_rest [of "ze + 1" n zs ip ze]
        by (simp add: appendHex_append [of "_ @ _"] joinHex_Cons comp_def)
    qed (use True Suc.prems in simp)
  next
    case False
    then have "[i..<zs] = i # [i + 1..<zs]" using Suc.prems by (simp add: upt_conv_Cons)
    then show ?thesis
      using Suc.IH [of "i + 1"] Suc.prems False by (simp add: appendHex_append [of "_ @ _"])
  qed
qed simp

lemma print_first:
  "appendTo6_loop 8 ip zs ze 0 [] =
     (if zs = 0 then
        if 8 \<le> ze then ''::''
        else appendTo6_loop 7 ip zs ze (ze + 1) (''::'' @ hexd (Addr_v6u16 ip ze))
      else appendTo6_loop 7 ip zs ze 1 (hexd (Addr_v6u16 ip 0)))"
  using appendTo6_loop.simps(2) [of 7 ip zs ze 0 "[]"]
  by (simp add: appendHex_append [of "_ # _"] del: appendTo6_loop.simps)

lemma print_all: "appendTo6_loop 8 ip 255 255 0 [] = joinHex (ipFields ip)"
proof -
  have "[0..<8] = 0 # [1..<8]" by (simp add: upt_conv_Cons)
  then show ?thesis
    using print_rest [of 1 7 255 ip 255 "hexd (Addr_v6u16 ip 0)"]
    by (simp add: print_first joinHex_Cons comp_def del: appendTo6_loop.simps)
qed

lemma print_gap:
  assumes "zs < ze" and "ze \<le> 8"
  shows "appendTo6_loop 8 ip zs ze 0 [] =
    joinHex (map (Addr_v6u16 ip) [0..<zs]) @ ''::'' @ joinHex (map (Addr_v6u16 ip) [ze..<8])"
proof (cases "zs = 0")
  case True
  show ?thesis
  proof (cases "ze = 8")
    case False
    then have "[ze..<8] = ze # [ze + 1..<8]" using assms by (simp add: upt_conv_Cons)
    then show ?thesis
      using True False assms print_rest [of "ze + 1" 7 0 ip ze]
      by (simp add: print_first joinHex_Cons comp_def del: appendTo6_loop.simps)
  qed (use True in \<open>simp add: print_first\<close>)
next
  case False
  then have "[0..<zs] = 0 # [1..<zs]" by (simp add: upt_conv_Cons)
  then show ?thesis
    using False assms print_to_gap [of 1 zs ze 7 ip "hexd (Addr_v6u16 ip 0)"]
    by (simp add: print_first joinHex_Cons comp_def del: appendTo6_loop.simps)
qed

subsection \<open>Parsing what was printed\<close>

lemma fields_bytes:
  "concat (map be16 (ipFields ip)) = be64 (u_hi (ip_addr ip)) @ be64 (u_lo (ip_addr ip))"
proof -
  have half: "ucast (drop_bit 8 (ucast (drop_bit k h) :: u16)) = (ucast (drop_bit (k + 8) h) :: byte)"
    "ucast (ucast (drop_bit k h) :: u16) = (ucast (drop_bit k h) :: byte)" for h :: u64 and k
    by (rule bit_word_eqI; auto simp: bit_simps ac_simps)+
  have "[0..<8] = [0, 1, 2, 3, 4, 5, 6, 7 :: nat]" by code_simp
  then show ?thesis
    using half [where k = 0]
    by (simp add: Addr_v6u16_def half halves_def bigEndian_AppendUint64_def)
qed

lemma WithZone_fields:
  assumes "Addr_Is6 ip" and "addr_wf ip"
  shows "Addr_WithZone (AddrFrom16 (concat (map be16 (ipFields ip)))) (Addr_Zone ip) = ip"
  using assms unfolding fields_bytes
  by (cases ip; cases "ip_z ip"; cases "ip_addr ip")
     (auto simp: Addr_WithZone_def Addr_Is6_def Addr_Zone_def addr_wf_def)

lemma concat_be16_zero: "concat (map be16 (replicate m 0)) = replicate (2 * m) 0"
  by (induction m) (simp_all add: replicate_app_Cons_same)

lemma length_concat_be16 [simp]: "length (concat (map be16 gs)) = 2 * length gs"
  by (induction gs) simp_all

lemma fields_gap:
  assumes "zs + 2 \<le> ze" and "ze \<le> 8" and "\<forall>k. zs \<le> k \<and> k < ze \<longrightarrow> Addr_v6u16 ip k = 0"
  defines "P \<equiv> map (Addr_v6u16 ip) [0..<zs]" and "Q \<equiv> map (Addr_v6u16 ip) [ze..<8]"
  shows "concat (map be16 (ipFields ip)) =
    concat (map be16 P) @ replicate (2 * (ze - zs)) 0 @ concat (map be16 Q)"
proof -
  have "[0..<8] = [0..<zs] @ [zs..<ze] @ [ze..<8]"
    using assms(1,2) upt_add_eq_append [of 0 zs "8 - zs"] upt_add_eq_append [of zs ze "8 - ze"] by simp
  moreover have "map (Addr_v6u16 ip) [zs..<ze] = replicate (ze - zs) 0"
    using assms(3) by (intro nth_equalityI) simp_all
  ultimately have "ipFields ip = P @ replicate (ze - zs) 0 @ Q"
    by (simp add: P_def Q_def)
  then show ?thesis by (simp add: concat_be16_zero del: map_replicate)
qed

lemma finish_gap:
  assumes "2 * (length P + length Q) < 16"
  shows "parseIPv6_finish inp zone
      (putFields (putFields (replicate 16 0) 0 P) (2 * length P) Q,
       2 * length P + 2 * length Q, Some (2 * length P), []) =
    Inr (Addr_WithZone (AddrFrom16
      (concat (map be16 P) @ replicate (16 - 2 * (length P + length Q)) 0 @ concat (map be16 Q))) zone)"
proof -
  let ?p = "concat (map be16 P)" and ?q = "concat (map be16 Q)"
  let ?r = "replicate (16 - 2 * (length P + length Q)) (0 :: byte)"
  have "putFields (putFields (replicate 16 0) 0 P) (2 * length P) Q = ?p @ ?q @ ?r"
    using assms by (simp add: putFields_append)
  moreover have "zeroFill (moveUp (?p @ ?q @ ?r) (2 * length P) (16 - 2 * (length P + length Q))
      (2 * length P + 2 * length Q - 2 * length P)) (2 * length P) (16 - 2 * (length P + length Q))
    = ?p @ ?r @ ?q"
    using open_gap [of ?p "2 * length P" ?q "2 * length P + 2 * length Q" ?r] assms by simp
  ultimately show ?thesis using assms by (simp add: parseIPv6_finish_def Let_def)
qed

lemma joinHex_chars: "CHR ''%'' \<notin> set (joinHex gs)" "CHR ''.'' \<notin> set (joinHex gs)"
  by (induction gs rule: joinHex.induct) (simp_all add: hexd_chars)

lemma scan_colon:
  assumes "CHR '':'' \<in> set t" and "CHR ''.'' \<notin> set t" and "CHR ''%'' \<notin> set t"
  shows "ParseAddr_scan s (t @ r) = parseIPv6 s"
  using assms by (induction t) auto

definition zoneText :: "string \<Rightarrow> string" where
  "zoneText zone = (if zone = [] then [] else ''%'' @ zone)"

lemma parseIPv6_zone:
  assumes "CHR ''%'' \<notin> set t"
  shows "parseIPv6 (t @ zoneText zone) = parseIPv6_rest (t @ zoneText zone) zone t"
proof (cases "zone = []")
  case True
  then show ?thesis
    using assms by (simp add: parseIPv6_def zoneText_def IndexByteString_None [THEN iffD2])
next
  case False
  then show ?thesis
    using assms IndexByteString_append [of "CHR ''%''" t zone]
    by (simp add: parseIPv6_def zoneText_def)
qed

lemma parse_all_fields:
  assumes "length F = 8"
  shows "parseIPv6_rest inp zone (joinHex F) = Inr (Addr_WithZone (AddrFrom16 (concat (map be16 F))) zone)"
proof -
  obtain g gs where F: "F = g # gs" using assms by (cases F) auto
  then have "joinHex F ! 0 \<noteq> CHR '':''"
    using hd_hexd(2) [of g gs "[]"] joinHex_not_Nil [of F] by (simp add: hd_conv_nth)
  then show ?thesis
    using assms F parse_fields [of F 0 inp "replicate 16 0" None] putFields_append [of 0 F "replicate 16 0"]
    by (auto simp: parseIPv6_rest_def parseIPv6_finish_def Let_def)
qed

lemma parse_gap_fields:
  assumes "length P + length Q < 8"
  shows "parseIPv6_rest inp zone (joinHex P @ ''::'' @ joinHex Q) =
    Inr (Addr_WithZone (AddrFrom16 (concat (map be16 P)
      @ replicate (16 - 2 * (length P + length Q)) 0 @ concat (map be16 Q))) zone)"
proof (cases "P = []")
  case True
  show ?thesis
  proof (cases "Q = []")
    case True
    have "AddrFrom16 (replicate 16 0) = IPv6Unspecified" by code_simp
    then show ?thesis using True \<open>P = []\<close> by (simp add: parseIPv6_rest_def)
  next
    case False
    then show ?thesis
      using \<open>P = []\<close> parse_fields [of Q 0 inp "replicate 16 0" "Some 0"] joinHex_not_Nil [of Q]
        finish_gap [of "[]" Q inp zone] assms by (simp add: parseIPv6_rest_def Let_def)
  qed
next
  case False
  then obtain g gs where P: "P = g # gs" by (cases P) auto
  have "(joinHex P @ ''::'' @ joinHex Q) ! 0 \<noteq> CHR '':''"
    using hd_hexd(2) [of g gs "''::'' @ joinHex Q"] joinHex_not_Nil [of P] P
    by (simp add: hd_conv_nth del: joinHex.simps)
  then have "parseIPv6_rest inp zone (joinHex P @ ''::'' @ joinHex Q) =
    (case parseIPv6_loop inp (replicate 16 0) 0 None (joinHex P @ ''::'' @ joinHex Q) of
       Inl e \<Rightarrow> Inl e | Inr st \<Rightarrow> parseIPv6_finish inp zone st)"
    by (simp add: parseIPv6_rest_def Let_def)
  also have "\<dots> = parseIPv6_finish inp zone
      (putFields (putFields (replicate 16 0) 0 P) (2 * length P) Q,
       2 * length P + 2 * length Q, Some (2 * length P), [])"
    using parse_fields_gap [of P 0 inp "replicate 16 0" "joinHex Q"] False assms
      parse_fields [of Q "2 * length P" inp "putFields (replicate 16 0) 0 P" "Some (2 * length P)"]
      joinHex_not_Nil [of Q]
    by (cases "Q = []") (simp_all add: Let_def)
  finally show ?thesis using finish_gap [of P Q inp zone] assms by simp
qed

lemma Parse_string6:
  assumes "addr_wf ip" and "Addr_Is6 ip"
  shows "ParseAddr (string6 ip) = Inr ip"
proof -
  obtain zs ze where z: "findZeros ip 0 255 255 = (zs, ze)" by (cases "findZeros ip 0 255 255")
  have span: "zeroSpan ip (zs, ze)"
    using findZeros_span [of ip 255 255 0] by (simp add: z zeroSpan_def)
  let ?t = "appendTo6_loop 8 ip zs ze 0 []"
  have zone: "string6 ip = ?t @ zoneText (Addr_Zone ip)"
    using assms by (cases "ip_z ip")
      (auto simp: string6_def appendTo6_def z zoneText_def Addr_Zone_def Addr_Is6_def addr_wf_def
        simp del: appendTo6_loop.simps)
  have "\<exists>P Q. ?t = joinHex P @ ''::'' @ joinHex Q \<and> length P + length Q < 8
      \<and> concat (map be16 (ipFields ip)) = concat (map be16 P)
          @ replicate (16 - 2 * (length P + length Q)) 0 @ concat (map be16 Q)"
    if "zs \<noteq> 255"
  proof -
    have s: "zs + 2 \<le> ze" "ze \<le> 8" "\<forall>k. zs \<le> k \<and> k < ze \<longrightarrow> Addr_v6u16 ip k = 0"
      using span that by (auto simp: zeroSpan_def)
    then show ?thesis
      using print_gap [of zs ze ip] fields_gap [OF s]
      by (intro exI [of _ "map (Addr_v6u16 ip) [0..<zs]"] exI [of _ "map (Addr_v6u16 ip) [ze..<8]"])
        (simp add: algebra_simps)
  qed
  moreover have "?t = joinHex (ipFields ip)" if "zs = 255"
    using span that print_all [of ip] by (auto simp: zeroSpan_def)
  ultimately consider (gap) P Q where "?t = joinHex P @ ''::'' @ joinHex Q" "length P + length Q < 8"
      "concat (map be16 (ipFields ip)) = concat (map be16 P)
         @ replicate (16 - 2 * (length P + length Q)) 0 @ concat (map be16 Q)"
    | (all) "?t = joinHex (ipFields ip)" by blast
  then show ?thesis
  proof cases
    case gap
    then have t: "CHR '':'' \<in> set ?t" "CHR ''.'' \<notin> set ?t" "CHR ''%'' \<notin> set ?t"
      by (simp_all add: joinHex_chars)
    show ?thesis
      unfolding ParseAddr_def zone scan_colon [OF t] parseIPv6_zone [OF t(3)]
      using gap parse_gap_fields [OF gap(2)] WithZone_fields [OF assms(2,1)] by simp
  next
    case all
    have "CHR '':'' \<in> set (joinHex (ipFields ip))" by (simp add: upt_conv_Cons)
    then have t: "CHR '':'' \<in> set ?t" "CHR ''.'' \<notin> set ?t" "CHR ''%'' \<notin> set ?t"
      using all by (simp_all add: joinHex_chars)
    show ?thesis
      unfolding ParseAddr_def zone scan_colon [OF t] parseIPv6_zone [OF t(3)]
      using all parse_all_fields [of "ipFields ip"] WithZone_fields [OF assms(2,1)] by simp
  qed
qed

subsection \<open>IPv4-mapped addresses\<close>

lemma dec_digits:
  obtains ks where "dec a = map (nth digits) ks" and "\<forall>k \<in> set ks. k < 16"
    and "foldl (\<lambda>a k. a * 16 + k) 0 ks \<le> 65535"
proof -
  have m: "n mod 10 < 16 \<and> n mod 10 \<le> 9" for n :: nat
    using mod_less_divisor [of 10 n] by linarith
  show thesis
  proof (cases a rule: dec_cases)
    case one
    then show thesis by (intro that [of "[unat a]"]) simp_all
  next
    case two
    have "unat a div 10 < 16" using two by simp
    then show thesis
      using two m [of "unat a"] by (intro that [of "[unat a div 10, unat a mod 10]"]) simp_all
  next
    case three
    have "unat a div 100 < 16" "unat a div 100 \<le> 10" using three by simp_all
    then show thesis
      using three m [of "unat a"] m [of "unat a div 10"]
      by (intro that [of "[unat a div 100, unat a div 10 mod 10, unat a mod 10]"]) simp_all
  qed
qed

lemma hexField_dec: "\<exists>acc. hexField (dec a @ ''.'' @ r) 0 0 = Some (acc, length (dec a))"
proof -
  obtain ks where ks: "dec a = map (nth digits) ks" "\<forall>k \<in> set ks. k < 16"
    "foldl (\<lambda>a k. a * 16 + k) 0 ks \<le> 65535" by (rule dec_digits)
  have "hexValue (CHR ''.'') = None" by (simp add: hexValue_def)
  then show ?thesis using hexField_digits [of ks 0 "''.'' @ r" 0] ks by simp
qed

lemma dec_chars: "CHR ''%'' \<notin> set (dec a)"
proof -
  obtain ks where ks: "dec a = map (nth digits) ks" "\<forall>k \<in> set ks. k < 16" by (rule dec_digits)
  then show ?thesis using hex_char(3) by (force simp: ks(1))
qed

lemma replicate_bytes:
  "replicate 10 (0 :: byte) = [0, 0, 0, 0, 0, 0, 0, 0, 0, 0]"
  "replicate 16 (0 :: byte) = [0, 0, 0, 0, 0, 0, 0, 0, 0, 0, 0, 0, 0, 0, 0, 0]"
  by code_simp+

lemma parse_mapped:
  fixes a b c d
  defines "t \<equiv> dec a @ ''.'' @ dec b @ ''.'' @ dec c @ ''.'' @ dec d"
  shows "parseIPv6_rest inp zone (''::ffff:'' @ t) =
    Inr (Addr_WithZone (AddrFrom16 (replicate 10 0 @ [0xff, 0xff, a, b, c, d])) zone)"
proof -
  obtain acc where "hexField t 0 0 = Some (acc, length (dec a))"
    using hexField_dec [of a] unfolding t_def by blast
  moreover have "t ! length (dec a) = CHR ''.''" "length (dec a) < length t"
    unfolding t_def by (simp_all add: nth_append)
  ultimately have v4: "parseIPv6_loop inp ip 2 (Some 0) t =
    Inr (ip[2 := a, 3 := b, 4 := c, 5 := d], 6, Some 0, [])" for ip
    using parseIPv4_dotted [of a b c d] Addr_v4_AddrFrom4 [of a b c d] dec_last(1) [of a]
    by (subst parseIPv6_loop.simps) (simp add: t_def)
  have ffff: "hexd 0xffff = ''ffff''" by code_simp
  obtain y ys where dec_a: "dec a = y # ys" and y: "y \<noteq> CHR '':''"
    by (cases a rule: dec_cases) (auto simp: digit_char)
  then have t: "t \<noteq> []" "hd t \<noteq> CHR '':''" unfolding t_def by simp_all
  have upd: "(replicate 16 0)[0 := ucast (drop_bit 8 (0xffff :: u16)), 0 + 1 := ucast (0xffff :: u16)]
      = ([0xff, 0xff, 0, 0, 0, 0] @ replicate 10 0 :: byte list)" by code_simp
  have "parseIPv6_loop inp (replicate 16 0) 0 (Some 0) (hexd 0xffff @ '':'' @ t) =
    parseIPv6_loop inp ([0xff, 0xff, 0, 0, 0, 0] @ replicate 10 0) (0 + 2) (Some 0) t"
    unfolding upd [symmetric] by (rule parse_field(2)) (use t in simp_all)
  also have "\<dots> = Inr ([0xff, 0xff, a, b, c, d] @ replicate 10 0, 6, Some 0, [])"
    unfolding add_0 v4 by simp
  finally have loop: "parseIPv6_loop inp (replicate 16 0) 0 (Some 0) (''ffff'' @ '':'' @ t) =
    Inr ([0xff, 0xff, a, b, c, d] @ replicate 10 0, 6, Some 0, [])" unfolding ffff .
  have "zeroFill (moveUp ([0xff, 0xff, a, b, c, d] @ replicate 10 0) 0 10 6) 0 10 =
    replicate 10 0 @ [0xff, 0xff, a, b, c, d]"
    using open_gap [of "[]" 0 "[0xff, 0xff, a, b, c, d]" 6 "replicate 10 0"] by simp
  then show ?thesis using loop by (simp add: parseIPv6_rest_def parseIPv6_finish_def Let_def)
qed

lemma be64_be32: "be64 l = be32 (ucast (drop_bit 32 l)) @ be32 (ucast l)"
proof -
  have b: "(ucast (drop_bit k (ucast l :: u32)) :: byte) = ucast (drop_bit k l)" if "k \<le> 24" for k and l :: u64
    using that by (intro bit_word_eqI) (auto simp: bit_simps)
  show ?thesis
    using b [of 0 l] b [of 0 "drop_bit 32 l"]
    by (simp add: bigEndian_AppendUint64_def bigEndian_AppendUint32_def b)
qed

lemma mapped_bytes:
  "AddrFrom16 (replicate 10 0 @ [0xff, 0xff, a, b, c, d]) = (AddrFrom4 [a, b, c, d])\<lparr>ip_z := z6noz\<rparr>"
proof -
  let ?l = "u_lo (ip_addr (AddrFrom4 [a, b, c, d]))"
  have "drop_bit 32 ?l = 0xffff"
    using addr_wf_AddrFrom4 [of "[a, b, c, d]"] by (simp add: addr_wf_def AddrFrom4_def)
  moreover have "be32 0xffff = [0, 0, 0xff, 0xff]" by code_simp
  moreover have "be32 (ucast ?l) = [a, b, c, d]" by (simp only: ucast_AddrFrom4 be32_join4)
  ultimately have "be64 ?l = [0, 0, 0xff, 0xff, a, b, c, d]" using be64_be32 [of ?l] by simp
  moreover have "be64 0 = [0, 0, 0, 0, 0, 0, 0, 0]" by code_simp
  ultimately have "replicate 10 0 @ [0xff, 0xff, a, b, c, d] = be64 0 @ be64 ?l"
    by (simp add: replicate_bytes)
  then show ?thesis by (simp add: AddrFrom4_def)
qed

subsection \<open>Properties\<close>

lemma Unmap_mapped:
  assumes "addr_wf ip" and "Addr_Is4In6 ip"
  obtains a b c d where "Addr_Unmap ip = AddrFrom4 [a, b, c, d]" "ip_addr (AddrFrom4 [a, b, c, d]) = ip_addr ip"
proof -
  have "addr_wf (Addr_Unmap ip)" "ip_z (Addr_Unmap ip) = z4"
    using addr_wf_Unmap [OF assms(1)] assms(2) by (simp_all add: Addr_Unmap_def)
  then obtain a b c d where "Addr_Unmap ip = AddrFrom4 [a, b, c, d]"
    by (cases rule: addr_wf_cases) (auto simp: Addr_zero_def)
  moreover from this have "ip_addr (AddrFrom4 [a, b, c, d]) = ip_addr ip"
    using assms(2) by (simp add: Addr_Unmap_def flip: \<open>Addr_Unmap ip = AddrFrom4 [a, b, c, d]\<close>)
  ultimately show thesis by (rule that)
qed

lemma scan_dotted: "ParseAddr_scan s (dec a @ ''.'' @ r) = parseIPv4 s"
  by (cases a rule: dec_cases) (simp_all add: digit_char hex_char)

lemma Parse_String:
  assumes "addr_wf ip" and "Addr_IsValid ip"
  shows "ParseAddr (Addr_String ip) = Inr ip"
proof -
  consider (v4) "ip_z ip = z4" | (mapped) "Addr_Is4In6 ip" | (v6) "Addr_Is6 ip" "\<not> Addr_Is4In6 ip"
    using assms(2) by (auto simp: addr_defs)
  then show ?thesis
  proof cases
    case v4
    obtain a b c d where "ip = AddrFrom4 [a, b, c, d]"
      by (rule addr_wf_cases [OF assms(1)]) (use v4 in \<open>auto simp: Addr_zero_def\<close>)
    then show ?thesis
      using v4 by (simp add: Addr_String_def string4_AddrFrom4 ParseAddr_def scan_dotted [simplified]
          parseIPv4_dotted [simplified])
  next
    case mapped
    obtain a b c d where u: "Addr_Unmap ip = AddrFrom4 [a, b, c, d]"
      "ip_addr (AddrFrom4 [a, b, c, d]) = ip_addr ip" using Unmap_mapped [OF assms(1) mapped] .
    let ?t = "''::ffff:'' @ string4 (Addr_Unmap ip)"
    have printed: "Addr_String ip = ?t @ zoneText (Addr_Zone ip)"
      using mapped by (cases "ip_z ip") (auto simp: Addr_String_def zoneText_def addr_defs)
    have "CHR ''%'' \<notin> set ?t" unfolding u string4_AddrFrom4 by (simp add: dec_chars)
    then have "ParseAddr (Addr_String ip) = parseIPv6_rest (Addr_String ip) (Addr_Zone ip) ?t"
      unfolding printed ParseAddr_def using parseIPv6_zone [of ?t "Addr_Zone ip"] by simp
    also have "\<dots> = Inr (Addr_WithZone ((AddrFrom4 [a, b, c, d])\<lparr>ip_z := z6noz\<rparr>) (Addr_Zone ip))"
      unfolding u string4_AddrFrom4 parse_mapped mapped_bytes ..
    also have "(AddrFrom4 [a, b, c, d])\<lparr>ip_z := z6noz\<rparr> = ip\<lparr>ip_z := z6noz\<rparr>"
      using u(2) by (cases ip) (simp add: AddrFrom4_def)
    finally show ?thesis
      using assms(1) mapped by (cases ip; cases "ip_z ip")
        (auto simp: Addr_WithZone_def addr_defs addr_wf_def)
  next
    case v6
    then show ?thesis
      using Parse_string6 [OF assms(1) v6(1)] by (cases "ip_z ip") (auto simp: Addr_String_def addr_defs)
  qed
qed

lemma appendTo4_append: "appendTo4 ip b = b @ string4 ip"
  by (simp add: appendTo4_def string4_def appendDecimal_append [of "_ @ _"] appendDecimal_append [of b])

lemma MarshalText_String: "Addr_IsValid ip \<Longrightarrow> Addr_MarshalText ip = Addr_String ip"
  by (cases "ip_z ip") (auto simp: Addr_MarshalText_def Addr_String_def string6_def Addr_IsValid_def
      appendTo4_append [of _ "_ # _"] string4_def)

text \<open>C21: parsing the text of an address gives the address back, for every IPv4 address, every
  IPv6 address with or without a zone, however its run of zero fields is compressed, and the
  IPv4-mapped addresses, which are printed in mixed notation. The same holds of the text
  marshalling.\<close>

theorem ParseAddr_String:
  assumes "addr_wf ip" and "Addr_IsValid ip"
  shows "ParseAddr (Addr_String ip) = Inr ip \<and> Addr_UnmarshalText (Addr_MarshalText ip) = Inr ip"
proof -
  have "ParseAddr [] \<noteq> Inr ip" by (simp add: ParseAddr_def)
  then show ?thesis
    using Parse_String [OF assms] MarshalText_String [OF assms(2)]
    by (auto simp: Addr_UnmarshalText_def)
qed

theorem ParseAddr_String_witness:
  "ParseAddr (Addr_String (Addr_WithZone IPv6LinkLocalAllNodes ''eth0''))
     = Inr (Addr_WithZone IPv6LinkLocalAllNodes ''eth0'')"
  by (rule ParseAddr_String [THEN conjunct1])
     (simp_all add: addr_wf_WithZone IPv6LinkLocalAllNodes_def Addr_WithZone_def Addr_IsValid_def
        Addr_Is6_def AddrFrom16_def)

end
