(* ===== verification/Net_IP.thy ===== *)
theory Net_IP
  imports Netip_Roundtrip Net_HostPort
begin

text \<open>
  The type \<^verbatim>\<open>IP\<close> of \<^verbatim>\<open>net/ip.go\<close>, a slice of 4 or 16 bytes, with its masks and networks, and the
  number parsers of \<^verbatim>\<open>net/parse.go\<close>. The proxy classifies the addresses a host name resolves
  to with the predicates of this type; they agree with those of \<^verbatim>\<open>netip.Addr\<close>.

  A nil slice is the empty list where the code only looks at the length, and \<^term>\<open>None\<close>
  where it tests a result for nil.
\<close>

type_synonym IP = "byte list"
type_synonym IPMask = "byte list"

record IPNet =
  net_IP :: IP
  net_Mask :: IPMask

definition IPv4len :: nat where "IPv4len = 4"
definition IPv6len :: nat where "IPv6len = 16"

lemmas ip_lens [simp] = IPv4len_def IPv6len_def

definition v4InV6Prefix :: "byte list" where
  "v4InV6Prefix = [0, 0, 0, 0, 0, 0, 0, 0, 0, 0, 0xff, 0xff]"

definition IPv4 :: "byte \<Rightarrow> byte \<Rightarrow> byte \<Rightarrow> byte \<Rightarrow> IP" where
  "IPv4 a b c d = (v4InV6Prefix @ drop 12 (replicate IPv6len 0))[12 := a, 13 := b, 14 := c, 15 := d]"

definition IPv4Mask :: "byte \<Rightarrow> byte \<Rightarrow> byte \<Rightarrow> byte \<Rightarrow> IPMask" where
  "IPv4Mask a b c d = (replicate IPv4len 0)[0 := a, 1 := b, 2 := c, 3 := d]"

fun CIDRMask_loop :: "nat \<Rightarrow> nat \<Rightarrow> IPMask" where
  \<comment> \<open>the remaining bytes and ones\<close>
  "CIDRMask_loop 0 n = []"
| "CIDRMask_loop (Suc l) n =
     (if 8 \<le> n then 0xff # CIDRMask_loop l (n - 8)
      else NOT (drop_bit n 0xff) # CIDRMask_loop l 0)"

definition CIDRMask :: "int \<Rightarrow> int \<Rightarrow> IPMask" where
  "CIDRMask ones bits =
     (if bits \<noteq> 8 * int IPv4len \<and> bits \<noteq> 8 * int IPv6len then []
      else if ones < 0 \<or> ones > bits then []
      else CIDRMask_loop (nat (bits div 8)) (nat ones))"

definition IPv4bcast :: IP where "IPv4bcast = IPv4 255 255 255 255"
definition IPv4allsys :: IP where "IPv4allsys = IPv4 224 0 0 1"
definition IPv4allrouter :: IP where "IPv4allrouter = IPv4 224 0 0 2"
definition IPv4zero :: IP where "IPv4zero = IPv4 0 0 0 0"

definition IPv6zero :: IP where
  "IPv6zero = [0, 0, 0, 0, 0, 0, 0, 0, 0, 0, 0, 0, 0, 0, 0, 0]"
definition IPv6unspecified :: IP where
  "IPv6unspecified = [0, 0, 0, 0, 0, 0, 0, 0, 0, 0, 0, 0, 0, 0, 0, 0]"
definition IPv6loopback :: IP where
  "IPv6loopback = [0, 0, 0, 0, 0, 0, 0, 0, 0, 0, 0, 0, 0, 0, 0, 1]"
definition IPv6interfacelocalallnodes :: IP where
  "IPv6interfacelocalallnodes = [0xff, 0x01, 0, 0, 0, 0, 0, 0, 0, 0, 0, 0, 0, 0, 0, 0x01]"
definition IPv6linklocalallnodes :: IP where
  "IPv6linklocalallnodes = [0xff, 0x02, 0, 0, 0, 0, 0, 0, 0, 0, 0, 0, 0, 0, 0, 0x01]"
definition IPv6linklocalallrouters :: IP where
  "IPv6linklocalallrouters = [0xff, 0x02, 0, 0, 0, 0, 0, 0, 0, 0, 0, 0, 0, 0, 0, 0x02]"

fun isZeros :: "IP \<Rightarrow> bool" where
  "isZeros [] = True"
| "isZeros (x # p) = (if x \<noteq> 0 then False else isZeros p)"

definition To4 :: "IP \<Rightarrow> IP option" where
  "To4 ip =
     (if length ip = IPv4len then Some ip
      else if length ip = IPv6len \<and> isZeros (take 10 ip) \<and> ip ! 10 = 0xff \<and> ip ! 11 = 0xff
      then Some (drop 12 ip)
      else None)"

definition To16 :: "IP \<Rightarrow> IP option" where
  "To16 ip =
     (if length ip = IPv4len then Some (IPv4 (ip ! 0) (ip ! 1) (ip ! 2) (ip ! 3))
      else if length ip = IPv6len then Some ip
      else None)"

definition IP_Equal :: "IP \<Rightarrow> IP \<Rightarrow> bool" where
  "IP_Equal ip x =
     (if length ip = length x then ip = x
      else if length ip = IPv4len \<and> length x = IPv6len
      then take 12 x = v4InV6Prefix \<and> ip = drop 12 x
      else if length ip = IPv6len \<and> length x = IPv4len
      then take 12 ip = v4InV6Prefix \<and> drop 12 ip = x
      else False)"

definition IP_IsUnspecified :: "IP \<Rightarrow> bool" where
  "IP_IsUnspecified ip \<longleftrightarrow> IP_Equal ip IPv4zero \<or> IP_Equal ip IPv6unspecified"

definition IP_IsLoopback :: "IP \<Rightarrow> bool" where
  "IP_IsLoopback ip =
     (case To4 ip of Some ip4 \<Rightarrow> ip4 ! 0 = 127 | None \<Rightarrow> IP_Equal ip IPv6loopback)"

definition IP_IsPrivate :: "IP \<Rightarrow> bool" where
  "IP_IsPrivate ip =
     (case To4 ip of
        Some ip4 \<Rightarrow> ip4 ! 0 = 10 \<or> ip4 ! 0 = 172 \<and> ip4 ! 1 AND 0xf0 = 16
                    \<or> ip4 ! 0 = 192 \<and> ip4 ! 1 = 168
      | None \<Rightarrow> length ip = IPv6len \<and> ip ! 0 AND 0xfe = 0xfc)"

definition IP_IsMulticast :: "IP \<Rightarrow> bool" where
  "IP_IsMulticast ip =
     (case To4 ip of
        Some ip4 \<Rightarrow> ip4 ! 0 AND 0xf0 = 0xe0
      | None \<Rightarrow> length ip = IPv6len \<and> ip ! 0 = 0xff)"

definition IP_IsInterfaceLocalMulticast :: "IP \<Rightarrow> bool" where
  "IP_IsInterfaceLocalMulticast ip \<longleftrightarrow>
     length ip = IPv6len \<and> ip ! 0 = 0xff \<and> ip ! 1 AND 0x0f = 0x01"

definition IP_IsLinkLocalMulticast :: "IP \<Rightarrow> bool" where
  "IP_IsLinkLocalMulticast ip =
     (case To4 ip of
        Some ip4 \<Rightarrow> ip4 ! 0 = 224 \<and> ip4 ! 1 = 0 \<and> ip4 ! 2 = 0
      | None \<Rightarrow> length ip = IPv6len \<and> ip ! 0 = 0xff \<and> ip ! 1 AND 0x0f = 0x02)"

definition IP_IsLinkLocalUnicast :: "IP \<Rightarrow> bool" where
  "IP_IsLinkLocalUnicast ip =
     (case To4 ip of
        Some ip4 \<Rightarrow> ip4 ! 0 = 169 \<and> ip4 ! 1 = 254
      | None \<Rightarrow> length ip = IPv6len \<and> ip ! 0 = 0xfe \<and> ip ! 1 AND 0xc0 = 0x80)"

definition IP_IsGlobalUnicast :: "IP \<Rightarrow> bool" where
  "IP_IsGlobalUnicast ip \<longleftrightarrow>
     (length ip = IPv4len \<or> length ip = IPv6len) \<and> \<not> IP_Equal ip IPv4bcast
     \<and> \<not> IP_IsUnspecified ip \<and> \<not> IP_IsLoopback ip \<and> \<not> IP_IsMulticast ip
     \<and> \<not> IP_IsLinkLocalUnicast ip"

definition classAMask :: IPMask where "classAMask = IPv4Mask 0xff 0 0 0"
definition classBMask :: IPMask where "classBMask = IPv4Mask 0xff 0xff 0 0"
definition classCMask :: IPMask where "classCMask = IPv4Mask 0xff 0xff 0xff 0"

definition DefaultMask :: "IP \<Rightarrow> IPMask option" where
  "DefaultMask ip =
     (case To4 ip of
        None \<Rightarrow> None
      | Some ip4 \<Rightarrow> if ip4 ! 0 < 0x80 then Some classAMask
                    else if ip4 ! 0 < 0xC0 then Some classBMask
                    else Some classCMask)"

fun allFF :: "byte list \<Rightarrow> bool" where
  "allFF [] = True"
| "allFF (c # b) = (if c \<noteq> 0xff then False else allFF b)"

definition IP_Mask :: "IP \<Rightarrow> IPMask \<Rightarrow> IP" where
  "IP_Mask ip0 mask0 =
     (let mask = (if length mask0 = IPv6len \<and> length ip0 = IPv4len \<and> allFF (take 12 mask0)
                  then drop 12 mask0 else mask0);
          ip = (if length mask = IPv4len \<and> length ip0 = IPv6len \<and> take 12 ip0 = v4InV6Prefix
                then drop 12 ip0 else ip0)
      in if length ip \<noteq> length mask then [] else map2 (AND) ip mask)"

definition hexString :: "byte list \<Rightarrow> string" where
  "hexString b = concat (map (\<lambda>tn. [digits ! unat (drop_bit 4 tn), digits ! unat (tn AND 0xf)]) b)"

definition IP_String :: "IP \<Rightarrow> string" where
  "IP_String ip =
     (if length ip = 0 then ''<nil>''
      else if length ip \<noteq> IPv4len \<and> length ip \<noteq> IPv6len then ''?'' @ hexString ip
      else case To4 ip of
             Some p4 \<Rightarrow> Addr_String (AddrFrom4 p4)
           | None \<Rightarrow> Addr_String (AddrFrom16 ip))"

definition ipEmptyString :: "IP \<Rightarrow> string" where
  "ipEmptyString ip = (if length ip = 0 then [] else IP_String ip)"

definition IP_MarshalText :: "IP \<Rightarrow> addr_error + string" where
  "IP_MarshalText ip =
     (if length ip = 0 then Inr []
      else if length ip \<noteq> IPv4len \<and> length ip \<noteq> IPv6len
      then Inl (AddrError ''invalid IP address'' (hexString ip))
      else Inr (IP_String ip))"

definition matchAddrFamily :: "IP \<Rightarrow> IP \<Rightarrow> bool" where
  "matchAddrFamily ip x \<longleftrightarrow>
     To4 ip \<noteq> None \<and> To4 x \<noteq> None
     \<or> To16 ip \<noteq> None \<and> To4 ip = None \<and> To16 x \<noteq> None \<and> To4 x = None"

text \<open>The leading ones of a mask byte, at most eight rounds as each shifts a bit out.\<close>

fun leadingOnes :: "nat \<Rightarrow> byte \<Rightarrow> nat \<times> byte" where
  "leadingOnes 0 v = (0, v)"
| "leadingOnes (Suc k) v =
     (if v AND 0x80 \<noteq> 0 then let (n, w) = leadingOnes k (push_bit 1 v) in (Suc n, w) else (0, v))"

fun simpleMaskLength :: "IPMask \<Rightarrow> int" where
  "simpleMaskLength [] = 0"
| "simpleMaskLength (v # m) =
     (if v = 0xff then
        let r = simpleMaskLength m in if r = -1 then -1 else 8 + r
      else let (n, w) = leadingOnes 8 v
           in if w \<noteq> 0 then -1 else if \<not> isZeros m then -1 else int n)"

definition IPMask_Size :: "IPMask \<Rightarrow> int \<times> int" where
  "IPMask_Size m = (if simpleMaskLength m = -1 then (0, 0) else (simpleMaskLength m, int (length m) * 8))"

definition IPMask_String :: "IPMask \<Rightarrow> string" where
  "IPMask_String m = (if length m = 0 then ''<nil>'' else hexString m)"

definition networkNumberAndMask :: "IPNet \<Rightarrow> IP \<times> IPMask" where
  "networkNumberAndMask n =
     (let ip = (case To4 (net_IP n) of Some ip4 \<Rightarrow> ip4 | None \<Rightarrow> net_IP n);
          m = net_Mask n
      in if To4 (net_IP n) = None \<and> length ip \<noteq> IPv6len then ([], [])
         else if length m = IPv4len then if length ip \<noteq> IPv4len then ([], []) else (ip, m)
         else if length m = IPv6len then if length ip = IPv4len then (ip, drop 12 m) else (ip, m)
         else ([], []))"

definition IPNet_Contains :: "IPNet \<Rightarrow> IP \<Rightarrow> bool" where
  "IPNet_Contains n ip0 =
     (let (nn, m) = networkNumberAndMask n;
          ip = (case To4 ip0 of Some x \<Rightarrow> x | None \<Rightarrow> ip0)
      in if length ip \<noteq> length nn then False
         else list_all (\<lambda>i. nn ! i AND m ! i = ip ! i AND m ! i) [0..<length ip])"

definition parseIP :: "string \<Rightarrow> byte list \<times> bool" where
  "parseIP s =
     (case ParseAddr s of
        Inl _ \<Rightarrow> (replicate 16 0, False)
      | Inr ip \<Rightarrow> if Addr_Zone ip \<noteq> [] then (replicate 16 0, False) else (Addr_As16 ip, True))"

definition ParseIP :: "string \<Rightarrow> IP option" where
  "ParseIP s = (let (a, valid) = parseIP s in if valid then Some a else None)"

definition IP_UnmarshalText :: "string \<Rightarrow> (string \<times> string) + IP" where
  "IP_UnmarshalText txt =
     (if length txt = 0 then Inr []
      else case ParseIP txt of None \<Rightarrow> Inl (''IP address'', txt) | Some x \<Rightarrow> Inr x)"

subsection \<open>Numbers\<close>

definition big :: nat where "big = 0xFFFFFF"

fun dtoi_loop :: "string \<Rightarrow> nat \<Rightarrow> nat \<Rightarrow> nat \<times> nat \<times> bool" where
  "dtoi_loop [] n i = (if i = 0 then (0, 0, False) else (n, i, True))"
| "dtoi_loop (c # s) n i =
     (if decimal c then
        let n1 = n * 10 + (code_point c - 48)
        in if big \<le> n1 then (big, i, False) else dtoi_loop s n1 (i + 1)
      else if i = 0 then (0, 0, False) else (n, i, True))"

definition dtoi :: "string \<Rightarrow> nat \<times> nat \<times> bool" where
  "dtoi s = dtoi_loop s 0 0"

definition hexDigitValue :: "char \<Rightarrow> nat option" where
  "hexDigitValue c =
     (if decimal c then Some (code_point c - 48)
      else if 97 \<le> code_point c \<and> code_point c \<le> 102 then Some (code_point c - 97 + 10)
      else if 65 \<le> code_point c \<and> code_point c \<le> 70 then Some (code_point c - 65 + 10)
      else None)"

fun xtoi_loop :: "string \<Rightarrow> nat \<Rightarrow> nat \<Rightarrow> nat \<times> nat \<times> bool" where
  "xtoi_loop [] n i = (if i = 0 then (0, i, False) else (n, i, True))"
| "xtoi_loop (c # s) n i =
     (case hexDigitValue c of
        Some d \<Rightarrow>
          let n1 = n * 16 + d
          in if big \<le> n1 then (0, i, False) else xtoi_loop s n1 (i + 1)
      | None \<Rightarrow> if i = 0 then (0, i, False) else (n, i, True))"

definition xtoi :: "string \<Rightarrow> nat \<times> nat \<times> bool" where
  "xtoi s = xtoi_loop s 0 0"

definition xtoi2 :: "string \<Rightarrow> char \<Rightarrow> (byte \<times> bool) option" where
  \<comment> \<open>\<open>None\<close>: the slice \<^verbatim>\<open>s[:2]\<close> of a shorter string panics\<close>
  "xtoi2 s e =
     (if length s > 2 \<and> s ! 2 \<noteq> e then Some (0, False)
      else if length s < 2 then None
      else let (n, ei, ok) = xtoi (take 2 s) in Some (of_nat n, ok \<and> ei = 2))"

definition ParseCIDR :: "string \<Rightarrow> (string \<times> string) + (IP \<times> IPNet)" where
  "ParseCIDR s =
     (let err = Inl (''CIDR address'', s)
      in case IndexByteString s (CHR ''/'') of
           None \<Rightarrow> err
         | Some i \<Rightarrow>
             let mask = drop (i + 1) s
             in case ParseAddr (take i s) of
                  Inl _ \<Rightarrow> err
                | Inr ipAddr \<Rightarrow>
                    if Addr_Zone ipAddr \<noteq> [] then err
                    else let (n, k, ok) = dtoi mask
                         in if \<not> ok \<or> k \<noteq> length mask \<or> int n > Addr_BitLen ipAddr then err
                            else let m = CIDRMask (int n) (Addr_BitLen ipAddr);
                                     addr16 = Addr_As16 ipAddr
                                 in Inr (addr16, \<lparr>net_IP = IP_Mask addr16 m, net_Mask = m\<rparr>))"

subsection \<open>Slices and addresses\<close>

lemma IPv4_list [simp]: "IPv4 a b c d = v4InV6Prefix @ [a, b, c, d]"
proof -
  have "drop 12 (replicate IPv6len (0 :: byte)) = [0, 0, 0, 0]" by code_simp
  then show ?thesis unfolding IPv4_def v4InV6Prefix_def by simp
qed

lemma isZeros_replicate: "isZeros p \<longleftrightarrow> p = replicate (length p) 0"
  by (induction p) auto

lemma v4InV6Prefix_replicate: "v4InV6Prefix = replicate 10 0 @ [0xff, 0xff]"
  by code_simp

lemma list_of_4: "length ip = 4 \<longleftrightarrow> (\<exists>a b c d. ip = [a, b, c, d])"
  by (auto simp: numeral_eq_Suc length_Suc_conv)

lemma mapped_slice:
  assumes "length ip = 16"
  shows "isZeros (take 10 ip) \<and> ip ! 10 = 0xff \<and> ip ! 11 = 0xff \<longleftrightarrow> take 12 ip = v4InV6Prefix"
proof -
  have "take 12 ip = take 10 ip @ [ip ! 10, ip ! 11]"
    using assms take_Suc_conv_app_nth [of 10 ip] take_Suc_conv_app_nth [of 11 ip] by simp
  then show ?thesis
    using assms by (simp add: isZeros_replicate v4InV6Prefix_replicate)
qed

lemma To4_cases:
  assumes "length ip = 4 \<or> length ip = 16"
  obtains (v4) a b c d where "ip = [a, b, c, d]" "To4 ip = Some ip"
  | (mapped) a b c d where "ip = v4InV6Prefix @ [a, b, c, d]" "To4 ip = Some [a, b, c, d]"
  | (v6) "length ip = 16" "take 12 ip \<noteq> v4InV6Prefix" "To4 ip = None"
proof (cases "length ip = 4")
  case True
  then show thesis using that(1) by (auto simp: list_of_4 To4_def)
next
  case False
  then have len: "length ip = 16" using assms by simp
  show thesis
  proof (cases "take 12 ip = v4InV6Prefix")
    case True
    have "length (drop 12 ip) = 4" using len by simp
    then obtain a b c d where "drop 12 ip = [a, b, c, d]" unfolding list_of_4 by blast
    then have "ip = v4InV6Prefix @ [a, b, c, d]" by (metis True append_take_drop_id)
    then show thesis using that(2) True len mapped_slice [OF len] by (simp add: To4_def)
  next
    case False
    then show thesis using that(3) len mapped_slice [OF len] by (simp add: To4_def)
  qed
qed

lemma To16_cases:
  assumes "length ip = 4 \<or> length ip = 16"
  shows "To16 ip = Some (case To4 ip of Some p \<Rightarrow> v4InV6Prefix @ p | None \<Rightarrow> ip)"
  using assms
proof (cases rule: To4_cases)
  case mapped
  then show ?thesis by (simp add: To16_def v4InV6Prefix_def)
qed (simp_all add: To16_def)

lemma AsSlice_AddrFrom4 [simp]: "Addr_AsSlice (AddrFrom4 [a, b, c, d]) = [a, b, c, d]"
proof -
  have "be32 (ucast (u_lo (ip_addr (AddrFrom4 [a, b, c, d])))) = [a, b, c, d]"
    by (simp only: ucast_AddrFrom4 be32_join4)
  moreover have "ip_z (AddrFrom4 [a, b, c, d]) = z4" by (simp add: AddrFrom4_def)
  ultimately show ?thesis by (simp add: Addr_AsSlice_def)
qed

lemma AsSlice_v6:
  "Addr_Is6 ip \<Longrightarrow> Addr_AsSlice ip = be64 (u_hi (ip_addr ip)) @ be64 (u_lo (ip_addr ip))"
  by (cases "ip_z ip") (simp_all add: Addr_AsSlice_def Addr_Is6_def)

lemma As16_be64: "Addr_As16 ip = be64 (u_hi (ip_addr ip)) @ be64 (u_lo (ip_addr ip))"
  by (simp add: Addr_As16_def)

lemma mapped_AsSlice:
  assumes "Addr_Is6 ip"
  shows "take 12 (Addr_AsSlice ip) = v4InV6Prefix \<longleftrightarrow> Addr_Is4In6 ip"
proof
  have len: "length (Addr_AsSlice ip) = 16" using assms by (simp add: AsSlice_v6 BigEndian.w64.length_app)
  assume "take 12 (Addr_AsSlice ip) = v4InV6Prefix"
  moreover obtain a b c d where "drop 12 (Addr_AsSlice ip) = [a, b, c, d]"
    using len list_of_4 [of "drop 12 (Addr_AsSlice ip)"] by auto
  ultimately have "Addr_AsSlice ip = replicate 10 0 @ [0xff, 0xff, a, b, c, d]"
    by (metis append_take_drop_id v4InV6Prefix_replicate append.assoc append_Cons append_Nil)
  then have "AddrFrom16 (Addr_AsSlice ip) = (AddrFrom4 [a, b, c, d])\<lparr>ip_z := z6noz\<rparr>"
    by (simp add: mapped_bytes)
  then have "ip_addr ip = ip_addr (AddrFrom4 [a, b, c, d])"
    by (simp add: AsSlice_v6 [OF assms] AddrFrom4_def)
  then show "Addr_Is4In6 ip"
    using assms addr_wf_AddrFrom4 [of "[a, b, c, d]"]
    by (simp add: Addr_Is4In6_def addr_wf_def AddrFrom4_def)
next
  assume "Addr_Is4In6 ip"
  moreover have "be32 (ucast (0xffff :: u64)) = [0, 0, 0xff, 0xff]" by code_simp
  moreover have "be64 0 = [0, 0, 0, 0, 0, 0, 0, 0]" by code_simp
  ultimately show "take 12 (Addr_AsSlice ip) = v4InV6Prefix"
    by (simp add: AsSlice_v6 Addr_Is4In6_def be64_be32 [of "u_lo (ip_addr ip)"] v4InV6Prefix_def)
qed

lemma AsSlice_cases:
  assumes "addr_wf ip" and "Addr_IsValid ip"
  obtains (v4) a b c d where "ip = AddrFrom4 [a, b, c, d]" "Addr_AsSlice ip = [a, b, c, d]"
  | (mapped) a b c d where "Addr_Is4In6 ip" "Addr_Unmap ip = AddrFrom4 [a, b, c, d]"
      "Addr_AsSlice ip = v4InV6Prefix @ [a, b, c, d]"
  | (v6) "Addr_Is6 ip" "\<not> Addr_Is4In6 ip" "To4 (Addr_AsSlice ip) = None" "length (Addr_AsSlice ip) = 16"
      "Addr_AsSlice ip = be64 (u_hi (ip_addr ip)) @ be64 (u_lo (ip_addr ip))"
proof (cases "ip_z ip = z4")
  case True
  show thesis
    by (rule addr_wf_cases [OF assms(1)]) (use that(1) True in \<open>auto simp: Addr_zero_def\<close>)
next
  case False
  then have v6: "Addr_Is6 ip" using assms(2) by (simp add: addr_defs)
  note slice_eq = AsSlice_v6 [OF v6] mapped_AsSlice [OF v6]
  have len: "length (Addr_AsSlice ip) = 16" by (simp add: slice_eq(1) BigEndian.w64.length_app)
  show thesis
  proof (cases "Addr_Is4In6 ip")
    case True
    obtain a b c d where u: "Addr_Unmap ip = AddrFrom4 [a, b, c, d]"
      "ip_addr (AddrFrom4 [a, b, c, d]) = ip_addr ip" using Unmap_mapped [OF assms(1) True] .
    have "be32 (ucast (u_lo (ip_addr ip))) = [a, b, c, d]"
      unfolding u(2) [symmetric] by (simp only: ucast_AddrFrom4 be32_join4)
    then have "drop 12 (Addr_AsSlice ip) = [a, b, c, d]"
      by (simp add: slice_eq(1) be64_be32 [of "u_lo (ip_addr ip)"] BigEndian.w64.length_app BigEndian.w32.length_app)
    moreover have "take 12 (Addr_AsSlice ip) = v4InV6Prefix" using True slice_eq(2) by simp
    ultimately have "Addr_AsSlice ip = v4InV6Prefix @ [a, b, c, d]" by (metis append_take_drop_id)
    then show thesis using that(2) True u(1) by blast
  next
    case not_mapped: False
    then have "To4 (Addr_AsSlice ip) = None"
      using slice_eq(2) len mapped_slice [OF len] by (simp add: To4_def)
    then show thesis using that(3) v6 not_mapped len slice_eq(1) by blast
  qed
qed

subsection \<open>Classification agrees with \<^verbatim>\<open>netip\<close>\<close>

lemma u16_bytes_eq:
  "(g :: u16) = k \<longleftrightarrow> (ucast (drop_bit 8 g) :: byte) = ucast (drop_bit 8 k) \<and> (ucast g :: byte) = ucast k"
proof
  assume eq: "(ucast (drop_bit 8 g) :: byte) = ucast (drop_bit 8 k) \<and> (ucast g :: byte) = ucast k"
  have "g = push_bit 8 (ucast (ucast (drop_bit 8 g) :: byte)) OR ucast (ucast g :: byte)" for g :: u16
    by (rule bit_word_eqI) (auto simp: bit_simps)
  then show "g = k" using eq by metis
qed simp

lemma u16_and_eq:
  "(g :: u16) AND m = k \<longleftrightarrow>
     ucast (drop_bit 8 g) AND ucast (drop_bit 8 m) = (ucast (drop_bit 8 k) :: byte)
     \<and> ucast g AND ucast m = (ucast k :: byte)"
  by (simp only: u16_bytes_eq [of "g AND m"] drop_bit_and unsigned_and_eq)

lemma v6u16_bytes:
  "(ucast (drop_bit 8 (Addr_v6u16 ip 0)) :: byte) = ucast (drop_bit 56 (u_hi (ip_addr ip)))"
  "(ucast (Addr_v6u16 ip 0) :: byte) = ucast (drop_bit 48 (u_hi (ip_addr ip)))"
  unfolding Addr_v6u16_def halves_def by (rule bit_word_eqI; auto simp: bit_simps)+

lemma drop_bit_56_byte: "drop_bit 56 (h :: u64) = 0xff \<longleftrightarrow> (ucast (drop_bit 56 h) :: byte) = 0xff"
proof -
  have "drop_bit 56 h = ucast (ucast (drop_bit 56 h) :: byte)"
    by (rule bit_word_eqI) (auto simp: bit_simps dest: bit_imp_le_length)
  moreover have "(ucast (0xff :: byte) :: u64) = 0xff" "(ucast (0xff :: u64) :: byte) = 0xff" by simp_all
  ultimately show ?thesis by metis
qed

lemma v6_first_bytes:
  "(be64 h @ r) ! 0 = ucast (drop_bit 56 h)" "(be64 h @ r) ! 1 = ucast (drop_bit 48 h)"
  by (simp_all add: bigEndian_AppendUint64_def)

lemmas addr_preds = Addr_IsLoopback_def Addr_IsPrivate_def Addr_IsLinkLocalUnicast_def
  Addr_IsLinkLocalMulticast_def Addr_IsMulticast_def Addr_IsInterfaceLocalMulticast_def
lemmas ip_preds = IP_IsLoopback_def IP_IsPrivate_def IP_IsLinkLocalUnicast_def
  IP_IsLinkLocalMulticast_def IP_IsMulticast_def IP_IsInterfaceLocalMulticast_def

lemma loopback_bytes: "be64 h @ be64 l = IPv6loopback \<longleftrightarrow> h = 0 \<and> l = 1"
proof -
  have "IPv6loopback = be64 0 @ be64 1" by code_simp
  then show ?thesis
    using BigEndian.w64.app_inj [of h "be64 l" 0 "be64 1"] BigEndian.w64.app_inj [of l "[]" 1 "[]"] by auto
qed

lemma v6_preds:
  assumes "Addr_Is6 ip" and "\<not> Addr_Is4In6 ip"
  defines "h \<equiv> u_hi (ip_addr ip)"
  defines "x \<equiv> (ucast (drop_bit 56 h) :: byte)" and "y \<equiv> (ucast (drop_bit 48 h) :: byte)"
  shows "Addr_IsLoopback ip \<longleftrightarrow> h = 0 \<and> u_lo (ip_addr ip) = 1"
    and "Addr_IsPrivate ip \<longleftrightarrow> x AND 0xfe = 0xfc"
    and "Addr_IsLinkLocalUnicast ip \<longleftrightarrow> x = 0xfe \<and> y AND 0xc0 = 0x80"
    and "Addr_IsLinkLocalMulticast ip \<longleftrightarrow> x = 0xff \<and> y AND 0x0f = 0x02"
    and "Addr_IsMulticast ip \<longleftrightarrow> x = 0xff"
    and "Addr_IsInterfaceLocalMulticast ip \<longleftrightarrow> x = 0xff \<and> y AND 0x0f = 0x01"
proof -
  have not4: "\<not> Addr_Is4 ip" using assms(1) by (simp add: addr_defs)
  show "Addr_IsLoopback ip \<longleftrightarrow> h = 0 \<and> u_lo (ip_addr ip) = 1"
    "Addr_IsPrivate ip \<longleftrightarrow> x AND 0xfe = 0xfc"
    "Addr_IsMulticast ip \<longleftrightarrow> x = 0xff"
    using assms not4 drop_bit_56_byte [of h]
    by (simp_all add: addr_preds Let_def Addr_v6_def halves_def)
  have ff: "(0xff :: byte) = -1" by simp
  have xff: "x AND 0xff = x" unfolding ff by simp
  have xy: "(ucast (drop_bit 8 (Addr_v6u16 ip 0)) :: byte) = x" "(ucast (Addr_v6u16 ip 0) :: byte) = y"
    by (simp_all only: v6u16_bytes x_def y_def h_def)
  have nums: "(ucast (drop_bit 8 (0xffc0 :: u16)) :: byte) = 0xff" "(ucast (0xffc0 :: u16) :: byte) = 0xc0"
    "(ucast (drop_bit 8 (0xff0f :: u16)) :: byte) = 0xff" "(ucast (0xff0f :: u16) :: byte) = 0x0f"
    "(ucast (drop_bit 8 (0xfe80 :: u16)) :: byte) = 0xfe" "(ucast (0xfe80 :: u16) :: byte) = 0x80"
    "(ucast (drop_bit 8 (0xff02 :: u16)) :: byte) = 0xff" "(ucast (0xff02 :: u16) :: byte) = 0x02"
    "(ucast (drop_bit 8 (0xff01 :: u16)) :: byte) = 0xff" "(ucast (0xff01 :: u16) :: byte) = 0x01"
    by code_simp+
  have fields: "Addr_v6u16 ip 0 AND 0xffc0 = 0xfe80 \<longleftrightarrow> x = 0xfe \<and> y AND 0xc0 = 0x80"
    "Addr_v6u16 ip 0 AND 0xff0f = 0xff02 \<longleftrightarrow> x = 0xff \<and> y AND 0x0f = 0x02"
    "Addr_v6u16 ip 0 AND 0xff0f = 0xff01 \<longleftrightarrow> x = 0xff \<and> y AND 0x0f = 0x01"
    unfolding u16_and_eq [of "Addr_v6u16 ip 0"] xy nums xff by (rule refl)+
  show "Addr_IsLinkLocalUnicast ip \<longleftrightarrow> x = 0xfe \<and> y AND 0xc0 = 0x80"
    "Addr_IsLinkLocalMulticast ip \<longleftrightarrow> x = 0xff \<and> y AND 0x0f = 0x02"
    "Addr_IsInterfaceLocalMulticast ip \<longleftrightarrow> x = 0xff \<and> y AND 0x0f = 0x01"
    using assms(1,2) not4 by (simp_all only: addr_preds Let_def fields if_False if_True simp_thms)
qed

text \<open>C22: the classification of a \<^verbatim>\<open>net.IP\<close> agrees with that of the \<^verbatim>\<open>netip.Addr\<close> it comes from, for
  every IPv4, IPv6 and IPv4-mapped address, with or without a zone: loopback, private,
  link-local and multicast addresses are recognised alike by both packages.\<close>

theorem IP_predicates_agree:
  assumes "addr_wf ip" and "Addr_IsValid ip"
  shows "IP_IsLoopback (Addr_AsSlice ip) = Addr_IsLoopback ip
    \<and> IP_IsPrivate (Addr_AsSlice ip) = Addr_IsPrivate ip
    \<and> IP_IsLinkLocalUnicast (Addr_AsSlice ip) = Addr_IsLinkLocalUnicast ip
    \<and> IP_IsLinkLocalMulticast (Addr_AsSlice ip) = Addr_IsLinkLocalMulticast ip
    \<and> IP_IsMulticast (Addr_AsSlice ip) = Addr_IsMulticast ip
    \<and> IP_IsInterfaceLocalMulticast (Addr_AsSlice ip) = Addr_IsInterfaceLocalMulticast ip"
proof (cases rule: AsSlice_cases [OF assms])
  case (1 a b c d)
  then show ?thesis
    using Addr_v4_AddrFrom4 [of a b c d]
    by (simp add: addr_preds ip_preds To4_def AddrFrom4_def addr_defs Let_def)
next
  case (2 a b c d)
  have "To4 (v4InV6Prefix @ [a, b, c, d]) = Some [a, b, c, d]"
    by (simp add: To4_def v4InV6Prefix_def)
  then show ?thesis
    using 2 Addr_v4_AddrFrom4 [of a b c d]
    by (simp add: addr_preds ip_preds Addr_Is4_def Let_def v4InV6Prefix_def)
      (simp add: AddrFrom4_def)
next
  case 3
  have "IP_Equal (Addr_AsSlice ip) IPv6loopback \<longleftrightarrow> Addr_AsSlice ip = IPv6loopback"
    using 3(4) by (simp add: IP_Equal_def IPv6loopback_def)
  then show ?thesis
    using 3 v6_preds [OF 3(1,2)] loopback_bytes
    by (simp add: ip_preds v6_first_bytes [simplified] BigEndian.w64.length_app)
qed

theorem IP_predicates_agree_witness:
  "IP_IsLoopback (Addr_AsSlice (AddrFrom4 [127, 0, 0, 1])) = Addr_IsLoopback (AddrFrom4 [127, 0, 0, 1])"
  by (rule IP_predicates_agree [THEN conjunct1]) (simp add: addr_wf_AddrFrom4, code_simp)

subsection \<open>Text\<close>

lemma As16_AddrFrom16: "length ip = 16 \<Longrightarrow> Addr_As16 (AddrFrom16 ip) = ip"
  by (simp add: As16_be64 AddrFrom16_def be64_beUint64)

lemma As16_AddrFrom4: "Addr_As16 (AddrFrom4 [a, b, c, d]) = v4InV6Prefix @ [a, b, c, d]"
proof -
  have "Addr_As16 (AddrFrom4 [a, b, c, d]) = Addr_As16 ((AddrFrom4 [a, b, c, d])\<lparr>ip_z := z6noz\<rparr>)"
    by (simp add: As16_be64)
  also have "\<dots> = v4InV6Prefix @ [a, b, c, d]"
    unfolding mapped_bytes [symmetric] by (simp add: As16_AddrFrom16 v4InV6Prefix_replicate)
  finally show ?thesis .
qed

lemma ParseIP_Addr:
  assumes "addr_wf ip" and "Addr_IsValid ip" and "Addr_Zone ip = []"
  shows "ParseIP (Addr_String ip) = Some (Addr_As16 ip)"
  using Parse_String [OF assms(1,2)] assms(3) by (simp add: ParseIP_def parseIP_def)

text \<open>C23: \<^verbatim>\<open>ParseIP\<close> reads the text of an IP address back, as its 16-byte form.\<close>

theorem ParseIP_String:
  assumes "length ip = 4 \<or> length ip = 16"
  shows "ParseIP (IP_String ip) = To16 ip"
proof -
  have parse4: "ParseIP (Addr_String (AddrFrom4 [a, b, c, d])) = Some (v4InV6Prefix @ [a, b, c, d])"
    for a b c d
    using ParseIP_Addr [of "AddrFrom4 [a, b, c, d]"]
    by (simp add: addr_wf_AddrFrom4 As16_AddrFrom4) (simp add: AddrFrom4_def addr_defs)
  show ?thesis
  proof (cases rule: To4_cases [OF assms])
    case (1 a b c d)
    then show ?thesis using parse4 To16_cases [OF assms] by (simp add: IP_String_def)
  next
    case (2 a b c d)
    then show ?thesis using parse4 To16_cases [OF assms] by (simp add: IP_String_def v4InV6Prefix_def)
  next
    case 3
    then show ?thesis
      using ParseIP_Addr [of "AddrFrom16 ip"] To16_cases [OF assms] As16_AddrFrom16 [of ip]
      by (simp add: IP_String_def) (simp add: AddrFrom16_def addr_defs)
  qed
qed

theorem ParseIP_String_witness:
  "ParseIP (IP_String [192, 168, 0, 1]) = To16 [192, 168, 0, 1]"
  by (rule ParseIP_String) simp

subsection \<open>Equality\<close>

text \<open>\<^verbatim>\<open>Equal\<close> compares addresses and not slices: two valid slices are equal exactly when their
  16-byte forms are, so an IPv4 address equals its mapped form and the relation is an
  equivalence.\<close>

theorem IP_Equal_iff_To16:
  assumes "length a = 4 \<or> length a = 16" and "length b = 4 \<or> length b = 16"
  shows "IP_Equal a b \<longleftrightarrow> To16 a = To16 b"
proof -
  have app: "take 12 x = v4InV6Prefix \<and> drop 12 x = y \<longleftrightarrow> x = v4InV6Prefix @ y" if "length x = 16" for x y
  proof
    assume "take 12 x = v4InV6Prefix \<and> drop 12 x = y"
    then show "x = v4InV6Prefix @ y" by (metis append_take_drop_id)
  qed (simp add: v4InV6Prefix_def)
  have four: "[x ! 0, x ! 1, x ! 2, x ! 3] = x" if "length x = 4" for x :: IP
    using that by (auto simp: list_of_4)
  show ?thesis
    using assms app [of a b] app [of b a] four [of a] four [of b]
    by (auto simp: IP_Equal_def To16_def simp flip: four)
qed

theorem IP_Equal_iff_To16_witness:
  "IP_Equal [10, 0, 0, 1] (IPv4 10 0 0 1) \<longleftrightarrow> To16 [10, 0, 0, 1] = To16 (IPv4 10 0 0 1)"
  by (rule IP_Equal_iff_To16) (simp_all add: v4InV6Prefix_def)

subsection \<open>Masks and networks\<close>

lemma mask_byte:
  assumes "n < 8"
  shows "NOT (drop_bit n 0xff) \<noteq> (0xff :: byte) \<and> leadingOnes 8 (NOT (drop_bit n 0xff)) = (n, 0)"
proof -
  have "\<forall>n \<in> set [0..<8]. NOT (drop_bit n 0xff) \<noteq> (0xff :: byte)
      \<and> leadingOnes 8 (NOT (drop_bit n 0xff)) = (n, 0)"
    by code_simp
  then show ?thesis by (rule bspec) (use assms in simp)
qed

lemma CIDRMask_loop_zero: "isZeros (CIDRMask_loop l 0)"
  by (induction l) simp_all

lemma length_CIDRMask_loop [simp]: "length (CIDRMask_loop l n) = l"
  by (induction l arbitrary: n) simp_all

lemma simpleMaskLength_CIDR: "n \<le> 8 * l \<Longrightarrow> simpleMaskLength (CIDRMask_loop l n) = int n"
proof (induction l arbitrary: n)
  case (Suc l)
  show ?case
  proof (cases "8 \<le> n")
    case True
    then show ?thesis using Suc.IH [of "n - 8"] Suc.prems by (simp add: of_nat_diff)
  next
    case False
    then show ?thesis using mask_byte [of n] CIDRMask_loop_zero [of l] by simp
  qed
qed simp

text \<open>C24: \<^verbatim>\<open>Size\<close> recovers the number of ones and the length from any mask that \<^verbatim>\<open>CIDRMask\<close> makes.\<close>

theorem CIDRMask_Size:
  assumes "bits = 32 \<or> bits = 128" and "0 \<le> ones" and "ones \<le> bits"
  shows "IPMask_Size (CIDRMask ones bits) = (ones, bits)"
  using assms simpleMaskLength_CIDR [of "nat ones" "nat (bits div 8)"]
  by (auto simp: IPMask_Size_def CIDRMask_def)

theorem CIDRMask_Size_witness: "IPMask_Size (CIDRMask 20 32) = (20, 32)"
  by (rule CIDRMask_Size) simp_all

text \<open>The bits of an address, from the most significant one.\<close>

definition byte_bits :: "byte \<Rightarrow> bool list" where
  "byte_bits b = map (\<lambda>k. bit b (7 - k)) [0..<8]"

definition ip_bits :: "IP \<Rightarrow> bool list" where
  "ip_bits ip = concat (map byte_bits ip)"

lemma length_byte_bits [simp]: "length (byte_bits b) = 8"
  by (simp add: byte_bits_def)

lemma ip_bits_Cons: "ip_bits (b # ip) = byte_bits b @ ip_bits ip"
  by (simp add: ip_bits_def)

lemma and_mask_byte:
  assumes "n \<le> 8"
  shows "x AND NOT (drop_bit n 0xff) = y AND NOT (drop_bit n 0xff) \<longleftrightarrow>
    take n (byte_bits x) = take n (byte_bits y)"
proof -
  have ff: "(0xff :: byte) = -1" by simp
  have m: "bit (NOT (drop_bit n (0xff :: byte))) i \<longleftrightarrow> i < 8 \<and> 8 - n \<le> i" for i
    unfolding ff using assms by (auto simp: bit_simps)
  have "x AND NOT (drop_bit n 0xff) = y AND NOT (drop_bit n 0xff) \<longleftrightarrow>
      (\<forall>i. 8 - n \<le> i \<and> i < 8 \<longrightarrow> bit x i = bit y i)"
    by (auto simp: bit_eq_iff bit_and_iff m)
  also have "\<dots> \<longleftrightarrow> (\<forall>k < n. bit x (7 - k) = bit y (7 - k))"
  proof
    assume eq: "\<forall>i. 8 - n \<le> i \<and> i < 8 \<longrightarrow> bit x i = bit y i"
    show "\<forall>k < n. bit x (7 - k) = bit y (7 - k)"
    proof (intro allI impI)
      fix k assume "k < n"
      then have "8 - n \<le> 7 - k \<and> 7 - k < 8" using assms by arith
      then show "bit x (7 - k) = bit y (7 - k)" by (rule eq [rule_format])
    qed
  next
    assume eq: "\<forall>k < n. bit x (7 - k) = bit y (7 - k)"
    show "\<forall>i. 8 - n \<le> i \<and> i < 8 \<longrightarrow> bit x i = bit y i"
    proof (intro allI impI)
      fix i assume "8 - n \<le> i \<and> i < 8"
      then show "bit x i = bit y i" using eq [rule_format, of "7 - i"] assms by auto
    qed
  qed
  also have "\<dots> \<longleftrightarrow> take n (byte_bits x) = take n (byte_bits y)"
    using assms by (auto simp: byte_bits_def take_map min_def)
  finally show ?thesis .
qed

lemma CIDRMask_loop_bits:
  assumes "length nn = l" and "length ip = l" and "n \<le> 8 * l"
  shows "(\<forall>i < l. nn ! i AND CIDRMask_loop l n ! i = ip ! i AND CIDRMask_loop l n ! i) \<longleftrightarrow>
    take n (ip_bits nn) = take n (ip_bits ip)"
  using assms
proof (induction l arbitrary: nn ip n)
  case (Suc l)
  obtain x nn' y ip' where xs: "nn = x # nn'" "ip = y # ip'" and len: "length nn' = l" "length ip' = l"
    using Suc.prems by (auto simp: length_Suc_conv)
  have zero: "CIDRMask_loop l 0 ! i = 0" if "i < l" for i
    using CIDRMask_loop_zero [of l] that by (metis isZeros_replicate length_CIDRMask_loop nth_replicate)
  have ff: "(0xff :: byte) = -1" by simp
  show ?case
  proof (cases "8 \<le> n")
    case True
    have "byte_bits x = byte_bits y \<longleftrightarrow> x = y"
      using and_mask_byte [of 8 x y] ff by simp
    moreover have "x AND 0xff = y AND 0xff \<longleftrightarrow> x = y" unfolding ff by simp
    ultimately show ?thesis
      using True Suc.IH [OF len, of "n - 8"] Suc.prems
      by (simp add: xs ip_bits_Cons All_less_Suc2)
  next
    case False
    then show ?thesis
      using and_mask_byte [of n x y] zero by (simp add: xs ip_bits_Cons All_less_Suc2)
  qed
qed simp

lemma drop_CIDRMask_loop: "drop m (CIDRMask_loop l n) = CIDRMask_loop (l - m) (n - 8 * m)"
proof (induction m arbitrary: l n)
  case (Suc m)
  show ?case
  proof (cases l)
    case (Suc l')
    then show ?thesis using Suc.IH [of l' "n - 8"] Suc.IH [of l' 0] by (auto simp: not_le)
  qed simp
qed simp

definition shortForm :: "IP \<Rightarrow> IP" where
  \<comment> \<open>the four bytes of an IPv4 address, mapped or not\<close>
  "shortForm ip = (case To4 ip of Some p \<Rightarrow> p | None \<Rightarrow> ip)"

text \<open>C25: A network of \<open>k\<close> leading bits contains exactly the addresses of its own family that share these bits. The
  family is that of the short form: an IPv4 address in sixteen bytes counts as IPv4, and where
  the address of the network is one, the first 96 of the \<open>k\<close> bits are those of the mapping and the others
  are compared. With fewer than 96 bits such a network therefore contains every IPv4 address and
  no IPv6 address.\<close>

theorem IPNet_Contains_CIDR:
  assumes "length nn = 4 \<or> length nn = 16" and "k \<le> 8 * length nn"
  shows "IPNet_Contains \<lparr>net_IP = nn, net_Mask = CIDRMask (int k) (8 * int (length nn))\<rparr> ip \<longleftrightarrow>
    (let x = shortForm ip; y = shortForm nn; j = (if length y = length nn then k else k - 96)
     in length x = length y \<and> take j (ip_bits x) = take j (ip_bits y))"
proof -
  let ?m = "CIDRMask_loop (length nn) k" and ?y = "shortForm nn" and ?x = "shortForm ip"
  let ?j = "if length ?y = length nn then k else k - 96"
  have mask: "CIDRMask (int k) (8 * int (length nn)) = ?m"
    using assms by (auto simp: CIDRMask_def)
  have y: "length ?y = length nn \<or> length nn = 16 \<and> length ?y = 4"
    using assms(1) by (auto simp: shortForm_def To4_def split: option.splits if_splits)
  have "networkNumberAndMask \<lparr>net_IP = nn, net_Mask = ?m\<rparr> = (?y, CIDRMask_loop (length ?y) ?j)"
    using assms(1) y drop_CIDRMask_loop [of 12 16 k]
    by (auto simp: networkNumberAndMask_def shortForm_def Let_def To4_def split: if_splits)
  moreover have "?j \<le> 8 * length ?y" using assms(2) y by auto
  ultimately show ?thesis
    using CIDRMask_loop_bits [OF refl, of ?x ?y ?j] unfolding mask
    by (auto simp: IPNet_Contains_def list_all_iff Let_def shortForm_def [symmetric])
qed

theorem IPNet_Contains_CIDR_witness:
  "IPNet_Contains \<lparr>net_IP = IPv4 10 0 0 0, net_Mask = CIDRMask (int 104) (8 * int (length (IPv4 10 0 0 0)))\<rparr> [10, 1, 2, 3]
   \<and> \<not> IPNet_Contains \<lparr>net_IP = IPv4 10 0 0 0, net_Mask = CIDRMask (int 104) (8 * int (length (IPv4 10 0 0 0)))\<rparr> [11, 1, 2, 3]"
proof -
  have "shortForm (IPv4 10 0 0 0) = [10, 0, 0, 0]" "shortForm [10, 1, 2, 3] = [10, 1, 2, 3]"
    "shortForm [11, 1, 2, 3] = [11, 1, 2, 3]"
    "take 8 (ip_bits [10, 0, 0, 0]) = take 8 (ip_bits [10, 1, 2, 3])"
    "take 8 (ip_bits [10, 0, 0, 0]) \<noteq> take 8 (ip_bits [11, 1, 2, 3])" "length (IPv4 10 0 0 0) = 16"
    by code_simp+
  then show ?thesis
    using IPNet_Contains_CIDR [of "IPv4 10 0 0 0" 104 "[10, 1, 2, 3]"]
      IPNet_Contains_CIDR [of "IPv4 10 0 0 0" 104 "[11, 1, 2, 3]"]
    by (simp add: Let_def)
qed

end
