(* ===== verification/Net_Dial.thy ===== *)
theory Net_Dial
  imports Net_IP
begin

text \<open>
  How \<^verbatim>\<open>net.LookupIP\<close> and \<^verbatim>\<open>net.Dial\<close> find the addresses of a host (\<^verbatim>\<open>net/lookup.go\<close>, \<^verbatim>\<open>net/port.go\<close>,
  \<^verbatim>\<open>net/ipsock.go\<close>, \<^verbatim>\<open>net/dial.go\<close>, \<^verbatim>\<open>net/dnsclient.go\<close>): literal addresses are parsed, the rest goes
  to a resolver. The proxy looks a host up once to decide whether it may be dialled, and the
  dialler looks it up again.

  The resolver behind \<^verbatim>\<open>Resolver.lookupIP\<close> (hosts file, DNS servers, the C library) is the
  argument \<open>resolve\<close>, a function of the network and the name. The merging of concurrent
  lookups returns the same result and contexts carry no deadline here.
\<close>

record IPAddr =
  ia_IP :: IP
  ia_Zone :: string

datatype netaddr =
    TCPAddr (na_IP: IP) (na_Port: int) (na_Zone: string)
  | UDPAddr (na_IP: IP) (na_Port: int) (na_Zone: string)
  | IPAddrOf (na_IP: IP) (na_Zone: string)
  | UnixAddr (na_Name: string) (na_Net: string)

datatype net_error =
    DNSError string string
  | AddrErr addr_error
  | UnknownNetworkError string
  | errMissingAddress
  | OtherNetError string

type_synonym resolver = "string \<Rightarrow> string \<Rightarrow> net_error + IPAddr list"

definition errNoSuchHost :: string where "errNoSuchHost = ''no such host''"
definition errNoSuitableAddress :: string where "errNoSuitableAddress = ''no suitable address found''"

subsection \<open>Decimal numbers\<close>

function Uitoa_loop :: "nat \<Rightarrow> string \<Rightarrow> string" where
  "Uitoa_loop v buf =
     (if 10 \<le> v then let q = v div 10 in Uitoa_loop q (char_of (48 + v - q * 10) # buf)
      else char_of (48 + v) # buf)"
  by pat_completeness auto
termination
  by (relation "measure fst") auto

declare Uitoa_loop.simps [simp del]

definition Uitoa :: "nat \<Rightarrow> string" where
  "Uitoa v = (if v = 0 then ''0'' else Uitoa_loop v [])"

definition Itoa :: "int \<Rightarrow> string" where
  "Itoa v = (if v < 0 then ''-'' @ Uitoa (nat (- v)) else Uitoa (nat v))"

definition portCutoff :: u32 where "portCutoff = 2 ^ 30"
definition portMax :: u32 where "portMax = - 1"

fun parsePort_loop :: "string \<Rightarrow> u32 \<Rightarrow> u32 option" where
  \<comment> \<open>\<open>None\<close>: a character that is not a digit\<close>
  "parsePort_loop [] n = Some n"
| "parsePort_loop (d # ds) n =
     (if decimal d then
        if portCutoff \<le> n then Some portMax
        else let n10 = n * 10; nn = n10 + of_nat (code_point d - 48)
             in if nn < n10 then Some portMax else parsePort_loop ds nn
      else None)"

definition parsePort :: "string \<Rightarrow> int \<times> bool" where
  "parsePort service =
     (if service = [] then (0, False)
      else let neg = (hd service = CHR ''-'');
               digs = (if hd service = CHR ''+'' \<or> neg then tl service else service)
           in case parsePort_loop digs 0 of
                None \<Rightarrow> (0, True)
              | Some n \<Rightarrow>
                  let port = (if \<not> neg \<and> portCutoff \<le> n then uint (portCutoff - 1)
                              else if neg \<and> portCutoff < n then uint portCutoff
                              else uint n)
                  in (if neg then - port else port, False))"

definition LookupPort ::
  "(string \<Rightarrow> string \<Rightarrow> net_error + int) \<Rightarrow> string \<Rightarrow> string \<Rightarrow> net_error + int" where
  \<comment> \<open>the first argument is the table of service names, \<^verbatim>\<open>lookupPort\<close>\<close>
  "LookupPort lookupPort network service =
     (let (port, needsLookup) = parsePort service;
          found =
            (if needsLookup then
               if network \<in> {''tcp'', ''tcp4'', ''tcp6'', ''udp'', ''udp4'', ''udp6'', ''ip''}
               then lookupPort network service
               else if network = [] then lookupPort ''ip'' service
               else Inl (AddrErr (AddrError ''unknown network'' network))
             else Inr port)
      in case found of
           Inl e \<Rightarrow> Inl e
         | Inr p \<Rightarrow> if 0 > p \<or> p > 65535 then Inl (AddrErr (AddrError ''invalid port'' service)) else Inr p)"

subsection \<open>Domain names\<close>

fun isDomainName_loop :: "string \<Rightarrow> char \<Rightarrow> bool \<Rightarrow> nat \<Rightarrow> bool" where
  "isDomainName_loop [] prev nonNumeric partlen =
     (if prev = CHR ''-'' \<or> 63 < partlen then False else nonNumeric)"
| "isDomainName_loop (c # s) prev nonNumeric partlen =
     (if 97 \<le> code_point c \<and> code_point c \<le> 122 \<or> 65 \<le> code_point c \<and> code_point c \<le> 90 \<or> c = CHR ''_''
      then isDomainName_loop s c True (partlen + 1)
      else if decimal c then isDomainName_loop s c nonNumeric (partlen + 1)
      else if c = CHR ''-'' then
        if prev = CHR ''.'' then False else isDomainName_loop s c True (partlen + 1)
      else if c = CHR ''.'' then
        if prev = CHR ''.'' \<or> prev = CHR ''-'' then False
        else if 63 < partlen \<or> partlen = 0 then False
        else isDomainName_loop s c nonNumeric 0
      else False)"

definition isDomainName :: "string \<Rightarrow> bool" where
  "isDomainName s =
     (if s = ''.'' then True
      else let l = length s
           in if l = 0 \<or> 254 < l \<or> l = 254 \<and> last s \<noteq> CHR ''.'' then False
              else isDomainName_loop s (CHR ''.'') False 0)"

subsection \<open>Lookup\<close>

definition lookupIPAddr :: "resolver \<Rightarrow> string \<Rightarrow> string \<Rightarrow> net_error + IPAddr list" where
  "lookupIPAddr resolve network host =
     (if host = [] then Inl (DNSError errNoSuchHost host)
      else case ParseAddr host of
             Inr ip \<Rightarrow>
               Inr [\<lparr>ia_IP = (case To16 (Addr_AsSlice ip) of Some p \<Rightarrow> p | None \<Rightarrow> []),
                     ia_Zone = Addr_Zone ip\<rparr>]
           | Inl _ \<Rightarrow> resolve network host)"

definition LookupIPAddr :: "resolver \<Rightarrow> string \<Rightarrow> net_error + IPAddr list" where
  "LookupIPAddr resolve host = lookupIPAddr resolve ''ip'' host"

definition LookupIP :: "resolver \<Rightarrow> string \<Rightarrow> net_error + IP list" where
  "LookupIP resolve host =
     (case LookupIPAddr resolve host of Inl e \<Rightarrow> Inl e | Inr addrs \<Rightarrow> Inr (map ia_IP addrs))"

subsection \<open>Address lists\<close>

definition isIPv4 :: "netaddr \<Rightarrow> bool" where
  "isIPv4 a =
     (case a of
        TCPAddr ip _ _ \<Rightarrow> To4 ip \<noteq> None
      | UDPAddr ip _ _ \<Rightarrow> To4 ip \<noteq> None
      | IPAddrOf ip _ \<Rightarrow> To4 ip \<noteq> None
      | UnixAddr _ _ \<Rightarrow> False)"

definition isNotIPv4 :: "netaddr \<Rightarrow> bool" where
  "isNotIPv4 a \<longleftrightarrow> \<not> isIPv4 a"

fun addrList_first_loop :: "(netaddr \<Rightarrow> bool) \<Rightarrow> netaddr list \<Rightarrow> netaddr option" where
  "addrList_first_loop strategy [] = None"
| "addrList_first_loop strategy (a # addrs) =
     (if strategy a then Some a else addrList_first_loop strategy addrs)"

text \<open>On an empty list \<^verbatim>\<open>addrs[0]\<close> panics, here \<^term>\<open>None\<close>.\<close>

definition addrList_first :: "(netaddr \<Rightarrow> bool) \<Rightarrow> netaddr list \<Rightarrow> netaddr option" where
  "addrList_first strategy addrs =
     (case addrList_first_loop strategy addrs of
        Some a \<Rightarrow> Some a
      | None \<Rightarrow> if addrs = [] then None else Some (hd addrs))"

definition forResolve :: "string \<Rightarrow> string \<Rightarrow> netaddr list \<Rightarrow> netaddr option" where
  "forResolve network a addrs =
     (let want6 = (if network = ''ip'' then 0 < length (filter ((=) (CHR '':'')) a)
                   else if network = ''tcp'' \<or> network = ''udp'' then 0 < length (filter ((=) (CHR ''['')) a)
                   else False)
      in if want6 then addrList_first isNotIPv4 addrs else addrList_first isIPv4 addrs)"

fun partition_loop ::
  "(netaddr \<Rightarrow> bool) \<Rightarrow> nat \<Rightarrow> bool \<Rightarrow> netaddr list \<Rightarrow> netaddr list \<times> netaddr list" where
  "partition_loop strategy i primaryLabel [] = ([], [])"
| "partition_loop strategy i primaryLabel (a # addrs) =
     (let label = strategy a
      in if i = 0 \<or> label = primaryLabel
         then let (p, f) = partition_loop strategy (i + 1) label addrs in (a # p, f)
         else let (p, f) = partition_loop strategy (i + 1) primaryLabel addrs in (p, a # f))"

definition addrList_partition :: "(netaddr \<Rightarrow> bool) \<Rightarrow> netaddr list \<Rightarrow> netaddr list \<times> netaddr list" where
  "addrList_partition strategy addrs = partition_loop strategy 0 False addrs"

definition ipv4only :: "IPAddr \<Rightarrow> bool" where
  "ipv4only a \<longleftrightarrow> To4 (ia_IP a) \<noteq> None"

definition ipv6only :: "IPAddr \<Rightarrow> bool" where
  "ipv6only a \<longleftrightarrow> length (ia_IP a) = IPv6len \<and> To4 (ia_IP a) = None"

definition filterAddrList ::
  "(IPAddr \<Rightarrow> bool) option \<Rightarrow> IPAddr list \<Rightarrow> (IPAddr \<Rightarrow> netaddr) \<Rightarrow> string \<Rightarrow> net_error + netaddr list" where
  "filterAddrList flt ips inetaddr originalAddr =
     (let addrs = map inetaddr (case flt of None \<Rightarrow> ips | Some f \<Rightarrow> filter f ips)
      in if addrs = [] then Inl (AddrErr (AddrError errNoSuitableAddress originalAddr)) else Inr addrs)"

definition tcp_nets :: "string list" where "tcp_nets = [''tcp'', ''tcp4'', ''tcp6'']"
definition udp_nets :: "string list" where "udp_nets = [''udp'', ''udp4'', ''udp6'']"
definition ip_nets :: "string list" where "ip_nets = [''ip'', ''ip4'', ''ip6'']"
definition unix_nets :: "string list" where "unix_nets = [''unix'', ''unixgram'', ''unixpacket'']"

definition internetAddrList ::
  "resolver \<Rightarrow> (string \<Rightarrow> string \<Rightarrow> net_error + int) \<Rightarrow> string \<Rightarrow> string \<Rightarrow> net_error + netaddr list" where
  "internetAddrList resolve lookupPort net a =
     (let hostport =
            (if net \<in> set (tcp_nets @ udp_nets) then
               if a = [] then Inr ([], 0)
               else (case SplitHostPort a of
                       Inl e \<Rightarrow> Inl (AddrErr e)
                     | Inr (host, port) \<Rightarrow>
                         (case LookupPort lookupPort net port of
                            Inl e \<Rightarrow> Inl e | Inr portnum \<Rightarrow> Inr (host, portnum)))
             else if net \<in> set ip_nets then Inr (a, 0)
             else Inl (UnknownNetworkError net))
      in case hostport of
           Inl e \<Rightarrow> Inl e
         | Inr (host, portnum) \<Rightarrow>
             let inetaddr = (\<lambda>ip. if net \<in> set tcp_nets then TCPAddr (ia_IP ip) portnum (ia_Zone ip)
                                  else if net \<in> set udp_nets then UDPAddr (ia_IP ip) portnum (ia_Zone ip)
                                  else IPAddrOf (ia_IP ip) (ia_Zone ip))
             in if host = [] then Inr [inetaddr \<lparr>ia_IP = [], ia_Zone = []\<rparr>]
                else case lookupIPAddr resolve net host of
                       Inl e \<Rightarrow> Inl e
                     | Inr ips0 \<Rightarrow>
                         let ips = (if length ips0 = 1 \<and> IP_Equal (ia_IP (hd ips0)) IPv6unspecified
                                    then ips0 @ [\<lparr>ia_IP = IPv4zero, ia_Zone = []\<rparr>] else ips0);
                             flt = (if last net = CHR ''4'' then Some ipv4only
                                    else if last net = CHR ''6'' then Some ipv6only else None)
                         in filterAddrList flt ips inetaddr host)"

definition loopbackIP :: "string \<Rightarrow> IP" where
  "loopbackIP net = (if net \<noteq> [] \<and> last net = CHR ''6'' then IPv6loopback else [127, 0, 0, 1])"

definition netaddr_Network :: "netaddr \<Rightarrow> string" where
  "netaddr_Network a =
     (case a of TCPAddr _ _ _ \<Rightarrow> ''tcp'' | UDPAddr _ _ _ \<Rightarrow> ''udp'' | IPAddrOf _ _ \<Rightarrow> ''ip'' | UnixAddr _ n \<Rightarrow> n)"

definition netaddr_String :: "netaddr \<Rightarrow> string" where
  "netaddr_String a =
     (let hostport = (\<lambda>ip port zone.
            if zone \<noteq> [] then JoinHostPort (ipEmptyString ip @ ''%'' @ zone) (Itoa port)
            else JoinHostPort (ipEmptyString ip) (Itoa port))
      in case a of
           TCPAddr ip port zone \<Rightarrow> hostport ip port zone
         | UDPAddr ip port zone \<Rightarrow> hostport ip port zone
         | IPAddrOf ip zone \<Rightarrow> if zone \<noteq> [] then ipEmptyString ip @ ''%'' @ zone else ipEmptyString ip
         | UnixAddr name _ \<Rightarrow> name)"

definition netaddr_isWildcard :: "netaddr \<Rightarrow> bool" where
  "netaddr_isWildcard a =
     (case a of
        TCPAddr ip _ _ \<Rightarrow> ip = [] \<or> IP_IsUnspecified ip
      | UDPAddr ip _ _ \<Rightarrow> ip = [] \<or> IP_IsUnspecified ip
      | IPAddrOf ip _ \<Rightarrow> ip = [] \<or> IP_IsUnspecified ip
      | UnixAddr name _ \<Rightarrow> name = [])"

definition parseNetwork ::
  "(string \<Rightarrow> net_error + nat) \<Rightarrow> string \<Rightarrow> bool \<Rightarrow> net_error + (string \<times> nat)" where
  \<comment> \<open>the first argument is the protocol table, \<^verbatim>\<open>lookupProtocol\<close>\<close>
  "parseNetwork lookupProtocol network needsProto =
     (case LastIndexByteString network (CHR '':'') of
        None \<Rightarrow>
          if network \<in> set (tcp_nets @ udp_nets @ unix_nets) then Inr (network, 0)
          else if network \<in> set ip_nets then
            if needsProto then Inl (UnknownNetworkError network) else Inr (network, 0)
          else Inl (UnknownNetworkError network)
      | Some i \<Rightarrow>
          if take i network \<in> set ip_nets then
            let protostr = drop (i + 1) network; (proto, k, ok) = dtoi protostr
            in if \<not> ok \<or> k \<noteq> length protostr
               then (case lookupProtocol protostr of Inl e \<Rightarrow> Inl e | Inr p \<Rightarrow> Inr (take i network, p))
               else Inr (take i network, proto)
          else Inl (UnknownNetworkError network))"

text \<open>\<^verbatim>\<open>resolveAddrList\<close> with the local address (\<^verbatim>\<open>hint\<close>) as an option.\<close>

definition resolveAddrList ::
  "resolver \<Rightarrow> (string \<Rightarrow> string \<Rightarrow> net_error + int) \<Rightarrow> (string \<Rightarrow> net_error + nat)
   \<Rightarrow> string \<Rightarrow> string \<Rightarrow> string \<Rightarrow> netaddr option \<Rightarrow> net_error + netaddr list" where
  "resolveAddrList resolve lookupPort lookupProtocol op network a hint =
     (case parseNetwork lookupProtocol network True of
        Inl e \<Rightarrow> Inl e
      | Inr (afnet, _) \<Rightarrow>
          if op = ''dial'' \<and> a = [] then Inl errMissingAddress
          else if afnet \<in> set unix_nets then
            (case hint of
               Some h \<Rightarrow>
                 if op = ''dial'' \<and> afnet \<noteq> netaddr_Network h
                 then Inl (AddrErr (AddrError ''mismatched local address type'' (netaddr_String h)))
                 else Inr [UnixAddr a afnet]
             | None \<Rightarrow> Inr [UnixAddr a afnet])
          else case internetAddrList resolve lookupPort afnet a of
                 Inl e \<Rightarrow> Inl e
               | Inr addrs \<Rightarrow>
                   (case hint of
                      None \<Rightarrow> Inr addrs
                    | Some h \<Rightarrow>
                        if op \<noteq> ''dial'' then Inr addrs
                        else if list_ex (\<lambda>b. netaddr_Network b \<noteq> netaddr_Network h) addrs
                        then Inl (AddrErr (AddrError ''mismatched local address type'' (netaddr_String h)))
                        else let naddrs = filter (\<lambda>b. netaddr_isWildcard h \<or> netaddr_isWildcard b
                                                   \<or> matchAddrFamily (na_IP b) (na_IP h)) addrs
                             in if naddrs = []
                                then Inl (AddrErr (AddrError errNoSuitableAddress (netaddr_String h)))
                                else Inr naddrs))"

text \<open>The addresses that \<^verbatim>\<open>Dial\<close> tries: the primaries in order and, after the first delay, the
  fallbacks.\<close>

definition dialAddrs ::
  "resolver \<Rightarrow> (string \<Rightarrow> string \<Rightarrow> net_error + int) \<Rightarrow> (string \<Rightarrow> net_error + nat)
   \<Rightarrow> bool \<Rightarrow> string \<Rightarrow> string \<Rightarrow> net_error + (netaddr list \<times> netaddr list)" where
  "dialAddrs resolve lookupPort lookupProtocol dualStack network a =
     (case resolveAddrList resolve lookupPort lookupProtocol ''dial'' network a None of
        Inl e \<Rightarrow> Inl e
      | Inr addrs \<Rightarrow>
          if dualStack \<and> network = ''tcp'' then Inr (addrList_partition isIPv4 addrs) else Inr (addrs, []))"

subsection \<open>Numbers in decimal\<close>

definition decValue :: "nat \<Rightarrow> string \<Rightarrow> nat" where
  "decValue = foldl (\<lambda>a c. a * 10 + (code_point c - 48))"

lemma decValue_simps [simp]:
  "decValue a [] = a" "decValue a (c # s) = decValue (a * 10 + (code_point c - 48)) s"
  "decValue a (s @ t) = decValue (decValue a s) t"
  by (simp_all add: decValue_def)

lemma decValue_mono: "a \<le> decValue a s"
proof (induction s arbitrary: a)
  case (Cons c s)
  have "a \<le> a * 10 + (code_point c - 48)" by simp
  also have "\<dots> \<le> decValue (a * 10 + (code_point c - 48)) s" by (rule Cons)
  finally show ?case by simp
qed simp

lemma digit_of_char: "d < 10 \<Longrightarrow> code_point (char_of (48 + d) :: char) = 48 + d"
  by simp

lemma Uitoa_loop_digits:
  "\<exists>ds. Uitoa_loop v buf = ds @ buf \<and> ds \<noteq> [] \<and> list_all (\<lambda>c. decimal c) ds \<and> decValue 0 ds = v"
proof (induction v buf rule: Uitoa_loop.induct)
  case (1 v buf)
  show ?case
  proof (cases "10 \<le> v")
    case True
    let ?c = "char_of (48 + v - v div 10 * 10) :: char"
    have d: "48 + v - v div 10 * 10 = 48 + v mod 10" "v mod 10 < 10"
      using minus_div_mult_eq_mod [of v 10] by simp_all
    then have c: "code_point ?c = 48 + v mod 10" by (simp only: digit_of_char)
    obtain ds where ds: "Uitoa_loop (v div 10) (?c # buf) = ds @ ?c # buf" "ds \<noteq> []"
      "list_all (\<lambda>c. decimal c) ds" "decValue 0 ds = v div 10"
      using 1 [OF True refl] by blast
    moreover have "decimal ?c" using c d by simp
    ultimately show ?thesis
      using True c by (intro exI [of _ "ds @ [?c]"]) (simp add: Uitoa_loop.simps [of v] Let_def)
  next
    case False
    then have "code_point (char_of (48 + v) :: char) = 48 + v" by simp
    then show ?thesis
      using False by (intro exI [of _ "[char_of (48 + v)]"]) (auto simp: Uitoa_loop.simps [of v])
  qed
qed

lemma Uitoa_digits:
  "Uitoa v \<noteq> [] \<and> list_all (\<lambda>c. decimal c) (Uitoa v) \<and> decValue 0 (Uitoa v) = v"
  using Uitoa_loop_digits [of v "[]"] by (auto simp: Uitoa_def)

lemma decimal_not: "decimal c \<Longrightarrow> c \<noteq> CHR '':'' \<and> c \<noteq> CHR ''['' \<and> c \<noteq> CHR '']'' \<and> c \<noteq> CHR ''+'' \<and> c \<noteq> CHR ''-''"
  by auto

lemma Uitoa_chars:
  "CHR '':'' \<notin> set (Uitoa v)" "no_brackets (Uitoa v)"
  using Uitoa_digits [of v] decimal_not by (auto simp: list_all_iff no_brackets_def)

lemma parsePort_loop_append:
  assumes "list_all (\<lambda>c. decimal c) s" and "decValue (unat n) s < 2 ^ 30"
  shows "parsePort_loop (s @ t) n = parsePort_loop t (of_nat (decValue (unat n) s))"
  using assms
proof (induction s arbitrary: n)
  case (Cons c s)
  obtain d where d: "code_point c = 48 + d" "d \<le> 9"
    using Cons.prems(1) le_Suc_ex [of 48 "code_point c"] by auto
  let ?m = "unat n * 10 + d"
  have m: "?m < 2 ^ 30" using decValue_mono [of ?m s] Cons.prems(2) d by simp
  have n: "n < portCutoff"
    using m by (simp add: word_less_nat_alt portCutoff_def)
  have u10: "unat (n * 10) = unat n * 10" using m by (simp add: unat_word_ariths)
  have um: "unat (n * 10 + of_nat d) = ?m"
    using m d(2) by (simp add: unat_word_ariths unat_of_nat take_bit_eq_mod)
  then have "\<not> n * 10 + of_nat d < n * 10"
    by (simp only: word_less_nat_alt u10)
  then have "parsePort_loop ((c # s) @ t) n = parsePort_loop (s @ t) (n * 10 + of_nat d)"
    using n d by (auto simp: Let_def)
  also have "\<dots> = parsePort_loop t (of_nat (decValue (unat n) (c # s)))"
    using Cons.IH [of "n * 10 + of_nat d"] Cons.prems um d by simp
  finally show ?case .
qed simp

lemma parsePort_Uitoa:
  assumes "v < 2 ^ 30"
  shows "parsePort (Uitoa v) = (int v, False)"
proof -
  note u = Uitoa_digits [of v]
  have "hd (Uitoa v) \<noteq> CHR ''+''" "hd (Uitoa v) \<noteq> CHR ''-''"
    using u decimal_not by (cases "Uitoa v"; auto)+
  moreover have "parsePort_loop (Uitoa v) 0 = Some (of_nat v)"
    using parsePort_loop_append [of "Uitoa v" 0 "[]"] u assms by simp
  moreover have "uint (of_nat v :: u32) = int v" "\<not> portCutoff \<le> of_nat v"
    using assms by (simp_all add: uint_nat unat_of_nat take_bit_eq_mod word_le_nat_alt portCutoff_def)
  ultimately show ?thesis using u by (simp add: parsePort_def Let_def)
qed

lemma LookupPort_Uitoa_value: "v \<le> 65535 \<Longrightarrow> LookupPort lookupPort net (Uitoa v) = Inr (int v)"
  by (simp add: LookupPort_def parsePort_Uitoa)

subsection \<open>Address lists\<close>

lemma partition_loop_filter:
  "partition_loop strategy (Suc i) label addrs =
     (filter (\<lambda>b. strategy b = label) addrs, filter (\<lambda>b. strategy b \<noteq> label) addrs)"
  by (induction addrs arbitrary: i) (simp_all add: Let_def)

lemma addrList_partition_set:
  "addrList_partition strategy addrs = (p, f) \<Longrightarrow> set p \<union> set f = set addrs"
  by (cases addrs) (auto simp: addrList_partition_def partition_loop_filter Let_def)

subsection \<open>Properties\<close>

text \<open>C26: the text of a port number is looked up as that number, without the table of services,
  on every network; so is any number below the cut-off by \<^verbatim>\<open>parsePort\<close>.\<close>

theorem LookupPort_Uitoa:
  assumes "v \<le> 65535" and "w < 2 ^ 30"
  shows "LookupPort lookupPort net (Uitoa v) = Inr (int v) \<and> parsePort (Uitoa w) = (int w, False)"
  using assms LookupPort_Uitoa_value parsePort_Uitoa by blast

theorem LookupPort_Uitoa_witness:
  "LookupPort (\<lambda>net service. Inl errMissingAddress) ''tcp'' (Uitoa 443) = Inr (int 443)"
  by (rule LookupPort_Uitoa [THEN conjunct1, of _ 0]) simp_all

text \<open>Above the cut-off the parser is wrong: the product \<^verbatim>\<open>n *= 10\<close> is taken modulo \<open>2 ^ 32\<close> before the test
  for an overflow, which only looks at the sum. The texts of the numbers from 4294967300 on are
  therefore read as ports, counted from \<open>2 ^ 32\<close>, where the comment says that large numbers are rejected.\<close>

lemma decValue_snoc: "decValue m (s @ [c]) = decValue m s * 10 + (code_point c - 48)"
  by (induction s arbitrary: m) simp_all

lemma parsePort_loop_wraps:
  assumes "list_all (\<lambda>c. decimal c) (s @ [c])" and "decValue 0 (s @ [c]) = 2 ^ 32 + p" and "4 \<le> p" and "p \<le> 65535"
  shows "parsePort_loop (s @ [c]) 0 = Some (of_nat p)"
proof -
  obtain d where d: "code_point c = 48 + d" "d \<le> 9"
    using assms(1) le_Suc_ex [of 48 "code_point c"] by auto
  let ?m = "decValue 0 s"
  have v: "?m * 10 + d = 4294967296 + p" using assms(2) d by (simp add: decValue_snoc)
  then have m: "?m < 2 ^ 30" "429496730 \<le> ?m" using assms(3,4) d(2) by simp_all
  let ?n = "of_nat ?m :: u32"
  have u10: "unat (?n * 10) = ?m * 10 - 4294967296"
  proof -
    have "unat (?n * 10) = ?m * 10 mod 4294967296" using m(1) by (simp add: unat_word_ariths unat_of_nat take_bit_eq_mod)
    moreover have "?m * 10 mod 4294967296 = (?m * 10 - 4294967296) mod 4294967296" using m(2) by (intro le_mod_geq) simp
    moreover have "?m * 10 - 4294967296 < 4294967296" using v assms(4) by linarith
    ultimately show ?thesis by simp
  qed
  have um: "unat (?n * 10 + of_nat d) = p"
  proof -
    have "unat (?n * 10 + of_nat d) = (unat (?n * 10) + d) mod 4294967296"
      using d(2) by (simp add: unat_word_ariths(1) [of "?n * 10"] unat_of_nat take_bit_eq_mod)
    moreover have "unat (?n * 10) + d = p" unfolding u10 using v m(2) by linarith
    ultimately show ?thesis using assms(4) by simp
  qed
  have "\<not> ?n * 10 + of_nat d < ?n * 10" unfolding word_less_nat_alt um u10 using v by linarith
  moreover have "\<not> portCutoff \<le> ?n" using m(1) by (simp add: word_le_nat_alt portCutoff_def unat_of_nat take_bit_eq_mod)
  moreover have "?n * 10 + of_nat d = of_nat p" using um by (metis of_nat_unat ucast_id)
  ultimately have "parsePort_loop [c] ?n = Some (of_nat p)" using d by (auto simp: Let_def)
  then show ?thesis using parsePort_loop_append [of s 0 "[c]"] assms(1) m(1) by simp
qed

lemma LookupPort_wraps:
  assumes "4 \<le> p" and "p \<le> 65535"
  shows "LookupPort lookupPort net (Uitoa (2 ^ 32 + p)) = Inr (int p)"
proof -
  let ?t = "Uitoa (2 ^ 32 + p)"
  note u = Uitoa_digits [of "2 ^ 32 + p"]
  have "?t \<noteq> []" using u by auto
  then obtain s c where sc: "?t = s @ [c]" by (metis rev_exhaust)
  have "hd ?t \<noteq> CHR ''+''" "hd ?t \<noteq> CHR ''-''"
    using u decimal_not by (cases ?t; auto)+
  moreover have "parsePort_loop ?t 0 = Some (of_nat p)"
    using parsePort_loop_wraps [OF _ _ assms, of s c] u unfolding sc by blast
  moreover have "uint (of_nat p :: u32) = int p" "\<not> portCutoff \<le> of_nat p"
    using assms by (simp_all add: uint_nat unat_of_nat take_bit_eq_mod word_le_nat_alt portCutoff_def)
  ultimately have "parsePort ?t = (int p, False)" using \<open>?t \<noteq> []\<close> by (simp add: parsePort_def Let_def)
  then show ?thesis using assms by (simp add: LookupPort_def)
qed

text \<open>\<^verbatim>\<open>partition\<close> splits a list without losing or reordering addresses: the primaries are the
  first address and all later ones with its label, the fallbacks are the others, each in
  the order of the list.\<close>

theorem addrList_partition_spec:
  "addrList_partition strategy (a # addrs) =
     (a # filter (\<lambda>b. strategy b = strategy a) addrs, filter (\<lambda>b. strategy b \<noteq> strategy a) addrs)"
  by (simp add: addrList_partition_def partition_loop_filter [of _ 0, simplified] Let_def)

end
