(* ===== verification/Proxy_Session.thy ===== *)
theory Proxy_Session
  imports Go_IO Go_Varint Go_SyncMap Rate_Limiter Net_Dial "HOL-Library.Monad_Syntax"
begin

text \<open>
  A session of the proxy (\<^verbatim>\<open>proxy/main.go\<close>, types \<^verbatim>\<open>Connection\<close> and \<^verbatim>\<open>Session\<close> and their methods).

  Each request arrives on a stream of its own (a \<open>reader\<close>), which \<^verbatim>\<open>acceptStreams\<close> hands to a
  goroutine (the \<open>streams\<close> of the state) that runs one of the \<^verbatim>\<open>handle\<close> methods; dialling,
  accepting and reading run in goroutines too, which are the \<open>tasks\<close> of the state. A \<^verbatim>\<open>*Connection\<close> is an index into the heap \<open>objs\<close>, a socket of the
  operating system an index into \<open>socks\<close>; the frames sent to the client are \<open>events\<close>.

  What the outside world answers is in the environment of a step: the resolver, the clock,
  whether \<^verbatim>\<open>OpenUniStream\<close> succeeds, the error text of a failed \<^verbatim>\<open>Listen\<close>, how many bytes a \<^verbatim>\<open>Write\<close>
  takes; and in the result given to a task: how a dial ends, what \<^verbatim>\<open>Accept\<close> and \<^verbatim>\<open>Read\<close> return.

  A handler is one step. It takes the limiter's mutex, uses the map of connections and
  sends an event at most once each, so finer interleavings reorder steps on different
  parts of the state. A goroutine makes one step per turn of its loop. A panic ends the
  process: the result is \<^term>\<open>None\<close>. The code ignores how the writes to an event stream end, and
  so does the model: an event is sent when its stream opens. Log output is left out, and so is the closing of the
  request stream at the end of \<^verbatim>\<open>handleStream\<close>, which carries no data back.
\<close>

subsection \<open>Messages\<close>

definition MsgConnect :: u64 where "MsgConnect = 0x01"
definition MsgBind :: u64 where "MsgBind = 0x02"
definition MsgListen :: u64 where "MsgListen = 0x03"
definition MsgSend :: u64 where "MsgSend = 0x04"
definition MsgClose :: u64 where "MsgClose = 0x05"
definition MsgSendTo :: u64 where "MsgSendTo = 0x06"

definition MsgConnected :: byte where "MsgConnected = 0x81"
definition MsgConnectError :: byte where "MsgConnectError = 0x82"
definition MsgData :: byte where "MsgData = 0x83"
definition MsgAccept :: byte where "MsgAccept = 0x84"
definition MsgClosed :: byte where "MsgClosed = 0x85"
definition MsgError :: byte where "MsgError = 0x86"
definition MsgRecvFrom :: byte where "MsgRecvFrom = 0x87"

definition SOCK_STREAM :: int where "SOCK_STREAM = 1"
definition SOCK_DGRAM :: int where "SOCK_DGRAM = 2"

lemmas msg_defs =
  MsgConnect_def MsgBind_def MsgListen_def MsgSend_def MsgClose_def MsgSendTo_def
  MsgConnected_def MsgConnectError_def MsgData_def MsgAccept_def MsgClosed_def MsgError_def
  MsgRecvFrom_def

subsection \<open>State\<close>

type_synonym connref = nat
type_synonym sockref = nat

record sock =
  sk_net :: string
  sk_addr :: string
  sk_open :: bool
  sk_sent :: "byte list"

record Connection =
  c_id :: u32
  c_sockType :: int
  c_conn :: "sockref option"
  c_listener :: "sockref option"
  c_udpConn :: "sockref option"
  c_closed :: bool

datatype task =
    DialTask connref u32 int string
  | AcceptTask connref u32
  | ReadTask connref

record Session =
  ctxDone :: bool
  connections :: "(u32, connref) SyncMap"
  nextConnID :: u32
  rateLimiter :: RateLimiter
  remoteIP :: string
  objs :: "Connection list"
  socks :: "sock list"
  events :: "byte list list"
  tasks :: "task list"
  streams :: "reader list"
  accepting :: bool

record session_env =
  env_resolve :: resolver
  env_now :: i64
  env_open :: bool
  env_listen :: "string option"
  env_written :: nat

text \<open>A new session, with the goroutine of \<^verbatim>\<open>acceptStreams\<close> started.\<close>

definition newSession :: "RateLimiter \<Rightarrow> string \<Rightarrow> Session" where
  "newSession rl ip =
     \<lparr>ctxDone = False, connections = SyncMap_zero, nextConnID = 0, rateLimiter = rl, remoteIP = ip,
      objs = [], socks = [], events = [], tasks = [], streams = [], accepting = True\<rparr>"

definition newConn :: "u32 \<Rightarrow> int \<Rightarrow> Connection" where
  \<comment> \<open>\<^verbatim>\<open>&Connection{id: connID, sockType: sockType}\<close>; the other fields have zero values.\<close>
  "newConn i t =
     \<lparr>c_id = i, c_sockType = t, c_conn = None, c_listener = None, c_udpConn = None, c_closed = False\<rparr>"

definition alloc :: "Connection \<Rightarrow> Session \<Rightarrow> connref \<times> Session" where
  "alloc c sess = (length (objs sess), sess\<lparr>objs := objs sess @ [c]\<rparr>)"

definition openSock :: "string \<Rightarrow> string \<Rightarrow> Session \<Rightarrow> sockref \<times> Session" where
  "openSock net addr sess =
     (length (socks sess),
      sess\<lparr>socks := socks sess @ [\<lparr>sk_net = net, sk_addr = addr, sk_open = True, sk_sent = []\<rparr>]\<rparr>)"

definition closeSock :: "sockref option \<Rightarrow> Session \<Rightarrow> Session" where
  \<comment> \<open>\<^verbatim>\<open>if c.conn != nil { c.conn.Close() }\<close> and its siblings\<close>
  "closeSock k sess =
     (case k of
        None \<Rightarrow> sess
      | Some i \<Rightarrow> sess\<lparr>socks := (socks sess)[i := (socks sess ! i)\<lparr>sk_open := False\<rparr>]\<rparr>)"

definition setObj :: "connref \<Rightarrow> Connection \<Rightarrow> Session \<Rightarrow> Session" where
  "setObj r c sess = sess\<lparr>objs := (objs sess)[r := c]\<rparr>"

definition spawn :: "task \<Rightarrow> Session \<Rightarrow> Session" where
  "spawn t sess = sess\<lparr>tasks := tasks sess @ [t]\<rparr>"

definition storeConn :: "u32 \<Rightarrow> connref \<Rightarrow> Session \<Rightarrow> Session" where
  "storeConn i r sess = sess\<lparr>connections := sm_store i r (connections sess)\<rparr>"

definition deleteConn :: "u32 \<Rightarrow> Session \<Rightarrow> Session" where
  "deleteConn i sess = sess\<lparr>connections := sm_del i (connections sess)\<rparr>"

subsection \<open>Reading requests\<close>

text \<open>A stream as an \<^verbatim>\<open>io.ByteReader\<close>: what a short read left in the one-byte buffer is returned
  too, so a call that delivers nothing and no error yields a zero byte.\<close>

definition byteReader_ReadByte :: "reader \<Rightarrow> byte \<times> io_error option \<times> reader" where
  "byteReader_ReadByte r =
     (let (got, err, r') = Read r 1
      in (case got of [] \<Rightarrow> 0 | b # _ \<Rightarrow> b, err, r'))"

definition slice_to :: "'a list \<Rightarrow> nat \<Rightarrow> 'a list option" where
  \<comment> \<open>\<^verbatim>\<open>s[:n]\<close> of a slice whose capacity is its length; panics out of range\<close>
  "slice_to s n = (if n \<le> length s then Some (take n s) else None)"

definition slice_from :: "'a list \<Rightarrow> nat \<Rightarrow> 'a list option" where
  "slice_from s n = (if n \<le> length s then Some (drop n s) else None)"

subsection \<open>Events\<close>

definition eventFrame :: "byte \<Rightarrow> u32 \<Rightarrow> byte list \<Rightarrow> byte list" where
  \<comment> \<open>the header and then the data, written only when there is some\<close>
  "eventFrame msgType connID data =
     msgType # bigEndian_AppendUint32 [] connID
       @ bigEndian_AppendUint32 [] (of_nat (length data))
       @ (if 0 < length data then data else [])"

definition sendEvent :: "session_env \<Rightarrow> byte \<Rightarrow> u32 \<Rightarrow> byte list \<Rightarrow> Session \<Rightarrow> Session" where
  "sendEvent env msgType connID data sess =
     (if \<not> env_open env then sess
      else sess\<lparr>events := events sess @ [eventFrame msgType connID data]\<rparr>)"

subsection \<open>Connections\<close>

definition Connection_Close :: "connref \<Rightarrow> Session \<Rightarrow> Session" where
  "Connection_Close r sess =
     (let c = objs sess ! r
      in if c_closed c then sess
         else closeSock (c_udpConn c) (closeSock (c_listener c) (closeSock (c_conn c)
                (setObj r (c\<lparr>c_closed := True\<rparr>) sess))))"

definition isPrivateAddr :: "resolver \<Rightarrow> string \<Rightarrow> bool" where
  "isPrivateAddr resolve host =
     (case LookupIP resolve host of
        Inl _ \<Rightarrow> False
      | Inr ips \<Rightarrow>
          list_ex (\<lambda>ip. IP_IsLoopback ip \<or> IP_IsPrivate ip \<or> IP_IsLinkLocalUnicast ip
                        \<or> IP_IsLinkLocalMulticast ip) ips)"

subsection \<open>The handlers\<close>

definition connectAddr :: "string \<Rightarrow> u16 \<Rightarrow> string" where
  \<comment> \<open>\<^verbatim>\<open>fmt.Sprintf("%s:%d", host, port)\<close>\<close>
  "connectAddr host port = host @ '':'' @ Uitoa (unat port)"

definition startConnect :: "session_env \<Rightarrow> u32 \<Rightarrow> int \<Rightarrow> string \<Rightarrow> u16 \<Rightarrow> Session \<Rightarrow> Session" where
  "startConnect env connID sockType host port sess =
     (if isPrivateAddr (env_resolve env) host
      then sendEvent env MsgConnectError connID
             (bytes_of_string ''connection to private addresses not allowed'') sess
      else
        let (ok, rl) = TryConnection (rateLimiter sess) (remoteIP sess) (env_now env);
            sess = sess\<lparr>rateLimiter := rl\<rparr>
        in if \<not> ok
           then sendEvent env MsgConnectError connID
                  (bytes_of_string ''daily connection limit exceeded'') sess
           else
             let (r, sess) = alloc (newConn connID sockType) sess
             in spawn (DialTask r connID sockType (connectAddr host port)) (storeConn connID r sess))"

definition handleConnect :: "session_env \<Rightarrow> reader \<Rightarrow> Session \<Rightarrow> Session option" where
  "handleConnect env stream sess =
     (case ReadFull stream (4 + 1 + 2) of
        (_, Some err, _) \<Rightarrow> Some sess
      | (header, None, stream) \<Rightarrow> do {
          connID \<leftarrow> bigEndian_Uint32 (take 4 header);
          let sockType = uint (header ! 4);
          hostLen \<leftarrow> bigEndian_Uint16 (drop 5 header);
          (case ReadFull stream (unat (hostLen + 2)) of
             (_, Some err, _) \<Rightarrow> Some sess
           | (hostBuf, None, _) \<Rightarrow> do {
               hostBytes \<leftarrow> slice_to hostBuf (unat hostLen);
               portBytes \<leftarrow> slice_from hostBuf (unat hostLen);
               port \<leftarrow> bigEndian_Uint16 portBytes;
               Some (startConnect env connID sockType (string_of_bytes hostBytes) port sess)
             })
        })"

definition handleBind :: "session_env \<Rightarrow> reader \<Rightarrow> Session \<Rightarrow> Session option" where
  "handleBind env stream sess =
     (case ReadFull stream (4 + 1 + 2) of
        (_, Some err, _) \<Rightarrow> Some sess
      | (header, None, _) \<Rightarrow> do {
          connID \<leftarrow> bigEndian_Uint32 (take 4 header);
          let sockType = uint (header ! 4);
          port \<leftarrow> bigEndian_Uint16 (drop 5 header);
          let addr = '':'' @ Uitoa (unat port);
          (case env_listen env of
             Some err \<Rightarrow> Some (sendEvent env MsgError connID (bytes_of_string err) sess)
           | None \<Rightarrow>
               let (k, sess) = openSock (if sockType = SOCK_STREAM then ''tcp'' else ''udp'') addr sess;
                   conn = (if sockType = SOCK_STREAM
                           then (newConn connID sockType)\<lparr>c_listener := Some k\<rparr>
                           else (newConn connID sockType)\<lparr>c_udpConn := Some k\<rparr>);
                   (r, sess) = alloc conn sess
               in Some (sendEvent env MsgConnected connID [] (storeConn connID r sess)))
        })"

definition handleListen :: "session_env \<Rightarrow> reader \<Rightarrow> Session \<Rightarrow> Session option" where
  "handleListen env stream sess =
     (case ReadFull stream 8 of
        (_, Some err, _) \<Rightarrow> Some sess
      | (header, None, _) \<Rightarrow> do {
          connID \<leftarrow> bigEndian_Uint32 (take 4 header);
          let (v, m) = Load (connections sess) connID;
          let sess = sess\<lparr>connections := m\<rparr>;
          (case v of
             None \<Rightarrow> Some sess
           | Some r \<Rightarrow>
               if c_listener (objs sess ! r) = None then Some sess
               else Some (spawn (AcceptTask r connID) sess))
        })"

definition handleSend :: "session_env \<Rightarrow> reader \<Rightarrow> Session \<Rightarrow> Session option" where
  "handleSend env stream sess =
     (case ReadFull stream 8 of
        (_, Some err, _) \<Rightarrow> Some sess
      | (header, None, stream) \<Rightarrow> do {
          connID \<leftarrow> bigEndian_Uint32 (take 4 header);
          dataLen \<leftarrow> bigEndian_Uint32 (drop 4 header);
          (case ReadFull stream (unat dataLen) of
             (_, Some err, _) \<Rightarrow> Some sess
           | (data, None, _) \<Rightarrow>
               let (v, m) = Load (connections sess) connID;
                   sess = sess\<lparr>connections := m\<rparr>
               in case v of
                    None \<Rightarrow> Some sess
                  | Some r \<Rightarrow>
                      (case c_conn (objs sess ! r) of
                         None \<Rightarrow> Some sess
                       | Some k \<Rightarrow>
                           let s = socks sess ! k
                           in if sk_open s
                              then Some (sess\<lparr>socks := (socks sess)[k := s\<lparr>sk_sent := sk_sent s @ take (env_written env) data\<rparr>]\<rparr>)
                              else Some sess))
        })"

definition handleClose :: "session_env \<Rightarrow> reader \<Rightarrow> Session \<Rightarrow> Session option" where
  "handleClose env stream sess =
     (case ReadFull stream 4 of
        (_, Some err, _) \<Rightarrow> Some sess
      | (header, None, _) \<Rightarrow> do {
          connID \<leftarrow> bigEndian_Uint32 header;
          let (v, m) = LoadAndDelete (connections sess) connID;
          let sess = sess\<lparr>connections := m\<rparr>;
          let sess = (case v of None \<Rightarrow> sess | Some r \<Rightarrow> Connection_Close r sess);
          Some (sendEvent env MsgClosed connID [] sess)
        })"

definition handleStream :: "session_env \<Rightarrow> reader \<Rightarrow> Session \<Rightarrow> Session option" where
  "handleStream env stream sess =
     (case ReadUvarint byteReader_ReadByte stream of
        (_, Some err, _) \<Rightarrow> Some sess
      | (msgType, None, stream) \<Rightarrow>
          if msgType = MsgConnect then handleConnect env stream sess
          else if msgType = MsgBind then handleBind env stream sess
          else if msgType = MsgListen then handleListen env stream sess
          else if msgType = MsgSend then handleSend env stream sess
          else if msgType = MsgClose then handleClose env stream sess
          else Some sess)"

subsection \<open>The goroutines\<close>

text \<open>The goroutine of \<^verbatim>\<open>handleConnect\<close>: the dial has ended, with an error text or a connection.\<close>

definition dialDone ::
  "session_env \<Rightarrow> string option \<Rightarrow> connref \<Rightarrow> u32 \<Rightarrow> int \<Rightarrow> string \<Rightarrow> Session \<Rightarrow> Session" where
  "dialDone env err r connID sockType addr sess =
     (case err of
        Some e \<Rightarrow> deleteConn connID (sendEvent env MsgConnectError connID (bytes_of_string e) sess)
      | None \<Rightarrow>
          let (k, sess) = openSock (if sockType = SOCK_STREAM then ''tcp'' else ''udp'') addr sess;
              c = objs sess ! r
          in if c_closed c then closeSock (Some k) sess
             else
               let sess = setObj r (c\<lparr>c_conn := Some k\<rparr>) sess
               in spawn (ReadTask r) (sendEvent env MsgConnected connID [] sess))"

definition acceptPayload :: "u32 \<Rightarrow> u32 \<Rightarrow> string \<Rightarrow> byte list" where
  "acceptPayload connID newConnID remoteAddr =
     bigEndian_AppendUint32 [] connID @ bigEndian_AppendUint32 [] newConnID
       @ bigEndian_AppendUint16 [] (of_nat (length remoteAddr)) @ bytes_of_string remoteAddr"

text \<open>One turn of the accept loop of \<^verbatim>\<open>handleListen\<close>: \<^verbatim>\<open>Accept\<close> failed, or returned a connection
  from \<open>remoteAddr\<close>. The result says whether the loop goes on.\<close>

definition acceptTurn ::
  "session_env \<Rightarrow> string option \<Rightarrow> connref \<Rightarrow> u32 \<Rightarrow> Session \<Rightarrow> bool \<times> Session" where
  "acceptTurn env accepted r connID sess =
     (case accepted of
        None \<Rightarrow> (\<not> c_closed (objs sess ! r), sess)
      | Some remoteAddr \<Rightarrow>
          let newConnID = nextConnID sess + 1;
              sess = sess\<lparr>nextConnID := newConnID\<rparr>;
              (k, sess) = openSock ''tcp'' remoteAddr sess;
              (r', sess) = alloc ((newConn newConnID SOCK_STREAM)\<lparr>c_conn := Some k\<rparr>) sess;
              sess = storeConn newConnID r' sess;
              sess = sendEvent env MsgAccept newConnID (acceptPayload connID newConnID remoteAddr) sess
          in (True, spawn (ReadTask r') sess))"

datatype read_error = Timeout | EndOfFile | OtherReadError

text \<open>One turn of \<^verbatim>\<open>readLoop\<close>, given what \<^verbatim>\<open>Read\<close> stored in the buffer of 65536 bytes and its error.\<close>

definition readTurn ::
  "session_env \<Rightarrow> byte list \<Rightarrow> read_error option \<Rightarrow> connref \<Rightarrow> Session \<Rightarrow> bool \<times> Session" where
  "readTurn env got err r sess =
     (let c = objs sess ! r
      in if c_closed c then (False, sess)
         else if c_conn c = None then (False, sess)
         else case err of
                Some Timeout \<Rightarrow> (True, sess)
              | Some _ \<Rightarrow> (False, sendEvent env MsgClosed (c_id c) [] sess)
              | None \<Rightarrow>
                  let data = take 65536 got
                  in (True, if 0 < length data then sendEvent env MsgData (c_id c) data sess else sess))"

subsection \<open>Sessions as state machines\<close>

datatype label =
    StreamComes "reader option"
  | StreamRuns nat
  | DialEnds nat "string option"
  | Accepts nat "string option"
  | Reads nat "byte list" "read_error option"

definition endTask :: "nat \<Rightarrow> Session \<Rightarrow> Session" where
  "endTask i sess = sess\<lparr>tasks := take i (tasks sess) @ drop (Suc i) (tasks sess)\<rparr>"

text \<open>One turn of \<^verbatim>\<open>acceptStreams\<close>: \<^verbatim>\<open>AcceptStream\<close> failed, which ends the loop whether or not the
  context is done, or returned a stream, which gets a goroutine.\<close>

definition acceptStreams :: "reader option \<Rightarrow> Session \<Rightarrow> bool \<times> Session" where
  "acceptStreams stream sess =
     (case stream of
        None \<Rightarrow> (False, sess)
      | Some r \<Rightarrow> (True, sess\<lparr>streams := streams sess @ [r]\<rparr>))"

definition endStream :: "nat \<Rightarrow> Session \<Rightarrow> Session" where
  "endStream i sess = sess\<lparr>streams := take i (streams sess) @ drop (Suc i) (streams sess)\<rparr>"

text \<open>A label that does not name a goroutine of its kind has no effect.\<close>

definition session_step :: "session_env \<Rightarrow> label \<Rightarrow> Session \<Rightarrow> Session option" where
  "session_step env l sess =
     (case l of
        StreamComes stream \<Rightarrow>
          (if accepting sess
           then case acceptStreams stream sess of
                  (True, sess') \<Rightarrow> Some sess'
                | (False, sess') \<Rightarrow> Some (sess'\<lparr>accepting := False\<rparr>)
           else Some sess)
      | StreamRuns i \<Rightarrow>
          (if i < length (streams sess) then handleStream env (streams sess ! i) (endStream i sess) else Some sess)
      | DialEnds i err \<Rightarrow>
          (if i < length (tasks sess)
           then case tasks sess ! i of
                  DialTask r connID sockType addr \<Rightarrow>
                    Some (dialDone env err r connID sockType addr (endTask i sess))
                | _ \<Rightarrow> Some sess
           else Some sess)
      | Accepts i accepted \<Rightarrow>
          (if i < length (tasks sess)
           then case tasks sess ! i of
                  AcceptTask r connID \<Rightarrow>
                    (case acceptTurn env accepted r connID sess of
                       (True, sess') \<Rightarrow> Some sess'
                     | (False, sess') \<Rightarrow> Some (endTask i sess'))
                | _ \<Rightarrow> Some sess
           else Some sess)
      | Reads i got err \<Rightarrow>
          (if i < length (tasks sess)
           then case tasks sess ! i of
                  ReadTask r \<Rightarrow>
                    (case readTurn env got err r sess of
                       (True, sess') \<Rightarrow> Some sess'
                     | (False, sess') \<Rightarrow> Some (endTask i sess'))
                | _ \<Rightarrow> Some sess
           else Some sess))"

text \<open>What \<^verbatim>\<open>handleSession\<close> does when the transport is gone: cancel the context and close every
  connection of the table.\<close>

definition cancel :: "Session \<Rightarrow> Session" where
  "cancel sess = sess\<lparr>ctxDone := True\<rparr>"

definition closeConns :: "Session \<Rightarrow> Session" where
  "closeConns sess =
     (let (sess', m) = Range (connections sess) (\<lambda>connID r s. (True, Connection_Close r s)) sess
      in sess'\<lparr>connections := m\<rparr>)"

definition closeAll :: "Session \<Rightarrow> Session" where
  "closeAll sess = closeConns (cancel sess)"

text \<open>The reachable states of a session; other sessions and the API use the same limiter.\<close>

inductive reachable :: "Session \<Rightarrow> bool" where
  reachable_new: "reachable (newSession rl ip)"
| reachable_step: "reachable s \<Longrightarrow> session_step env l s = Some s' \<Longrightarrow> reachable s'"
| reachable_limiter: "reachable s \<Longrightarrow> reachable (s\<lparr>rateLimiter := rl\<rparr>)"
| reachable_closeAll: "reachable s \<Longrightarrow> reachable (closeAll s)"

fun session_run :: "(session_env \<times> label) list \<Rightarrow> Session \<Rightarrow> Session option" where
  "session_run [] sess = Some sess"
| "session_run ((env, l) # ls) sess =
     (case session_step env l sess of None \<Rightarrow> None | Some sess' \<Rightarrow> session_run ls sess')"

end
