(* ===== verification/Go_Strconv.thy ===== *)
theory Go_Strconv
  imports Go_Prelude
begin

text \<open>
  Reading integers, as in \<^verbatim>\<open>strconv/atoi.go\<close>: \<^verbatim>\<open>ParseUint\<close>, \<^verbatim>\<open>ParseInt\<close> and \<^verbatim>\<open>Atoi\<close>. A result is a value
  and an error, both present when a value is out of range. Values keep their 64 bits; \<^verbatim>\<open>int\<close> is a
  64-bit type here, so \<^verbatim>\<open>IntSize\<close> is 64.
\<close>

datatype num_reason = ErrRange | ErrSyntax | ErrBase int | ErrBitSize int

record NumError =
  Func :: string
  Num :: string
  Err :: num_reason

definition lower :: "byte \<Rightarrow> byte" where
  "lower c = c OR (byte_of_char CHR ''x'' - byte_of_char CHR ''X'')"

definition syntaxError :: "string \<Rightarrow> string \<Rightarrow> NumError" where
  "syntaxError fn str = \<lparr>Func = fn, Num = str, Err = ErrSyntax\<rparr>"

definition rangeError :: "string \<Rightarrow> string \<Rightarrow> NumError" where
  "rangeError fn str = \<lparr>Func = fn, Num = str, Err = ErrRange\<rparr>"

definition baseError :: "string \<Rightarrow> string \<Rightarrow> int \<Rightarrow> NumError" where
  "baseError fn str base = \<lparr>Func = fn, Num = str, Err = ErrBase base\<rparr>"

definition bitSizeError :: "string \<Rightarrow> string \<Rightarrow> int \<Rightarrow> NumError" where
  "bitSizeError fn str bitSize = \<lparr>Func = fn, Num = str, Err = ErrBitSize bitSize\<rparr>"

definition IntSize :: int where
  "IntSize = 64"

definition maxUint64 :: u64 where
  "maxUint64 = - 1"

abbreviation isSign :: "char \<Rightarrow> bool" where
  "isSign c \<equiv> c = CHR ''-'' \<or> c = CHR ''+''"

definition basePrefix :: "string \<Rightarrow> string \<Rightarrow> bool" where
  \<comment> \<open>the second character is one of \<open>ls\<close>, in either case\<close>
  "basePrefix ls s \<longleftrightarrow> lower (byte_of_char (s ! 1)) \<in> byte_of_char ` set ls"

fun underscoreOK_loop :: "bool \<Rightarrow> char \<Rightarrow> string \<Rightarrow> bool" where
  "underscoreOK_loop hex saw [] \<longleftrightarrow> saw \<noteq> CHR ''_''"
| "underscoreOK_loop hex saw (ch # s) \<longleftrightarrow>
     (let c = byte_of_char ch in
      if (byte_of_char CHR ''0'' \<le> c \<and> c \<le> byte_of_char CHR ''9'')
         \<or> (hex \<and> byte_of_char CHR ''a'' \<le> lower c \<and> lower c \<le> byte_of_char CHR ''f'')
      then underscoreOK_loop hex CHR ''0'' s
      else if ch = CHR ''_'' then (if saw \<noteq> CHR ''0'' then False else underscoreOK_loop hex CHR ''_'' s)
      else if saw = CHR ''_'' then False
      else underscoreOK_loop hex CHR ''!'' s)"

definition underscoreOK :: "string \<Rightarrow> bool" where
  "underscoreOK s =
     (let s = (if 1 \<le> length s \<and> isSign (s ! 0) then drop 1 s else s)
      in if 2 \<le> length s \<and> s ! 0 = CHR ''0'' \<and> basePrefix ''box'' s
         then underscoreOK_loop (basePrefix ''x'' s) CHR ''0'' (drop 2 s)
         else underscoreOK_loop False CHR ''^'' s)"

text \<open>The loop of \<^verbatim>\<open>ParseUint\<close>; \<open>Inl\<close> is an early return.\<close>

fun ParseUint_loop ::
  "string \<Rightarrow> bool \<Rightarrow> nat \<Rightarrow> u64 \<Rightarrow> u64 \<Rightarrow> bool \<Rightarrow> u64 \<Rightarrow> string \<Rightarrow> (u64 \<times> NumError) + (u64 \<times> bool)" where
  "ParseUint_loop s0 base0 base cutoff maxVal underscores n [] = Inr (n, underscores)"
| "ParseUint_loop s0 base0 base cutoff maxVal underscores n (ch # s) =
     (let c = byte_of_char ch in
      if ch = CHR ''_'' \<and> base0 then ParseUint_loop s0 base0 base cutoff maxVal True n s
      else
        case (if byte_of_char CHR ''0'' \<le> c \<and> c \<le> byte_of_char CHR ''9'' then Some (c - byte_of_char CHR ''0'')
              else if byte_of_char CHR ''a'' \<le> lower c \<and> lower c \<le> byte_of_char CHR ''z''
              then Some (lower c - byte_of_char CHR ''a'' + 10)
              else None) of
          None \<Rightarrow> Inl (0, syntaxError ''ParseUint'' s0)
        | Some d \<Rightarrow>
            if of_nat base \<le> d then Inl (0, syntaxError ''ParseUint'' s0)
            else if cutoff \<le> n then Inl (maxVal, rangeError ''ParseUint'' s0)
            else
              let n = n * of_nat base; n1 = n + ucast d
              in if n1 < n \<or> maxVal < n1 then Inl (maxVal, rangeError ''ParseUint'' s0)
                 else ParseUint_loop s0 base0 base cutoff maxVal underscores n1 s)"

definition ParseUint :: "string \<Rightarrow> int \<Rightarrow> int \<Rightarrow> u64 \<times> NumError option" where
  "ParseUint s base bitSize =
     (if s = [] then (0, Some (syntaxError ''ParseUint'' s))
      else
        let s0 = s; base0 = (base = 0)
        in if \<not> (2 \<le> base \<and> base \<le> 36 \<or> base = 0) then (0, Some (baseError ''ParseUint'' s0 base))
           else
             let (base, s) =
                   (if 2 \<le> base \<and> base \<le> 36 then (nat base, s)
                    else if s ! 0 = CHR ''0'' then
                      (if 3 \<le> length s \<and> basePrefix ''b'' s then (2, drop 2 s)
                       else if 3 \<le> length s \<and> basePrefix ''o'' s then (8, drop 2 s)
                       else if 3 \<le> length s \<and> basePrefix ''x'' s then (16, drop 2 s)
                       else (8, drop 1 s))
                    else (10, s))
             in if bitSize < 0 \<or> 64 < bitSize then (0, Some (bitSizeError ''ParseUint'' s0 bitSize))
                else
                  let bitSize = (if bitSize = 0 then IntSize else bitSize);
                      cutoff = maxUint64 div of_nat base + 1;
                      maxVal = push_bit (nat bitSize) 1 - 1
                  in case ParseUint_loop s0 base0 base cutoff maxVal False 0 s of
                       Inl (v, err) \<Rightarrow> (v, Some err)
                     | Inr (n, underscores) \<Rightarrow>
                         if underscores \<and> \<not> underscoreOK s0 then (0, Some (syntaxError ''ParseUint'' s0))
                         else (n, None))"

definition ParseInt_range :: "bool \<Rightarrow> u64 \<Rightarrow> string \<Rightarrow> int \<Rightarrow> u64 \<times> NumError option" where
  \<comment> \<open>the rest of \<^verbatim>\<open>ParseInt\<close> after the digits were read\<close>
  "ParseInt_range neg un s0 bitSize =
     (let bitSize = (if bitSize = 0 then IntSize else bitSize);
          cutoff = push_bit (nat (bitSize - 1)) 1
      in if \<not> neg \<and> cutoff \<le> un then (cutoff - 1, Some (rangeError ''ParseInt'' s0))
         else if neg \<and> cutoff < un then (- cutoff, Some (rangeError ''ParseInt'' s0))
         else (if neg then - un else un, None))"

definition ParseInt :: "string \<Rightarrow> int \<Rightarrow> int \<Rightarrow> u64 \<times> NumError option" where
  \<comment> \<open>the value is an \<^verbatim>\<open>int64\<close>, read with \<open>sint\<close>\<close>
  "ParseInt s base bitSize =
     (if s = [] then (0, Some (syntaxError ''ParseInt'' s))
      else
        let s0 = s;
            neg = (s ! 0 = CHR ''-'');
            s = (if isSign (s ! 0) then drop 1 s else s);
            (un, err) = ParseUint s base bitSize
        in case err of
             Some e \<Rightarrow>
               if Err e \<noteq> ErrRange then (0, Some (e\<lparr>Func := ''ParseInt'', Num := s0\<rparr>))
               else ParseInt_range neg un s0 bitSize
           | None \<Rightarrow> ParseInt_range neg un s0 bitSize)"

fun Atoi_loop :: "u64 \<Rightarrow> string \<Rightarrow> u64 option" where
  "Atoi_loop n [] = Some n"
| "Atoi_loop n (ch # s) =
     (let ch = byte_of_char ch - byte_of_char CHR ''0''
      in if 9 < ch then None else Atoi_loop (n * 10 + ucast ch) s)"

definition Atoi :: "string \<Rightarrow> u64 \<times> NumError option" where
  "Atoi s =
     (if 0 < length s \<and> length s < 19 then
        let s0 = s; s = (if isSign (s ! 0) then drop 1 s else s)
        in if isSign (s0 ! 0) \<and> length s < 1 then (0, Some (syntaxError ''Atoi'' s0))
           else case Atoi_loop 0 s of
                  None \<Rightarrow> (0, Some (syntaxError ''Atoi'' s0))
                | Some n \<Rightarrow> (if s0 ! 0 = CHR ''-'' then - n else n, None)
      else
        let (i, err) = ParseInt s 10 0
        in (i, map_option (\<lambda>e. e\<lparr>Func := ''Atoi''\<rparr>) err))"

subsection \<open>The fast path\<close>

lemma digit_iff:
  fixes c :: byte
  shows "\<not> 9 < c - 48 \<longleftrightarrow> 48 \<le> c \<and> c \<le> 57"
proof (cases "48 \<le> c")
  case True
  then have "unat (c - 48) = unat c - 48" by (simp add: unat_sub)
  with True show ?thesis by (auto simp: word_less_nat_alt word_le_nat_alt)
next
  case False
  then have "c - 48 = c + 208" and "unat c < 48" by (simp_all add: word_le_nat_alt)
  moreover from this have "unat (c + 208) = unat c + 208" by (subst unat_add_lem [THEN iffD1]) simp_all
  ultimately have "unat (c - 48) = unat c + 208" by (simp only:)
  then have "9 < unat (c - 48)" by linarith
  then show ?thesis using False by (simp add: word_less_nat_alt)
qed

lemma letter_value:
  fixes c :: byte
  assumes "97 \<le> c" "c \<le> 122"
  shows "10 \<le> c - 97 + 10"
proof -
  have "unat (c - 97) = unat c - 97" using assms by (simp add: unat_sub)
  moreover have "unat c \<le> 122" using assms by (simp add: word_le_nat_alt)
  ultimately have "unat (c - 97 + 10) = unat c - 97 + 10" by (subst unat_add_lem [THEN iffD1]) simp_all
  then show ?thesis by (simp add: word_le_nat_alt)
qed

lemma byte_of_char_codes [simp]:
  "byte_of_char CHR ''0'' = 48" "byte_of_char CHR ''9'' = 57"
  "byte_of_char CHR ''a'' = 97" "byte_of_char CHR ''z'' = 122"
  by (simp_all add: byte_of_char_def)

lemma step_small:
  fixes n :: u64 and d :: byte
  assumes n: "unat n < 10 ^ k" and k: "k < 18" and d: "d \<le> 9"
  shows "unat (n * 10 + ucast d) = unat n * 10 + unat d" "unat (n * 10) = unat n * 10"
    "unat n * 10 + unat d < 10 ^ Suc k"
proof -
  have d9: "unat d \<le> 9" using d by (simp add: word_le_nat_alt)
  then show *: "unat n * 10 + unat d < 10 ^ Suc k" using n by simp
  have "(10 :: nat) ^ Suc k \<le> 10 ^ 18" using k by (intro power_increasing) simp_all
  with * have less: "unat n * 10 + unat d < 10 ^ 18" by linarith
  then show m: "unat (n * 10) = unat n * 10" by (subst unat_mult_lem [THEN iffD1]) simp_all
  have u: "unat (ucast d :: u64) = unat d" using d9 by (simp add: unsigned_ucast_eq take_bit_nat_eq_self)
  show "unat (n * 10 + ucast d) = unat n * 10 + unat d"
    using less by (subst unat_add_lem [THEN iffD1]) (simp_all add: m u)
qed

lemma ParseUint_loop_decimal:
  assumes "unat n < 10 ^ k" "length s + k \<le> 18"
  shows "ParseUint_loop s0 False 10 (maxUint64 div 10 + 1) maxUint64 us n s =
     (case Atoi_loop n s of None \<Rightarrow> Inl (0, syntaxError ''ParseUint'' s0) | Some n' \<Rightarrow> Inr (n', us))"
  using assms
proof (induction s arbitrary: n k)
  case (Cons ch s)
  let ?c = "byte_of_char ch"
  show ?case
  proof (cases "48 \<le> ?c \<and> ?c \<le> 57")
    case True
    then have d: "?c - 48 \<le> 9" using digit_iff [of ?c] by auto
    have k: "k < 18" using Cons.prems by simp
    note small = step_small [OF Cons.prems(1) k d]
    have "unat n < 10 ^ 18"
      using Cons.prems(1) k power_increasing [of k 18 "10 :: nat"] by simp
    then have "\<not> maxUint64 div 10 + 1 \<le> n"
      by (simp add: maxUint64_def word_le_nat_alt)
    moreover have "\<not> 10 \<le> ?c - 48" using d by (simp add: word_le_nat_alt)
    moreover have "n * 10 \<le> n * 10 + ucast (?c - 48)" using small by (simp add: word_le_nat_alt)
    moreover have "\<not> maxUint64 < x" for x by (simp add: maxUint64_def)
    ultimately show ?thesis
      using True d Cons.IH [of "n * 10 + ucast (?c - 48)" "Suc k"] small Cons.prems(2)
      by (simp add: Let_def linorder_not_less [symmetric])
  next
    case False
    then have "9 < ?c - 48" using digit_iff [of ?c] by auto
    with False letter_value [of "lower ?c"] show ?thesis by (auto simp: Let_def)
  qed
qed simp

lemma Atoi_loop_bound:
  assumes "Atoi_loop n s = Some n'" "unat n < 10 ^ k" "length s + k \<le> 18"
  shows "unat n' < 10 ^ 18"
  using assms
proof (induction s arbitrary: n k)
  case Nil
  then show ?case using power_increasing [of k 18 "10 :: nat"] by simp
next
  case (Cons ch s)
  let ?d = "byte_of_char ch - 48"
  have d: "?d \<le> 9" and "Atoi_loop (n * 10 + ucast ?d) s = Some n'"
    using Cons.prems(1) by (auto simp: Let_def split: if_splits)
  moreover have "k < 18" using Cons.prems(3) by simp
  ultimately show ?case
    using Cons.IH [of _ "Suc k"] Cons.prems step_small [OF Cons.prems(2) _ d] by simp
qed

lemma max64: "(18446744073709551615 :: u64) = - 1"
  by simp

lemma ParseUint_decimal:
  assumes "s \<noteq> []" "length s \<le> 18"
  shows "ParseUint s 10 0 =
    (case Atoi_loop 0 s of None \<Rightarrow> (0, Some (syntaxError ''ParseUint'' s)) | Some n \<Rightarrow> (n, None))"
proof -
  have "ParseUint s 10 0 = (case ParseUint_loop s False 10 (maxUint64 div 10 + 1) maxUint64 False 0 s of
      Inl (v, err) \<Rightarrow> (v, Some err)
    | Inr (n, underscores) \<Rightarrow>
        if underscores \<and> \<not> underscoreOK s then (0, Some (syntaxError ''ParseUint'' s)) else (n, None))"
    using assms(1) by (simp add: ParseUint_def IntSize_def maxUint64_def max64)
  with ParseUint_loop_decimal [of 0 0 s s False] assms show ?thesis by (simp split: option.split)
qed

lemma ParseInt_range_small:
  "unat un < 10 ^ 18 \<Longrightarrow> ParseInt_range neg un s0 0 = (if neg then - un else un, None)"
  by (simp add: ParseInt_range_def IntSize_def word_le_nat_alt word_less_nat_alt)

text \<open>C38: \<^verbatim>\<open>Atoi\<close> with its fast path for short inputs returns what \<^verbatim>\<open>ParseInt\<close> in base 10 returns on every
  string, value and error alike, where the error names \<^verbatim>\<open>Atoi\<close>; no short input overflows.\<close>

theorem Atoi_is_ParseInt:
  "Atoi s = (fst (ParseInt s 10 0), map_option (\<lambda>e. e\<lparr>Func := ''Atoi''\<rparr>) (snd (ParseInt s 10 0)))"
proof (cases "0 < length s \<and> length s < 19")
  case True
  define t where "t = (if isSign (s ! 0) then drop 1 s else s)"
  have len: "length t \<le> 18" using True by (auto simp: t_def)
  have pi: "ParseInt s 10 0 = (case ParseUint t 10 0 of
        (un, Some e) \<Rightarrow> if Err e \<noteq> ErrRange then (0, Some (e\<lparr>Func := ''ParseInt'', Num := s\<rparr>))
                        else ParseInt_range (s ! 0 = CHR ''-'') un s 0
      | (un, None) \<Rightarrow> ParseInt_range (s ! 0 = CHR ''-'') un s 0)"
    using True unfolding ParseInt_def t_def Let_def by (simp split: prod.split)
  have at: "Atoi s = (if t = [] then (0, Some (syntaxError ''Atoi'' s)) else case Atoi_loop 0 t of
        None \<Rightarrow> (0, Some (syntaxError ''Atoi'' s)) | Some n \<Rightarrow> (if s ! 0 = CHR ''-'' then - n else n, None))"
    using True unfolding Atoi_def Let_def t_def [symmetric] by (auto simp: t_def)
  show ?thesis
  proof (cases "t = []")
    case True
    with pi at show ?thesis by (simp add: ParseUint_def syntaxError_def)
  next
    case False
    note pu = ParseUint_decimal [OF False len]
    show ?thesis
    proof (cases "Atoi_loop 0 t")
      case None
      with pi at pu False show ?thesis by (simp add: syntaxError_def)
    next
      case (Some n)
      with len have "unat n < 10 ^ 18" using Atoi_loop_bound [of 0 t n 0] by simp
      with Some pi at pu False show ?thesis by (simp add: ParseInt_range_small)
    qed
  qed
next
  case False
  show ?thesis unfolding Atoi_def if_not_P [OF False] by (simp add: case_prod_beta)
qed

end
