(* ===== verification/Go_UTF8.thy ===== *)
theory Go_UTF8
  imports Go_Prelude
begin

text \<open>
  UTF-8 (package \<^verbatim>\<open>unicode/utf8\<close> of the vendored Go tree). A rune is a 32-bit word. The table
  \<open>first\<close> gives for a starting byte the number of bytes and the range of the second one;
  decoding, counting and validation read it. \<open>enc\<close> is the encoding in arithmetic, against
  which the bit operations of the code are shown correct.
\<close>

unbundle bit_operations_syntax

type_synonym rune = "32 word"

definition RuneError :: rune where "RuneError = 0xFFFD"
definition RuneSelf :: byte where "RuneSelf = 0x80"
definition MaxRune :: rune where "MaxRune = 0x10FFFF"
definition UTFMax :: nat where "UTFMax = 4"
definition surrogateMin :: rune where "surrogateMin = 0xD800"
definition surrogateMax :: rune where "surrogateMax = 0xDFFF"

definition tx :: byte where "tx = 0x80"
definition t2 :: byte where "t2 = 0xC0"
definition t3 :: byte where "t3 = 0xE0"
definition t4 :: byte where "t4 = 0xF0"
definition maskx :: byte where "maskx = 0x3F"
definition mask2 :: byte where "mask2 = 0x1F"
definition mask3 :: byte where "mask3 = 0x0F"
definition mask4 :: byte where "mask4 = 0x07"
definition rune1Max :: rune where "rune1Max = push_bit 7 1 - 1"
definition rune2Max :: rune where "rune2Max = push_bit 11 1 - 1"
definition rune3Max :: rune where "rune3Max = push_bit 16 1 - 1"
definition locb :: byte where "locb = 0x80"
definition hicb :: byte where "hicb = 0xBF"

definition xx :: byte where "xx = 0xF1"
definition as1 :: byte where "as1 = 0xF0"
definition s1 :: byte where "s1 = 0x02"
definition s2 :: byte where "s2 = 0x13"
definition s3 :: byte where "s3 = 0x03"
definition s4 :: byte where "s4 = 0x23"
definition s5 :: byte where "s5 = 0x34"
definition s6 :: byte where "s6 = 0x04"
definition s7 :: byte where "s7 = 0x44"

lemmas utf8_consts = RuneError_def RuneSelf_def MaxRune_def UTFMax_def surrogateMin_def surrogateMax_def
  tx_def t2_def t3_def t4_def maskx_def mask2_def mask3_def mask4_def rune1Max_def rune2Max_def rune3Max_def
  locb_def hicb_def
lemmas utf8_kinds = xx_def as1_def s1_def s2_def s3_def s4_def s5_def s6_def s7_def

definition first :: "byte list" where
  "first =
     replicate 128 as1
     @ replicate 64 xx
     @ [xx, xx] @ replicate 30 s1
     @ [s2] @ replicate 12 s3 @ [s4, s3, s3]
     @ [s5, s6, s6, s6, s7] @ replicate 11 xx"

definition acceptRanges :: "(byte \<times> byte) list" where
  "acceptRanges =
     [(locb, hicb), (0xA0, hicb), (locb, 0x9F), (0x90, hicb), (locb, 0x8F)] @ replicate 11 (0, 0)"

definition FullRune :: "byte list \<Rightarrow> bool" where
  "FullRune p =
     (let n = length p
      in if n = 0 then False
         else
           let x = first ! unat (p ! 0)
           in if unat (x AND 7) \<le> n then True
              else
                let (lo, hi) = acceptRanges ! unat (drop_bit 4 x)
                in if 1 < n \<and> (p ! 1 < lo \<or> hi < p ! 1) then True
                   else if 2 < n \<and> (p ! 2 < locb \<or> hicb < p ! 2) then True
                   else False)"

definition DecodeRune :: "byte list \<Rightarrow> rune \<times> nat" where
  "DecodeRune p =
     (let n = length p
      in if n < 1 then (RuneError, 0)
         else
           let p0 = p ! 0; x = first ! unat p0
           in if as1 \<le> x
              then let m = signed_drop_bit 31 (push_bit 31 (ucast x :: rune))
                   in ((ucast p0 AND NOT m) OR (RuneError AND m), 1)
              else
                let sz = unat (x AND 7); (lo, hi) = acceptRanges ! unat (drop_bit 4 x)
                in if n < sz then (RuneError, 1)
                   else
                     let b1 = p ! 1
                     in if b1 < lo \<or> hi < b1 then (RuneError, 1)
                        else if sz \<le> 2
                        then (push_bit 6 (ucast (p0 AND mask2)) OR ucast (b1 AND maskx), 2)
                        else
                          let b2 = p ! 2
                          in if b2 < locb \<or> hicb < b2 then (RuneError, 1)
                             else if sz \<le> 3
                             then (push_bit 12 (ucast (p0 AND mask3)) OR push_bit 6 (ucast (b1 AND maskx))
                                     OR ucast (b2 AND maskx), 3)
                             else
                               let b3 = p ! 3
                               in if b3 < locb \<or> hicb < b3 then (RuneError, 1)
                                  else (push_bit 18 (ucast (p0 AND mask4)) OR push_bit 12 (ucast (b1 AND maskx))
                                          OR push_bit 6 (ucast (b2 AND maskx)) OR ucast (b3 AND maskx), 4))"

definition DecodeRuneInString :: "string \<Rightarrow> rune \<times> nat" where
  "DecodeRuneInString s = DecodeRune (bytes_of_string s)"

definition RuneStart :: "byte \<Rightarrow> bool" where
  "RuneStart b \<longleftrightarrow> b AND 0xC0 \<noteq> 0x80"

fun seekStart :: "byte list \<Rightarrow> int \<Rightarrow> nat \<Rightarrow> int" where
  \<comment> \<open>the loop of \<^verbatim>\<open>DecodeLastRune\<close>, which goes back at most \<open>k\<close> bytes from \<open>start\<close>\<close>
  "seekStart p start 0 = start"
| "seekStart p start (Suc k) =
     (if RuneStart (p ! nat start) then start else seekStart p (start - 1) k)"

definition DecodeLastRune :: "byte list \<Rightarrow> rune \<times> nat" where
  "DecodeLastRune p =
     (let end = length p
      in if end = 0 then (RuneError, 0)
         else
           let start = end - 1; r = ucast (p ! start) :: rune
           in if r < ucast RuneSelf then (r, 1)
              else
                let lim = end - UTFMax;
                    start = nat (max 0 (seekStart p (int start - 1) (start - lim)));
                    (r, sz) = DecodeRune (drop start p)
                in if start + sz \<noteq> end then (RuneError, 1) else (r, sz))"

definition DecodeLastRuneInString :: "string \<Rightarrow> rune \<times> nat" where
  "DecodeLastRuneInString s = DecodeLastRune (bytes_of_string s)"

definition RuneLen :: "rune \<Rightarrow> int" where
  "RuneLen r =
     (if r <s 0 then -1
      else if r <=s rune1Max then 1
      else if r <=s rune2Max then 2
      else if surrogateMin <=s r \<and> r <=s surrogateMax then -1
      else if r <=s rune3Max then 3
      else if r <=s MaxRune then 4
      else -1)"

definition encode3 :: "rune \<Rightarrow> byte list" where
  \<comment> \<open>the case of three bytes, which the invalid runes fall through to\<close>
  "encode3 r =
     [t3 OR ucast (drop_bit 12 r), tx OR (ucast (drop_bit 6 r) AND maskx), tx OR (ucast r AND maskx)]"

definition appendRuneNonASCII :: "byte list \<Rightarrow> rune \<Rightarrow> byte list" where
  "appendRuneNonASCII p r =
     (if r \<le> rune2Max
      then p @ [t2 OR ucast (drop_bit 6 r), tx OR (ucast r AND maskx)]
      else if MaxRune < r \<or> surrogateMin \<le> r \<and> r \<le> surrogateMax then p @ encode3 RuneError
      else if r \<le> rune3Max then p @ encode3 r
      else p @ [t4 OR ucast (drop_bit 18 r), tx OR (ucast (drop_bit 12 r) AND maskx),
                tx OR (ucast (drop_bit 6 r) AND maskx), tx OR (ucast r AND maskx)])"

definition AppendRune :: "byte list \<Rightarrow> rune \<Rightarrow> byte list" where
  "AppendRune p r = (if r \<le> rune1Max then p @ [ucast r] else appendRuneNonASCII p r)"

definition EncodeRune :: "byte list \<Rightarrow> rune \<Rightarrow> (byte list \<times> nat) option" where
  \<comment> \<open>writes at the start of the buffer; panics when it is too short\<close>
  "EncodeRune p r =
     (let put = (\<lambda>bs. if length p < length bs then None else Some (bs @ drop (length bs) p, length bs))
      in if r \<le> rune1Max then put [ucast r]
         else if r \<le> rune2Max
         then put [t2 OR ucast (drop_bit 6 r), tx OR (ucast r AND maskx)]
         else if MaxRune < r \<or> surrogateMin \<le> r \<and> r \<le> surrogateMax then put (encode3 RuneError)
         else if r \<le> rune3Max then put (encode3 r)
         else put [t4 OR ucast (drop_bit 18 r), tx OR (ucast (drop_bit 12 r) AND maskx),
                   tx OR (ucast (drop_bit 6 r) AND maskx), tx OR (ucast r AND maskx)])"

definition countSize :: "byte list \<Rightarrow> nat" where
  \<comment> \<open>by how much a turn of the loop of \<^verbatim>\<open>RuneCount\<close> moves on, at the start of \<open>p\<close>\<close>
  "countSize p =
     (let c = p ! 0
      in if c < RuneSelf then 1
         else
           let x = first ! unat c
           in if x = xx then 1
              else
                let size = unat (x AND 7)
                in if length p < size then 1
                   else
                     let (lo, hi) = acceptRanges ! unat (drop_bit 4 x)
                     in if p ! 1 < lo \<or> hi < p ! 1 then 1
                        else if size = 2 then size
                        else if p ! 2 < locb \<or> hicb < p ! 2 then 1
                        else if size = 3 then size
                        else if p ! 3 < locb \<or> hicb < p ! 3 then 1
                        else size)"

definition validSize :: "byte list \<Rightarrow> nat option" where
  \<comment> \<open>the same for the loop of \<^verbatim>\<open>Valid\<close>, which returns false where the result is \<^term>\<open>None\<close>\<close>
  "validSize p =
     (let c = p ! 0
      in if c < RuneSelf then Some 1
         else
           let x = first ! unat c
           in if x = xx then None
              else
                let size = unat (x AND 7)
                in if length p < size then None
                   else
                     let (lo, hi) = acceptRanges ! unat (drop_bit 4 x)
                     in if p ! 1 < lo \<or> hi < p ! 1 then None
                        else if size = 2 then Some size
                        else if p ! 2 < locb \<or> hicb < p ! 2 then None
                        else if size = 3 then Some size
                        else if p ! 3 < locb \<or> hicb < p ! 3 then None
                        else Some size)"

subsection \<open>The reference\<close>

definition scalar_value :: "nat \<Rightarrow> bool" where
  "scalar_value r \<longleftrightarrow> r < 0xD800 \<or> 0xDFFF < r \<and> r \<le> 0x10FFFF"

definition enc :: "nat \<Rightarrow> nat list" where
  "enc r =
     (if r < 0x80 then [r]
      else if r < 0x800 then [0xC0 + r div 64, 0x80 + r mod 64]
      else if r < 0x10000 then [0xE0 + r div 64 div 64, 0x80 + r div 64 mod 64, 0x80 + r mod 64]
      else [0xF0 + r div 64 div 64 div 64, 0x80 + r div 64 div 64 mod 64, 0x80 + r div 64 mod 64,
            0x80 + r mod 64])"

definition cont :: "nat \<Rightarrow> bool" where
  "cont b \<longleftrightarrow> 0x80 \<le> b \<and> b \<le> 0xBF"

definition two_bytes :: "nat \<Rightarrow> nat list \<Rightarrow> bool" where
  "two_bytes b q \<longleftrightarrow> 0xC2 \<le> b \<and> b \<le> 0xDF \<and> 1 \<le> length q \<and> cont (q ! 0)"

definition three_bytes :: "nat \<Rightarrow> nat list \<Rightarrow> bool" where
  "three_bytes b q \<longleftrightarrow>
     0xE0 \<le> b \<and> b \<le> 0xEF \<and> 2 \<le> length q \<and> cont (q ! 0) \<and> cont (q ! 1)
     \<and> (b = 0xE0 \<longrightarrow> 0xA0 \<le> q ! 0) \<and> (b = 0xED \<longrightarrow> q ! 0 \<le> 0x9F)"

definition four_bytes :: "nat \<Rightarrow> nat list \<Rightarrow> bool" where
  "four_bytes b q \<longleftrightarrow>
     0xF0 \<le> b \<and> b \<le> 0xF4 \<and> 3 \<le> length q \<and> cont (q ! 0) \<and> cont (q ! 1) \<and> cont (q ! 2)
     \<and> (b = 0xF0 \<longrightarrow> 0x90 \<le> q ! 0) \<and> (b = 0xF4 \<longrightarrow> q ! 0 \<le> 0x8F)"

definition dec :: "nat list \<Rightarrow> (nat \<times> nat) option" where
  \<comment> \<open>the scalar value at the start of a byte string and the length of its encoding\<close>
  "dec p =
     (case p of
        [] \<Rightarrow> None
      | b # q \<Rightarrow>
          if b < 0x80 then Some (b, 1)
          else if two_bytes b q then Some ((b - 0xC0) * 64 + (q ! 0 - 0x80), 2)
          else if three_bytes b q
          then Some (((b - 0xE0) * 64 + (q ! 0 - 0x80)) * 64 + (q ! 1 - 0x80), 3)
          else if four_bytes b q
          then Some ((((b - 0xF0) * 64 + (q ! 0 - 0x80)) * 64 + (q ! 1 - 0x80)) * 64 + (q ! 2 - 0x80), 4)
          else None)"

lemmas dec_defs = dec_def two_bytes_def three_bytes_def four_bytes_def cont_def

lemma digit: "y < 64 \<Longrightarrow> (x * 64 + y) div 64 = x" "y < 64 \<Longrightarrow> (x * 64 + y) mod 64 = y" for x y :: nat
  by simp_all

lemma digits: obtains x y :: nat where "r = x * 64 + y" "y < 64"
  using that [of "r div 64" "r mod 64"] by simp

lemma enc1: "r < 0x80 \<Longrightarrow> enc r = [r]"
  by (simp add: enc_def)

lemma enc2: "r = x * 64 + y \<Longrightarrow> y < 64 \<Longrightarrow> 2 \<le> x \<Longrightarrow> x < 32 \<Longrightarrow> enc r = [0xC0 + x, 0x80 + y]"
  using digit [of y x] by (simp add: enc_def)

lemma enc3:
  assumes "r = (x * 64 + y) * 64 + z" "y < 64" "z < 64" "0x800 \<le> r" "r < 0x10000"
  shows "enc r = [0xE0 + x, 0x80 + y, 0x80 + z]"
proof -
  have "r div 64 = x * 64 + y" "r mod 64 = z" using assms(1) digit [OF assms(3), of "x * 64 + y"] by simp_all
  then show ?thesis
    unfolding enc_def using assms(4,5) digit [OF assms(2), of x] by (simp only: if_False not_less [THEN iffD2]) simp
qed

lemma enc4:
  assumes "r = ((x * 64 + y) * 64 + z) * 64 + w" "y < 64" "z < 64" "w < 64" "0x10000 \<le> r"
  shows "enc r = [0xF0 + x, 0x80 + y, 0x80 + z, 0x80 + w]"
proof -
  have "r div 64 = (x * 64 + y) * 64 + z" "r mod 64 = w"
    using assms(1) digit [OF assms(4), of "(x * 64 + y) * 64 + z"] by simp_all
  moreover have "\<not> r < 0x80" "\<not> r < 0x800" "\<not> r < 0x10000" using assms(5) by simp_all
  ultimately show ?thesis
    unfolding enc_def using digit [OF assms(3), of "x * 64 + y"] digit [OF assms(2), of x] by (simp only: if_False)
qed

lemma dec_enc:
  assumes "scalar_value r"
  shows "dec (enc r @ rest) = Some (r, length (enc r))"
proof -
  consider "r < 0x80" | "0x80 \<le> r" "r < 0x800" | "0x800 \<le> r" "r < 0x10000" | "0x10000 \<le> r" by linarith
  then show ?thesis
  proof cases
    case 1
    then show ?thesis by (simp add: enc1 dec_def)
  next
    case 2
    obtain x y where r: "r = x * 64 + y" "y < 64" by (rule digits)
    then have x: "2 \<le> x" "x < 32" using 2 by linarith+
    then have e: "enc r = [0xC0 + x, 0x80 + y]" by (rule enc2 [OF r])
    show ?thesis unfolding e using r x by (simp add: dec_defs)
  next
    case 3
    obtain x' z where r': "r = x' * 64 + z" "z < 64" by (rule digits)
    obtain x y where r: "x' = x * 64 + y" "y < 64" by (rule digits)
    have e: "enc r = [0xE0 + x, 0x80 + y, 0x80 + z]" using enc3 [of r x y z] r r' 3 by simp
    have "x < 16" "x = 0 \<longrightarrow> 32 \<le> y" using r r' 3 by linarith+
    moreover have "x = 13 \<longrightarrow> y < 32" using assms r r' unfolding scalar_value_def by linarith
    ultimately show ?thesis unfolding e using r r' by (auto simp: dec_defs)
  next
    case 4
    obtain x'' w where r'': "r = x'' * 64 + w" "w < 64" by (rule digits)
    obtain x' z where r': "x'' = x' * 64 + z" "z < 64" by (rule digits)
    obtain x y where r: "x' = x * 64 + y" "y < 64" by (rule digits)
    have e: "enc r = [0xF0 + x, 0x80 + y, 0x80 + z, 0x80 + w]" using enc4 [of r x y z w] r r' r'' 4 by simp
    have "r \<le> 0x10FFFF" using assms 4 unfolding scalar_value_def by linarith
    then have "x \<le> 4" "x = 0 \<longrightarrow> 16 \<le> y" "x = 4 \<longrightarrow> y < 16" using r r' r'' 4 by linarith+
    then show ?thesis unfolding e using r r' r'' by (auto simp: dec_defs)
  qed
qed

lemma take_upto:
  "1 \<le> length q \<Longrightarrow> take 2 (b # q) = [b, q ! 0]"
  "2 \<le> length q \<Longrightarrow> take 3 (b # q) = [b, q ! 0, q ! 1]"
  "3 \<le> length q \<Longrightarrow> take 4 (b # q) = [b, q ! 0, q ! 1, q ! 2]"
proof -
  show "1 \<le> length q \<Longrightarrow> take 2 (b # q) = [b, q ! 0]" by (cases q) simp_all
  show "2 \<le> length q \<Longrightarrow> take 3 (b # q) = [b, q ! 0, q ! 1]" by (cases q; cases "tl q") simp_all
  show "3 \<le> length q \<Longrightarrow> take 4 (b # q) = [b, q ! 0, q ! 1, q ! 2]"
    by (cases q; cases "tl q"; cases "tl (tl q)") simp_all
qed

lemma three_range:
  assumes "r = (x * 64 + y) * 64 + z" "y < 64" "z < 64" "x < 16" "x = 0 \<longrightarrow> 32 \<le> y" "x = 13 \<longrightarrow> y < 32"
  shows "0x800 \<le> r" "r < 0x10000" "scalar_value r"
proof -
  show "0x800 \<le> r" using assms by (cases "x = 0") simp_all
  show "r < 0x10000" using assms(1-4) by simp
  consider "x < 13" | "x = 13" | "13 < x" by linarith
  then show "scalar_value r"
    by cases (use assms in \<open>simp_all add: scalar_value_def\<close>)
qed

lemma four_range:
  assumes "r = ((x * 64 + y) * 64 + z) * 64 + w" "y < 64" "z < 64" "w < 64" "x < 5"
    and "x = 0 \<longrightarrow> 16 \<le> y" "x = 4 \<longrightarrow> y < 16"
  shows "0x10000 \<le> r" "scalar_value r"
proof -
  show *: "0x10000 \<le> r" using assms by (cases "x = 0") simp_all
  have "r \<le> 0x10FFFF" using assms by (cases "x = 4") simp_all
  with * show "scalar_value r" by (simp add: scalar_value_def)
qed

lemma dec_Some:
  assumes "dec p = Some (r, k)"
  shows "scalar_value r \<and> take k p = enc r \<and> k = length (enc r) \<and> k \<le> length p"
proof (cases p)
  case Nil
  then show ?thesis using assms by (simp add: dec_def)
next
  case (Cons b q)
  let ?y = "q ! 0 - 0x80" let ?z = "q ! 1 - 0x80" let ?w = "q ! 2 - 0x80"
  from assms Cons consider
      "b < 0x80" "r = b" "k = 1"
    | "two_bytes b q" "r = (b - 0xC0) * 64 + ?y" "k = 2"
    | "three_bytes b q" "r = ((b - 0xE0) * 64 + ?y) * 64 + ?z" "k = 3"
    | "four_bytes b q" "r = (((b - 0xF0) * 64 + ?y) * 64 + ?z) * 64 + ?w" "k = 4"
    unfolding dec_def by (auto split: if_splits)
  then show ?thesis
  proof cases
    case 1
    then show ?thesis using Cons by (simp add: enc_def scalar_value_def)
  next
    case 2
    let ?x = "b - 0xC0"
    have b: "b = 0xC0 + ?x" "?y < 64" "2 \<le> ?x" "?x < 32" "1 \<le> length q" "q ! 0 = 0x80 + ?y"
      using 2(1) unfolding two_bytes_def cont_def by linarith+
    then have e: "enc r = [0xC0 + ?x, 0x80 + ?y]" using enc2 [OF 2(2)] by blast
    have "r < 0x800" using 2(2) b(2,4) by linarith
    then show ?thesis
      using 2(3) Cons b take_upto(1) [OF b(5), of b] unfolding e by (simp add: scalar_value_def)
  next
    case 3
    let ?x = "b - 0xE0"
    have b: "b = 0xE0 + ?x" "?y < 64" "?z < 64" "?x < 16" "2 \<le> length q" "q ! 0 = 0x80 + ?y" "q ! 1 = 0x80 + ?z"
      using 3(1) unfolding three_bytes_def cont_def by linarith+
    have xy: "?x = 0 \<longrightarrow> 32 \<le> ?y" "?x = 13 \<longrightarrow> ?y < 32"
      using 3(1) unfolding three_bytes_def cont_def by linarith+
    note r = three_range [OF 3(2) b(2,3,4) xy]
    then have e: "enc r = [0xE0 + ?x, 0x80 + ?y, 0x80 + ?z]" using enc3 [OF 3(2) b(2,3)] by blast
    show ?thesis using 3(3) Cons b r(3) take_upto(2) [OF b(5), of b] unfolding e by simp
  next
    case 4
    let ?x = "b - 0xF0"
    have b: "b = 0xF0 + ?x" "?y < 64" "?z < 64" "?w < 64" "3 \<le> length q" "q ! 0 = 0x80 + ?y" "q ! 1 = 0x80 + ?z"
      "q ! 2 = 0x80 + ?w" using 4(1) unfolding four_bytes_def cont_def by linarith+
    have xy: "?x < 5" "?x = 0 \<longrightarrow> 16 \<le> ?y" "?x = 4 \<longrightarrow> ?y < 16"
      using 4(1) unfolding four_bytes_def cont_def by linarith+
    note r = four_range [OF 4(2) b(2,3,4) xy]
    then have e: "enc r = [0xF0 + ?x, 0x80 + ?y, 0x80 + ?z, 0x80 + ?w]" using enc4 [OF 4(2) b(2,3,4)] by blast
    show ?thesis using 4(3) Cons b r(2) take_upto(3) [OF b(5), of b] unfolding e by simp
  qed
qed

subsection \<open>The bit operations\<close>

lemma low_bits:
  fixes b :: byte
  shows "unat (b AND 0x3F) = unat b mod 64" "unat (b AND 0x1F) = unat b mod 32" "unat (b AND 0x0F) = unat b mod 16"
    "unat (b AND 0x07) = unat b mod 8"
proof -
  have *: "unat (b AND mask n) = unat b mod 2 ^ n" for n
    unfolding take_bit_eq_mask [symmetric] unsigned_take_bit_eq by (simp add: take_bit_nat_def)
  show "unat (b AND 0x3F) = unat b mod 64" using * [of 6] by (simp add: mask_eq_exp_minus_1)
  show "unat (b AND 0x1F) = unat b mod 32" using * [of 5] by (simp add: mask_eq_exp_minus_1)
  show "unat (b AND 0x0F) = unat b mod 16" using * [of 4] by (simp add: mask_eq_exp_minus_1)
  show "unat (b AND 0x07) = unat b mod 8" using * [of 3] by (simp add: mask_eq_exp_minus_1)
qed

lemma join_bits:
  fixes y :: nat
  assumes "y < 64"
  shows "push_bit 6 (of_nat x) OR of_nat y = (of_nat (x * 64 + y) :: 32 word)"
proof -
  have "push_bit 6 x OR y = push_bit 6 x + y"
  proof (rule disjunctive_add [symmetric])
    have y: "take_bit 6 y = y" using assms by (simp add: take_bit_eq_mod)
    show "\<not> bit (push_bit 6 x) n \<or> \<not> bit y n" for n
      using arg_cong [OF y, of "\<lambda>z. bit z n"] by (auto simp: bit_push_bit_iff bit_take_bit_iff)
  qed
  then have "of_nat (push_bit 6 x OR y) = (of_nat (x * 64 + y) :: 32 word)" by (simp add: push_bit_eq_mult)
  then show ?thesis by (simp add: of_nat_or_eq of_nat_push_bit)
qed

lemma lead_bits:
  "n < 32 \<Longrightarrow> 0xC0 OR of_nat n = (of_nat (0xC0 + n) :: byte)"
  "n < 16 \<Longrightarrow> 0xE0 OR of_nat n = (of_nat (0xE0 + n) :: byte)"
  "n < 8 \<Longrightarrow> 0xF0 OR of_nat n = (of_nat (0xF0 + n) :: byte)"
  "n < 64 \<Longrightarrow> 0x80 OR of_nat n = (of_nat (0x80 + n) :: byte)"
proof -
  have "\<forall>n \<in> {0..<32}. 0xC0 OR of_nat n = (of_nat (0xC0 + n) :: byte)" by code_simp
  then show "n < 32 \<Longrightarrow> 0xC0 OR of_nat n = (of_nat (0xC0 + n) :: byte)" by simp
  have "\<forall>n \<in> {0..<16}. 0xE0 OR of_nat n = (of_nat (0xE0 + n) :: byte)" by code_simp
  then show "n < 16 \<Longrightarrow> 0xE0 OR of_nat n = (of_nat (0xE0 + n) :: byte)" by simp
  have "\<forall>n \<in> {0..<8}. 0xF0 OR of_nat n = (of_nat (0xF0 + n) :: byte)" by code_simp
  then show "n < 8 \<Longrightarrow> 0xF0 OR of_nat n = (of_nat (0xF0 + n) :: byte)" by simp
  have "\<forall>n \<in> {0..<64}. 0x80 OR of_nat n = (of_nat (0x80 + n) :: byte)" by code_simp
  then show "n < 64 \<Longrightarrow> 0x80 OR of_nat n = (of_nat (0x80 + n) :: byte)" by simp
qed

lemma and_low: "b AND 0x3F = (of_nat (unat b mod 64) :: byte)"
  by (simp add: word_unat_eq_iff unat_of_nat low_bits)

lemma first_at:
  "n < 0x80 \<Longrightarrow> first ! n = as1"
  "0x80 \<le> n \<Longrightarrow> n < 0xC2 \<Longrightarrow> first ! n = xx"
  "0xC2 \<le> n \<Longrightarrow> n \<le> 0xDF \<Longrightarrow> first ! n = s1"
  "first ! 0xE0 = s2" "first ! 0xED = s4"
  "0xE1 \<le> n \<Longrightarrow> n \<le> 0xEF \<Longrightarrow> n \<noteq> 0xED \<Longrightarrow> first ! n = s3"
  "first ! 0xF0 = s5"
  "0xF1 \<le> n \<Longrightarrow> n \<le> 0xF3 \<Longrightarrow> first ! n = s6"
  "first ! 0xF4 = s7"
  "0xF5 \<le> n \<Longrightarrow> n < 0x100 \<Longrightarrow> first ! n = xx"
  by (auto simp: first_def nth_append nth_Cons')

text \<open>What \<open>first\<close> and \<open>acceptRanges\<close> say about a byte that starts a longer encoding: the number of
  bytes and the range of the second.\<close>

definition starts :: "byte \<Rightarrow> nat \<Rightarrow> nat \<Rightarrow> nat \<Rightarrow> bool" where
  "starts b sz lo hi \<longleftrightarrow>
     first ! unat b < as1 \<and> first ! unat b \<noteq> xx \<and> unat (first ! unat b AND 7) = sz
     \<and> acceptRanges ! unat (drop_bit 4 (first ! unat b)) = (of_nat lo, of_nat hi)"

lemma starts_at:
  "0xC2 \<le> unat b \<Longrightarrow> unat b \<le> 0xDF \<Longrightarrow> starts b 2 0x80 0xBF"
  "0xE0 \<le> unat b \<Longrightarrow> unat b \<le> 0xEF \<Longrightarrow>
     starts b 3 (if unat b = 0xE0 then 0xA0 else 0x80) (if unat b = 0xED then 0x9F else 0xBF)"
  "0xF0 \<le> unat b \<Longrightarrow> unat b \<le> 0xF4 \<Longrightarrow>
     starts b 4 (if unat b = 0xF0 then 0x90 else 0x80) (if unat b = 0xF4 then 0x8F else 0xBF)"
proof -
  show "0xC2 \<le> unat b \<Longrightarrow> unat b \<le> 0xDF \<Longrightarrow> starts b 2 0x80 0xBF"
    by (simp add: starts_def first_at utf8_kinds acceptRanges_def locb_def hicb_def)
  show "starts b 3 (if unat b = 0xE0 then 0xA0 else 0x80) (if unat b = 0xED then 0x9F else 0xBF)"
    if rng: "0xE0 \<le> unat b" "unat b \<le> 0xEF"
  proof -
    consider "unat b = 0xE0" | "unat b = 0xED" | "0xE1 \<le> unat b" "unat b \<noteq> 0xED" using rng by linarith
    then show ?thesis
      by cases (use rng in \<open>simp_all add: starts_def first_at utf8_kinds acceptRanges_def locb_def hicb_def\<close>)
  qed
  show "starts b 4 (if unat b = 0xF0 then 0x90 else 0x80) (if unat b = 0xF4 then 0x8F else 0xBF)"
    if rng: "0xF0 \<le> unat b" "unat b \<le> 0xF4"
  proof -
    consider "unat b = 0xF0" | "unat b = 0xF4" | "0xF1 \<le> unat b" "unat b \<le> 0xF3" using rng by linarith
    then show ?thesis
      by cases (use rng in \<open>simp_all add: starts_def first_at utf8_kinds acceptRanges_def locb_def hicb_def\<close>)
  qed
qed

lemma ascii_or_bad:
  fixes b :: byte
  shows "unat b < 0x80 \<Longrightarrow> first ! unat b = as1"
    "0x80 \<le> unat b \<Longrightarrow> unat b < 0xC2 \<or> 0xF4 < unat b \<Longrightarrow> first ! unat b = xx"
proof -
  have "unat b < 256" using unsigned_less [of b, where 'a = nat] by simp
  then show "unat b < 0x80 \<Longrightarrow> first ! unat b = as1"
    "0x80 \<le> unat b \<Longrightarrow> unat b < 0xC2 \<or> 0xF4 < unat b \<Longrightarrow> first ! unat b = xx"
    using first_at(1,2,10) [of "unat b"] by auto
qed

lemma byte_kinds:
  fixes b :: byte
  obtains "unat b < 0x80" | "0x80 \<le> unat b" "unat b < 0xC2 \<or> 0xF4 < unat b" | "0xC2 \<le> unat b" "unat b \<le> 0xDF"
    | "0xE0 \<le> unat b" "unat b \<le> 0xEF" | "0xF0 \<le> unat b" "unat b \<le> 0xF4"
  by linarith

text \<open>The result for each number of bytes.\<close>

lemma decode_ascii: "unat b < 0x80 \<Longrightarrow> DecodeRune (b # q) = (of_nat (unat b), 1)"
  by (simp add: DecodeRune_def ascii_or_bad as1_def push_bit_eq_mult)

lemma decode_bad:
  "0x80 \<le> unat b \<Longrightarrow> unat b < 0xC2 \<or> 0xF4 < unat b \<Longrightarrow> DecodeRune (b # q) = (RuneError, 1)"
  by (simp add: DecodeRune_def ascii_or_bad utf8_kinds)

lemma decode_more:
  assumes "starts b sz lo hi" "lo < 256" "hi < 256" "1 < sz"
  shows "DecodeRune (b # q) =
     (if length q + 1 < sz then (RuneError, 1)
      else if unat (q ! 0) < lo \<or> hi < unat (q ! 0) then (RuneError, 1)
      else if sz \<le> 2 then (push_bit 6 (ucast (b AND mask2)) OR ucast (q ! 0 AND maskx), 2)
      else if \<not> cont (unat (q ! 1)) then (RuneError, 1)
      else if sz \<le> 3
      then (push_bit 12 (ucast (b AND mask3)) OR push_bit 6 (ucast (q ! 0 AND maskx)) OR ucast (q ! 1 AND maskx), 3)
      else if \<not> cont (unat (q ! 2)) then (RuneError, 1)
      else (push_bit 18 (ucast (b AND mask4)) OR push_bit 12 (ucast (q ! 0 AND maskx))
              OR push_bit 6 (ucast (q ! 1 AND maskx)) OR ucast (q ! 2 AND maskx), 4))"
proof -
  have *: "\<not> as1 \<le> first ! unat b" "unat (first ! unat b AND 7) = sz"
    "acceptRanges ! unat (drop_bit 4 (first ! unat b)) = (of_nat lo, of_nat hi)"
    using assms(1) by (auto simp: starts_def)
  have lim: "unat (of_nat lo :: byte) = lo" "unat (of_nat hi :: byte) = hi"
    using assms(2,3) by (simp_all add: unat_of_nat)
  have c: "\<not> cont (unat c) \<longleftrightarrow> c < locb \<or> hicb < c" for c
    by (auto simp: cont_def locb_def hicb_def word_less_nat_alt)
  show ?thesis
    unfolding DecodeRune_def Let_def c using * lim by (simp add: word_less_nat_alt numeral_2_eq_2 numeral_3_eq_3)
qed

lemma offset_bits:
  "0xC0 \<le> n \<Longrightarrow> n \<le> 0xDF \<Longrightarrow> n mod 32 = n - 0xC0"
  "0xE0 \<le> n \<Longrightarrow> n \<le> 0xEF \<Longrightarrow> n mod 16 = n - 0xE0"
  "0xF0 \<le> n \<Longrightarrow> n \<le> 0xF7 \<Longrightarrow> n mod 8 = n - 0xF0"
  "cont n \<Longrightarrow> n mod 64 = n - 0x80"
proof -
  have *: "n mod m = n - m * j" if "m * j \<le> n" "n < m * j + m" for m j :: nat
    using that mod_mult_self2 [of "n - m * j" m j] by simp
  show "0xC0 \<le> n \<Longrightarrow> n \<le> 0xDF \<Longrightarrow> n mod 32 = n - 0xC0" using * [of 32 6] by simp
  show "0xE0 \<le> n \<Longrightarrow> n \<le> 0xEF \<Longrightarrow> n mod 16 = n - 0xE0" using * [of 16 14] by simp
  show "0xF0 \<le> n \<Longrightarrow> n \<le> 0xF7 \<Longrightarrow> n mod 8 = n - 0xF0" using * [of 8 30] by simp
  show "cont n \<Longrightarrow> n mod 64 = n - 0x80" using * [of 64 2] unfolding cont_def by simp
qed

lemma cont_less: "cont n \<Longrightarrow> n - 0x80 < 64"
  unfolding cont_def by linarith

lemma ucast_low: "ucast (b AND maskx) = (of_nat (unat b mod 64) :: rune)"
  "ucast (b AND mask2) = (of_nat (unat b mod 32) :: rune)"
  "ucast (b AND mask3) = (of_nat (unat b mod 16) :: rune)"
  "ucast (b AND mask4) = (of_nat (unat b mod 8) :: rune)"
proof -
  have *: "(ucast w :: rune) = of_nat (unat w)" for w :: byte by simp
  show "ucast (b AND maskx) = (of_nat (unat b mod 64) :: rune)"
    "ucast (b AND mask2) = (of_nat (unat b mod 32) :: rune)"
    "ucast (b AND mask3) = (of_nat (unat b mod 16) :: rune)"
    "ucast (b AND mask4) = (of_nat (unat b mod 8) :: rune)"
    unfolding * low_bits maskx_def mask2_def mask3_def mask4_def by (rule refl)+
qed

lemma joined:
  fixes b c d e :: byte
  shows "0xC0 \<le> unat b \<Longrightarrow> unat b \<le> 0xDF \<Longrightarrow> cont (unat c) \<Longrightarrow>
     push_bit 6 (ucast (b AND mask2)) OR ucast (c AND maskx)
       = (of_nat ((unat b - 0xC0) * 64 + (unat c - 0x80)) :: rune)"
    and "0xE0 \<le> unat b \<Longrightarrow> unat b \<le> 0xEF \<Longrightarrow> cont (unat c) \<Longrightarrow> cont (unat d) \<Longrightarrow>
     push_bit 12 (ucast (b AND mask3)) OR push_bit 6 (ucast (c AND maskx)) OR ucast (d AND maskx)
       = (of_nat (((unat b - 0xE0) * 64 + (unat c - 0x80)) * 64 + (unat d - 0x80)) :: rune)"
    and "0xF0 \<le> unat b \<Longrightarrow> unat b \<le> 0xF7 \<Longrightarrow> cont (unat c) \<Longrightarrow> cont (unat d) \<Longrightarrow> cont (unat e) \<Longrightarrow>
     push_bit 18 (ucast (b AND mask4)) OR push_bit 12 (ucast (c AND maskx)) OR push_bit 6 (ucast (d AND maskx))
       OR ucast (e AND maskx)
       = (of_nat ((((unat b - 0xF0) * 64 + (unat c - 0x80)) * 64 + (unat d - 0x80)) * 64 + (unat e - 0x80)) :: rune)"
proof -
  have 12: "push_bit 12 u OR push_bit 6 v OR w = push_bit 6 (push_bit 6 u OR v) OR w" for u v w :: rune
    by (simp add: push_bit_or or.assoc)
  have 18: "push_bit 18 t OR push_bit 12 u OR push_bit 6 v OR w = push_bit 6 (push_bit 6 (push_bit 6 t OR u) OR v) OR w"
    for t u v w :: rune by (simp add: push_bit_or or.assoc)
  show "push_bit 6 (ucast (b AND mask2)) OR ucast (c AND maskx)
       = (of_nat ((unat b - 0xC0) * 64 + (unat c - 0x80)) :: rune)"
    if "0xC0 \<le> unat b" "unat b \<le> 0xDF" "cont (unat c)"
    unfolding ucast_low offset_bits(1) [OF that(1,2)] offset_bits(4) [OF that(3)]
    by (rule join_bits [OF cont_less [OF that(3)]])
  show "push_bit 12 (ucast (b AND mask3)) OR push_bit 6 (ucast (c AND maskx)) OR ucast (d AND maskx)
       = (of_nat (((unat b - 0xE0) * 64 + (unat c - 0x80)) * 64 + (unat d - 0x80)) :: rune)"
    if "0xE0 \<le> unat b" "unat b \<le> 0xEF" "cont (unat c)" "cont (unat d)"
    unfolding 12 ucast_low offset_bits(2) [OF that(1,2)] offset_bits(4) [OF that(3)] offset_bits(4) [OF that(4)]
      join_bits [OF cont_less [OF that(3)]]
    by (rule join_bits [OF cont_less [OF that(4)]])
  show "push_bit 18 (ucast (b AND mask4)) OR push_bit 12 (ucast (c AND maskx)) OR push_bit 6 (ucast (d AND maskx))
       OR ucast (e AND maskx)
       = (of_nat ((((unat b - 0xF0) * 64 + (unat c - 0x80)) * 64 + (unat d - 0x80)) * 64 + (unat e - 0x80)) :: rune)"
    if "0xF0 \<le> unat b" "unat b \<le> 0xF7" "cont (unat c)" "cont (unat d)" "cont (unat e)"
    unfolding 18 ucast_low offset_bits(3) [OF that(1,2)] offset_bits(4) [OF that(3)] offset_bits(4) [OF that(4)]
      offset_bits(4) [OF that(5)] join_bits [OF cont_less [OF that(3)]] join_bits [OF cont_less [OF that(4)]]
    by (rule join_bits [OF cont_less [OF that(5)]])
qed

lemma nth_unat: "n < length q \<Longrightarrow> map unat q ! n = unat (q ! n)"
  by simp

text \<open>The conditions of the reference decoder as the code tests them.\<close>

lemma two_iff:
  assumes "0xC2 \<le> unat b" "unat b \<le> 0xDF"
  shows "two_bytes (unat b) (map unat q) \<longleftrightarrow> q \<noteq> [] \<and> cont (unat (q ! 0))"
  using assms by (auto simp: two_bytes_def Suc_le_eq)

lemma three_iff:
  assumes "0xE0 \<le> unat b" "unat b \<le> 0xEF"
  shows "three_bytes (unat b) (map unat q) \<longleftrightarrow> 2 \<le> length q \<and> cont (unat (q ! 0)) \<and> cont (unat (q ! 1))
      \<and> (if unat b = 0xE0 then 0xA0 else 0x80) \<le> unat (q ! 0)
      \<and> unat (q ! 0) \<le> (if unat b = 0xED then 0x9F else 0xBF)"
proof (cases "2 \<le> length q")
  case True
  then have "map unat q ! 0 = unat (q ! 0)" "map unat q ! 1 = unat (q ! 1)" by (auto intro: nth_unat)
  with assms True show ?thesis by (auto simp: three_bytes_def cont_def)
qed (simp add: three_bytes_def)

lemma four_iff:
  assumes "0xF0 \<le> unat b" "unat b \<le> 0xF4"
  shows "four_bytes (unat b) (map unat q) \<longleftrightarrow> 3 \<le> length q \<and> cont (unat (q ! 0)) \<and> cont (unat (q ! 1))
      \<and> cont (unat (q ! 2)) \<and> (if unat b = 0xF0 then 0x90 else 0x80) \<le> unat (q ! 0)
      \<and> unat (q ! 0) \<le> (if unat b = 0xF4 then 0x8F else 0xBF)"
proof (cases "3 \<le> length q")
  case True
  then have "map unat q ! 0 = unat (q ! 0)" "map unat q ! 1 = unat (q ! 1)" "map unat q ! 2 = unat (q ! 2)"
    by (auto intro: nth_unat)
  with assms True show ?thesis by (auto simp: four_bytes_def cont_def)
qed (simp add: four_bytes_def)

lemma decode_two:
  assumes "0xC2 \<le> unat b" "unat b \<le> 0xDF"
  shows "DecodeRune (b # q) =
      (if two_bytes (unat b) (map unat q)
       then (of_nat ((unat b - 0xC0) * 64 + (unat (q ! 0) - 0x80)), 2) else (RuneError, 1))"
    and "\<not> unat b < 0x80" "\<not> three_bytes (unat b) r" "\<not> four_bytes (unat b) r"
proof -
  show "\<not> unat b < 0x80" "\<not> three_bytes (unat b) r" "\<not> four_bytes (unat b) r"
    using assms by (auto simp: three_bytes_def four_bytes_def)
  note two = two_iff [OF assms, of q]
  show "DecodeRune (b # q) =
      (if two_bytes (unat b) (map unat q)
       then (of_nat ((unat b - 0xC0) * 64 + (unat (q ! 0) - 0x80)), 2) else (RuneError, 1))"
    unfolding two using assms joined(1) [of b "q ! 0"] decode_more [OF starts_at(1) [OF assms], of q]
    by (auto simp: cont_def simp del: of_nat_add of_nat_mult)
qed

lemma decode_three:
  assumes "0xE0 \<le> unat b" "unat b \<le> 0xEF"
  shows "DecodeRune (b # q) =
      (if three_bytes (unat b) (map unat q)
       then (of_nat (((unat b - 0xE0) * 64 + (unat (q ! 0) - 0x80)) * 64 + (unat (q ! 1) - 0x80)), 3)
       else (RuneError, 1))"
    and "\<not> unat b < 0x80" "\<not> two_bytes (unat b) r" "\<not> four_bytes (unat b) r"
proof -
  show "\<not> unat b < 0x80" "\<not> two_bytes (unat b) r" "\<not> four_bytes (unat b) r"
    using assms by (auto simp: two_bytes_def four_bytes_def)
  let ?lo = "if unat b = 0xE0 then 0xA0 else 0x80 :: nat" and ?hi = "if unat b = 0xED then 0x9F else 0xBF :: nat"
  note three = three_iff [OF assms, of q]
  have "?lo < 256" "?hi < 256" "0x80 \<le> ?lo" "?hi \<le> 0xBF" by simp_all
  then show "DecodeRune (b # q) =
      (if three_bytes (unat b) (map unat q)
       then (of_nat (((unat b - 0xE0) * 64 + (unat (q ! 0) - 0x80)) * 64 + (unat (q ! 1) - 0x80)), 3)
       else (RuneError, 1))"
    unfolding three
    using assms joined(2) [of b "q ! 0" "q ! 1"] decode_more [OF starts_at(2) [OF assms], of q]
    by (auto simp: cont_def simp del: of_nat_add of_nat_mult split: if_splits)
qed

lemma decode_four:
  assumes "0xF0 \<le> unat b" "unat b \<le> 0xF4"
  shows "DecodeRune (b # q) =
      (if four_bytes (unat b) (map unat q)
       then (of_nat ((((unat b - 0xF0) * 64 + (unat (q ! 0) - 0x80)) * 64 + (unat (q ! 1) - 0x80)) * 64
               + (unat (q ! 2) - 0x80)), 4)
       else (RuneError, 1))"
    and "\<not> unat b < 0x80" "\<not> two_bytes (unat b) r" "\<not> three_bytes (unat b) r"
proof -
  show "\<not> unat b < 0x80" "\<not> two_bytes (unat b) r" "\<not> three_bytes (unat b) r"
    using assms by (auto simp: two_bytes_def three_bytes_def)
  let ?lo = "if unat b = 0xF0 then 0x90 else 0x80 :: nat" and ?hi = "if unat b = 0xF4 then 0x8F else 0xBF :: nat"
  note four = four_iff [OF assms, of q]
  have "?lo < 256" "?hi < 256" "0x80 \<le> ?lo" "?hi \<le> 0xBF" by simp_all
  then show "DecodeRune (b # q) =
      (if four_bytes (unat b) (map unat q)
       then (of_nat ((((unat b - 0xF0) * 64 + (unat (q ! 0) - 0x80)) * 64 + (unat (q ! 1) - 0x80)) * 64
               + (unat (q ! 2) - 0x80)), 4)
       else (RuneError, 1))"
    unfolding four
    using assms joined(3) [of b "q ! 0" "q ! 1" "q ! 2"] decode_more [OF starts_at(3) [OF assms], of q]
    by (auto simp: cont_def simp del: of_nat_add of_nat_mult split: if_splits)
qed

lemma byte_nths:
  "two_bytes b (map unat q) \<Longrightarrow> map unat q ! 0 = unat (q ! 0)"
  "three_bytes b (map unat q) \<Longrightarrow> map unat q ! 0 = unat (q ! 0) \<and> map unat q ! 1 = unat (q ! 1)"
  "four_bytes b (map unat q) \<Longrightarrow>
     map unat q ! 0 = unat (q ! 0) \<and> map unat q ! 1 = unat (q ! 1) \<and> map unat q ! 2 = unat (q ! 2)"
  unfolding two_bytes_def three_bytes_def four_bytes_def length_map by (auto intro: nth_unat)

text \<open>\<^verbatim>\<open>DecodeRune\<close> is the reference decoder, with the error rune for a malformed start.\<close>

lemma DecodeRune_dec:
  "DecodeRune p = (case dec (map unat p) of None \<Rightarrow> (RuneError, min 1 (length p)) | Some (r, k) \<Rightarrow> (of_nat r, k))"
proof (cases p)
  case Nil
  then show ?thesis by (simp add: DecodeRune_def dec_def)
next
  case (Cons b q)
  note nths = byte_nths [of "unat b" q]
  show ?thesis
  proof (cases b rule: byte_kinds)
    case 1
    then show ?thesis by (simp add: Cons decode_ascii dec_def)
  next
    case 2
    then show ?thesis using Cons by (auto simp: decode_bad dec_defs)
  next
    case 3
    show ?thesis using nths decode_two(2-4) [OF 3] unfolding Cons decode_two(1) [OF 3] dec_def
      by (simp del: of_nat_add of_nat_mult)
  next
    case 4
    show ?thesis using nths decode_three(2-4) [OF 4] unfolding Cons decode_three(1) [OF 4] dec_def
      by (simp del: of_nat_add of_nat_mult)
  next
    case 5
    show ?thesis using nths decode_four(2-4) [OF 5] unfolding Cons decode_four(1) [OF 5] dec_def
      by (simp del: of_nat_add of_nat_mult)
  qed
qed

text \<open>The loops of \<^verbatim>\<open>Valid\<close> and \<^verbatim>\<open>RuneCount\<close> move on by the length of the encoding.\<close>

lemma cont_range: "c < locb \<or> hicb < c \<longleftrightarrow> \<not> cont (unat c)"
  by (auto simp: cont_def locb_def hicb_def word_less_nat_alt)

lemma valid_more:
  assumes "starts b sz lo hi" "lo < 256" "hi < 256" "0x80 \<le> unat b"
  shows "validSize (b # q) =
     (if length q + 1 < sz then None
      else if unat (q ! 0) < lo \<or> hi < unat (q ! 0) then None
      else if sz = 2 then Some sz
      else if \<not> cont (unat (q ! 1)) then None
      else if sz = 3 then Some sz
      else if \<not> cont (unat (q ! 2)) then None
      else Some sz)"
proof -
  have *: "first ! unat b \<noteq> xx" "unat (first ! unat b AND 7) = sz"
    "acceptRanges ! unat (drop_bit 4 (first ! unat b)) = (of_nat lo, of_nat hi)"
    using assms(1) by (auto simp: starts_def)
  have lim: "unat (of_nat lo :: byte) = lo" "unat (of_nat hi :: byte) = hi"
    using assms(2,3) by (simp_all add: unat_of_nat)
  have "\<not> b < RuneSelf" using assms(4) by (simp add: RuneSelf_def word_less_nat_alt)
  then show ?thesis
    unfolding validSize_def Let_def cont_range using * lim
    by (simp add: word_less_nat_alt numeral_2_eq_2 numeral_3_eq_3)
qed

lemma validSize_dec:
  assumes "p \<noteq> []"
  shows "validSize p = map_option snd (dec (map unat p))"
proof -
  obtain b q where p: "p = b # q" using assms by (cases p) auto
  show ?thesis
  proof (cases b rule: byte_kinds)
    case 1
    then show ?thesis by (simp add: p validSize_def RuneSelf_def word_less_nat_alt dec_def)
  next
    case 2
    then have "validSize p = None"
      by (simp add: p validSize_def RuneSelf_def word_less_nat_alt ascii_or_bad Let_def)
    then show ?thesis using 2 by (auto simp: p dec_defs)
  next
    case 3
    then have "0x80 \<le> unat b" by simp
    then have "validSize p = (if two_bytes (unat b) (map unat q) then Some 2 else None)"
      unfolding p two_iff [OF 3] by (subst valid_more [OF starts_at(1) [OF 3]]) (auto simp: cont_def)
    then show ?thesis using decode_two(2-4) [OF 3] by (simp add: p dec_def)
  next
    case 4
    then have "0x80 \<le> unat b" by simp
    then have "validSize p = (if three_bytes (unat b) (map unat q) then Some 3 else None)"
      unfolding p three_iff [OF 4] by (subst valid_more [OF starts_at(2) [OF 4]]) (auto simp: cont_def)
    then show ?thesis using decode_three(2-4) [OF 4] by (simp add: p dec_def)
  next
    case 5
    then have "0x80 \<le> unat b" by simp
    then have "validSize p = (if four_bytes (unat b) (map unat q) then Some 4 else None)"
      unfolding p four_iff [OF 5] by (subst valid_more [OF starts_at(3) [OF 5]]) (auto simp: cont_def)
    then show ?thesis using decode_four(2-4) [OF 5] by (simp add: p dec_def)
  qed
qed

lemma countSize_valid: "countSize p = (case validSize p of None \<Rightarrow> 1 | Some k \<Rightarrow> k)"
  by (simp add: countSize_def validSize_def Let_def split: prod.splits)

lemma dec_size: "dec p = Some (r, k) \<Longrightarrow> 1 \<le> k \<and> k \<le> length p"
  using dec_Some [of p r k] by (auto simp: enc_def)

lemma countSize_DecodeRune: "p \<noteq> [] \<Longrightarrow> countSize p = snd (DecodeRune p)"
  by (simp add: countSize_valid validSize_dec DecodeRune_dec Suc_le_eq split: option.splits)

lemma DecodeRune_size: "p \<noteq> [] \<Longrightarrow> 1 \<le> snd (DecodeRune p) \<and> snd (DecodeRune p) \<le> length p"
  using dec_size [of "map unat p"] by (auto simp: DecodeRune_dec Suc_le_eq split: option.splits)

lemma validSize_size: "p \<noteq> [] \<Longrightarrow> validSize p = Some k \<Longrightarrow> 1 \<le> k \<and> k \<le> length p"
  using dec_size [of "map unat p"] by (auto simp: validSize_dec)

lemma sint_32:
  fixes r :: u32
  shows "sint r = (if uint r < 2 ^ 31 then uint r else uint r - 2 ^ 32)"
proof -
  have u: "0 \<le> uint r" "uint r < 2 ^ 32" using uint_lt2p [of r] by simp_all
  have s: "sint r = (uint r + 2 ^ 31) mod 2 ^ 32 - 2 ^ 31"
    by (simp add: sint_uint signed_take_bit_eq_take_bit_shift take_bit_eq_mod)
  show ?thesis
  proof (cases "uint r < 2 ^ 31")
    case True
    then show ?thesis using u s by simp
  next
    case False
    have "(uint r + 2 ^ 31) mod 2 ^ 32 = (uint r - 2 ^ 31 + 2 ^ 32) mod 2 ^ 32" by (simp add: add.commute)
    also have "\<dots> = (uint r - 2 ^ 31) mod 2 ^ 32" by (rule mod_add_self2)
    also have "\<dots> = uint r - 2 ^ 31" using False u by (intro mod_pos_pos_trivial) simp_all
    finally show ?thesis using False s by simp
  qed
qed
subsection \<open>Counting and validation\<close>

function RuneCount_loop :: "byte list \<Rightarrow> nat \<Rightarrow> nat" where
  "RuneCount_loop p n = (if p = [] then n else RuneCount_loop (drop (countSize p) p) (n + 1))"
  by pat_completeness auto
termination
proof (relation "measure (\<lambda>(p, n). length p)")
  show "((drop (countSize p) p, n + 1), (p, n)) \<in> measure (\<lambda>(p, n). length p)" if "p \<noteq> []" for p n
    using that DecodeRune_size [OF that] by (simp add: countSize_DecodeRune)
qed simp

declare RuneCount_loop.simps [simp del]

definition RuneCount :: "byte list \<Rightarrow> nat" where
  "RuneCount p = RuneCount_loop p 0"

definition RuneCountInString :: "string \<Rightarrow> nat" where
  "RuneCountInString s = RuneCount_loop (bytes_of_string s) 0"

definition ascii8 :: "byte list \<Rightarrow> bool" where
  \<comment> \<open>the test of the fast path on the first eight bytes\<close>
  "ascii8 p \<longleftrightarrow>
     (let first32 = ucast (p ! 0) OR push_bit 8 (ucast (p ! 1)) OR push_bit 16 (ucast (p ! 2))
                    OR push_bit 24 (ucast (p ! 3)) :: u32;
          second32 = ucast (p ! 4) OR push_bit 8 (ucast (p ! 5)) OR push_bit 16 (ucast (p ! 6))
                    OR push_bit 24 (ucast (p ! 7)) :: u32
      in (first32 OR second32) AND 0x80808080 = 0)"

function Valid_fast :: "byte list \<Rightarrow> byte list" where
  "Valid_fast p = (if 8 \<le> length p \<and> ascii8 p then Valid_fast (drop 8 p) else p)"
  by pat_completeness auto
termination
  by (relation "measure length") auto

declare Valid_fast.simps [simp del]

function Valid_loop :: "byte list \<Rightarrow> bool" where
  "Valid_loop p =
     (if p = [] then True
      else case validSize p of None \<Rightarrow> False | Some sz \<Rightarrow> Valid_loop (drop sz p))"
  by pat_completeness auto
termination
proof (relation "measure length")
  show "(drop sz p, p) \<in> measure length" if "p \<noteq> []" "validSize p = Some sz" for p sz
    using that validSize_size [OF that] by simp
qed simp

declare Valid_loop.simps [simp del]

definition Valid :: "byte list \<Rightarrow> bool" where
  "Valid p = Valid_loop (Valid_fast p)"

definition ValidString :: "string \<Rightarrow> bool" where
  "ValidString s = Valid_loop (Valid_fast (bytes_of_string s))"

definition ValidRune :: "rune \<Rightarrow> bool" where
  "ValidRune r \<longleftrightarrow> 0 <=s r \<and> r <s surrogateMin \<or> surrogateMax <s r \<and> r <=s MaxRune"

text \<open>The runes that a \<^verbatim>\<open>range\<close> loop over a string visits, with the index of each.\<close>

function range_runes :: "nat \<Rightarrow> byte list \<Rightarrow> (nat \<times> rune) list" where
  "range_runes i p =
     (if p = [] then []
      else let (r, sz) = DecodeRune p in (i, r) # range_runes (i + sz) (drop sz p))"
  by pat_completeness auto
termination
proof (relation "measure (\<lambda>(i, p). length p)")
  show "((i + sz, drop sz p), i, p) \<in> measure (\<lambda>(i, p). length p)"
    if "p \<noteq> []" "x = DecodeRune p" "(r, sz) = x" for i p x r sz
    using DecodeRune_size [OF that(1)] that by (cases "DecodeRune p") simp
qed simp

declare range_runes.simps [simp del]

lemma high_bit: "bit b 7 \<longleftrightarrow> 0x80 \<le> unat b" for b :: byte
proof -
  have "unat b < 256" using unsigned_less [of b, where 'a = nat] by simp
  then have "unat b div 128 = (if 0x80 \<le> unat b then 1 else 0)" by (simp add: div_nat_eqI)
  moreover have "bit b 7 \<longleftrightarrow> odd (unat b div 128)"
    using bit_unsigned_iff [of b 7, where 'a = nat] by (simp add: bit_iff_odd)
  ultimately show ?thesis by simp
qed

lemma sign_bits: "(w :: u32) AND 0x80808080 = 0 \<longleftrightarrow> \<not> bit w 7 \<and> \<not> bit w 15 \<and> \<not> bit w 23 \<and> \<not> bit w 31"
proof -
  have "(0x80808080 :: u32) = 2 ^ 7 OR 2 ^ 15 OR 2 ^ 23 OR 2 ^ 31" by simp
  then show ?thesis
    by (simp only: bit.conj_disj_distrib or_eq_0_iff and_exp_eq_0_iff_not_bit)
qed

lemma ascii8_iff: "ascii8 p \<longleftrightarrow> list_all (\<lambda>i. unat (p ! i) < 0x80) [0..<8]"
proof -
  have no: "\<not> bit b n" if "8 \<le> n" for b :: byte and n
    using that bit_imp_le_length [of b n] by auto
  have eight: "[0..<8] = [0, 1, 2, 3, 4, 5, 6, 7 :: nat]" by (simp add: upt_rec)
  have "ascii8 p \<longleftrightarrow> \<not> (bit (p ! 0) 7 \<or> bit (p ! 4) 7) \<and> \<not> (bit (p ! 1) 7 \<or> bit (p ! 5) 7)
      \<and> \<not> (bit (p ! 2) 7 \<or> bit (p ! 6) 7) \<and> \<not> (bit (p ! 3) 7 \<or> bit (p ! 7) 7)"
    unfolding ascii8_def Let_def sign_bits
    by (simp add: no bit_or_iff bit_push_bit_iff bit_ucast_iff)
  also have "\<dots> \<longleftrightarrow> list_all (\<lambda>i. unat (p ! i) < 0x80) [0..<8]"
    unfolding eight by (auto simp: high_bit not_le)
  finally show ?thesis .
qed

lemma ValidRune_scalar: "ValidRune r \<longleftrightarrow> scalar_value (unat r)"
proof -
  define n where "n = unat r"
  have n: "n < 2 ^ 32" using unsigned_less [of r, where 'a = nat] by (simp add: n_def)
  have "uint r = int n" by (simp add: n_def)
  then have r: "sint r = (if n < 2 ^ 31 then int n else int n - 2 ^ 32)" unfolding sint_32 by auto
  have "sint surrogateMin = 0xD800" "sint surrogateMax = 0xDFFF" "sint MaxRune = 0x10FFFF" "sint (0 :: rune) = 0"
    by (simp_all add: surrogateMin_def surrogateMax_def MaxRune_def)
  then show ?thesis
    unfolding ValidRune_def scalar_value_def word_sle_eq word_sless_alt r n_def [symmetric] using n
    by (cases "n < 2 ^ 31") auto
qed

subsection \<open>Encoding\<close>

lemma ucast_shift: "(ucast (drop_bit k r) :: byte) = of_nat (unat r div 2 ^ k)" for r :: rune
proof -
  have "take_bit 32 (unat r) = unat r"
    using unsigned_less [of r, where 'a = nat] by (simp add: take_bit_nat_eq_self_iff)
  then have "unat (drop_bit k r) = unat r div 2 ^ k"
    unfolding unsigned_drop_bit_eq by (simp add: drop_bit_nat_def)
  then show ?thesis by (metis of_nat_unat)
qed

lemma trail_byte: "tx OR (of_nat n AND maskx) = of_nat (0x80 + n mod 64)"
proof -
  have "unat (of_nat n :: byte) mod 64 = n mod 64" by (simp add: unat_of_nat mod_mod_cancel)
  then show ?thesis unfolding tx_def maskx_def and_low by (subst lead_bits(4)) simp_all
qed

lemma encode3_enc:
  assumes "0x800 \<le> unat r" "unat r < 0x10000"
  shows "encode3 r = map of_nat (enc (unat r))"
proof -
  have d: "unat r div 64 div 64 = unat r div 2 ^ 12" "unat r div 64 = unat r div 2 ^ 6"
    by (simp_all add: div_mult2_eq [symmetric])
  have "unat r div 2 ^ 12 < 16" using assms(2) by (simp add: less_mult_imp_div_less)
  then have "t3 OR of_nat (unat r div 2 ^ 12) = of_nat (0xE0 + unat r div 2 ^ 12)"
    unfolding t3_def by (rule lead_bits(2))
  moreover have "enc (unat r) = [0xE0 + unat r div 2 ^ 12, 0x80 + unat r div 2 ^ 6 mod 64, 0x80 + unat r mod 64]"
    unfolding d [symmetric] enc_def using assms by simp
  moreover have "ucast r = (of_nat (unat r) :: byte)" by simp
  ultimately show ?thesis
    unfolding encode3_def ucast_shift trail_byte by (simp only: trail_byte list.map)
qed

lemma scalar_cases:
  obtains "unat r < 0x80" | "0x80 \<le> unat r" "unat r < 0x800" | "0x800 \<le> unat r" "unat r < 0x10000"
    | "0x10000 \<le> unat r"
  by linarith

lemma rune_limits:
  "r \<le> rune1Max \<longleftrightarrow> unat r < 0x80" "r \<le> rune2Max \<longleftrightarrow> unat r < 0x800" "r \<le> rune3Max \<longleftrightarrow> unat r < 0x10000"
  "MaxRune < r \<or> surrogateMin \<le> r \<and> r \<le> surrogateMax \<longleftrightarrow> \<not> scalar_value (unat r)"
  by (auto simp: rune1Max_def rune2Max_def rune3Max_def MaxRune_def surrogateMin_def surrogateMax_def scalar_value_def
      word_le_nat_alt word_less_nat_alt push_bit_eq_mult)

lemma AppendRune_enc:
  "AppendRune p r = p @ map of_nat (enc (if ValidRune r then unat r else unat RuneError))"
proof (cases "scalar_value (unat r)")
  case False
  then have "\<not> unat r < 0x80" "\<not> unat r < 0x800" by (auto simp: scalar_value_def)
  moreover have "encode3 RuneError = map of_nat (enc (unat RuneError))"
    by (rule encode3_enc) (simp_all add: RuneError_def)
  ultimately show ?thesis
    using False by (simp add: AppendRune_def appendRuneNonASCII_def rune_limits ValidRune_scalar)
next
  case True
  have u: "ucast r = (of_nat (unat r) :: byte)" by simp
  show ?thesis
  proof (cases r rule: scalar_cases)
    case 1
    then show ?thesis using True by (simp add: AppendRune_def rune_limits ValidRune_scalar enc1)
  next
    case 2
    have "unat r div 2 ^ 6 < 32" using 2 by (simp add: less_mult_imp_div_less)
    then have "t2 OR of_nat (unat r div 2 ^ 6) = of_nat (0xC0 + unat r div 2 ^ 6)"
      unfolding t2_def by (rule lead_bits(1))
    moreover have "enc (unat r) = [0xC0 + unat r div 2 ^ 6, 0x80 + unat r mod 64]" using 2 by (simp add: enc_def)
    ultimately show ?thesis
      using 2 True unfolding AppendRune_def appendRuneNonASCII_def rune_limits ucast_shift u trail_byte
      by (simp add: ValidRune_scalar del: of_nat_add)
  next
    case 3
    then show ?thesis
      using True by (simp add: AppendRune_def appendRuneNonASCII_def rune_limits ValidRune_scalar encode3_enc)
  next
    case 4
    have d: "unat r div 64 div 64 div 64 = unat r div 2 ^ 18" "unat r div 64 div 64 = unat r div 2 ^ 12"
      "unat r div 64 = unat r div 2 ^ 6"
      by (simp_all add: div_mult2_eq [symmetric])
    have "unat r \<le> 0x10FFFF" using True 4 by (simp add: scalar_value_def)
    then have "unat r div 2 ^ 18 < 8" by (simp add: less_mult_imp_div_less)
    then have "t4 OR of_nat (unat r div 2 ^ 18) = of_nat (0xF0 + unat r div 2 ^ 18)"
      unfolding t4_def by (rule lead_bits(3))
    moreover have "enc (unat r) = [0xF0 + unat r div 2 ^ 18, 0x80 + unat r div 2 ^ 12 mod 64,
        0x80 + unat r div 2 ^ 6 mod 64, 0x80 + unat r mod 64]"
      unfolding d [symmetric] enc_def using 4 by simp
    moreover have "\<not> unat r < 0x80" "\<not> unat r < 0x800" "\<not> unat r < 0x10000" using 4 by simp_all
    ultimately show ?thesis
      using True unfolding AppendRune_def appendRuneNonASCII_def rune_limits ucast_shift u trail_byte
      by (simp only: if_False ValidRune_scalar if_True list.map simp_thms)
  qed
qed

lemma enc_bytes:
  assumes "scalar_value r"
  shows "map unat (map of_nat (enc r) :: byte list) = enc r"
proof -
  have "x < 256" if "x \<in> set (enc r)" for x
  proof -
    have m: "y mod 64 < 64" for y :: nat by simp
    have "r < 0x800 \<Longrightarrow> r div 64 < 32" "r < 0x10000 \<Longrightarrow> r div 64 div 64 < 16"
      "r \<le> 0x10FFFF \<Longrightarrow> r div 64 div 64 div 64 < 5"
      by (simp_all add: div_mult2_eq [symmetric] less_mult_imp_div_less)
    moreover have "r \<le> 0x10FFFF" using assms by (auto simp: scalar_value_def)
    ultimately show ?thesis
      using that m [of r] m [of "r div 64"] m [of "r div 64 div 64"] unfolding enc_def
      by (fastforce split: if_splits)
  qed
  then have "map (\<lambda>x. unat (of_nat x :: byte)) (enc r) = map (\<lambda>x. x) (enc r)"
    by (intro map_cong) (simp_all add: unat_of_nat)
  then show ?thesis by (simp add: comp_def)
qed

lemma scalar_of_nat: "scalar_value r \<Longrightarrow> unat (of_nat r :: rune) = r"
  by (auto simp: scalar_value_def unat_of_nat)

lemma scalar_RuneError: "scalar_value (unat RuneError)"
  by (simp add: scalar_value_def RuneError_def)

lemma decode_append:
  "DecodeRune (AppendRune [] r @ rest) = (if ValidRune r then r else RuneError, length (AppendRune [] r))"
proof -
  let ?r = "if ValidRune r then unat r else unat RuneError"
  have sc: "scalar_value ?r" using scalar_RuneError by (simp add: ValidRune_scalar)
  have "dec (map unat (AppendRune [] r @ rest)) = Some (?r, length (enc ?r))"
    unfolding AppendRune_enc append_Nil map_append enc_bytes [OF sc] by (rule dec_enc [OF sc])
  then show ?thesis
    unfolding DecodeRune_dec by (simp add: AppendRune_enc)
qed

lemma AppendRune_nonempty: "AppendRune [] r \<noteq> []"
  by (simp add: AppendRune_enc enc_def)

lemma validSize_append:
  assumes "ValidRune r"
  shows "validSize (AppendRune [] r @ rest) = Some (length (AppendRune [] r))"
proof -
  have sc: "scalar_value (unat r)" using assms by (simp add: ValidRune_scalar)
  have "dec (map unat (AppendRune [] r @ rest)) = Some (unat r, length (enc (unat r)))"
    using assms unfolding AppendRune_enc append_Nil map_append by (simp add: enc_bytes [OF sc, simplified] dec_enc [OF sc])
  moreover have ne: "AppendRune [] r @ rest \<noteq> []" using AppendRune_nonempty by simp
  ultimately show ?thesis unfolding validSize_dec [OF ne] by (simp add: AppendRune_enc assms)
qed

lemma validSize_Some:
  assumes "p \<noteq> []" and "validSize p = Some k"
  shows "\<exists>r. ValidRune r \<and> p = AppendRune [] r @ drop k p"
proof -
  obtain r where "dec (map unat p) = Some (r, k)" using assms by (auto simp: validSize_dec)
  then have r: "scalar_value r" "take k (map unat p) = enc r" using dec_Some by blast+
  have "take k p = map of_nat (take k (map unat p))" by (simp add: take_map comp_def)
  then have "take k p = AppendRune [] (of_nat r)"
    using r scalar_of_nat [OF r(1)] by (simp add: AppendRune_enc ValidRune_scalar)
  then have "p = AppendRune [] (of_nat r) @ drop k p" by (metis append_take_drop_id)
  moreover have "ValidRune (of_nat r)" using r(1) by (simp add: ValidRune_scalar scalar_of_nat)
  ultimately show ?thesis by blast
qed

lemma Valid_loop_Nil [simp]: "Valid_loop []"
  by (simp add: Valid_loop.simps)

lemma Valid_loop_append: "ValidRune r \<Longrightarrow> Valid_loop (AppendRune [] r @ rest) = Valid_loop rest"
  by (subst Valid_loop.simps) (simp add: AppendRune_nonempty validSize_append)

lemma Valid_loop_iff:
  "Valid_loop p \<longleftrightarrow> (\<exists>rs. list_all ValidRune rs \<and> p = concat (map (AppendRune []) rs))"
proof
  show "\<exists>rs. list_all ValidRune rs \<and> p = concat (map (AppendRune []) rs)" if "Valid_loop p"
    using that
  proof (induction p rule: Valid_loop.induct)
    case (1 p)
    show ?case
    proof (cases "p = []")
      case True
      then show ?thesis by (intro exI [of _ "[]"]) simp
    next
      case False
      then obtain k where k: "validSize p = Some k" "Valid_loop (drop k p)"
        using 1(2) by (subst (asm) Valid_loop.simps) (auto split: option.splits)
      then obtain rs where "list_all ValidRune rs" "drop k p = concat (map (AppendRune []) rs)"
        using 1(1) [OF False] by blast
      moreover obtain r where "ValidRune r" "p = AppendRune [] r @ drop k p"
        using validSize_Some [OF False k(1)] by blast
      ultimately show ?thesis by (intro exI [of _ "r # rs"]) simp
    qed
  qed
  show "Valid_loop p" if "\<exists>rs. list_all ValidRune rs \<and> p = concat (map (AppendRune []) rs)"
  proof -
    have "list_all ValidRune rs \<Longrightarrow> Valid_loop (concat (map (AppendRune []) rs))" for rs
      by (induction rs) (simp_all add: Valid_loop_append)
    with that show ?thesis by blast
  qed
qed

lemma Valid_loop_ascii:
  "n \<le> length p \<Longrightarrow> list_all (\<lambda>i. unat (p ! i) < 0x80) [0..<n] \<Longrightarrow> Valid_loop (drop n p) = Valid_loop p"
proof (induction n)
  case (Suc n)
  have "validSize (drop n p) = Some 1"
    using Suc.prems by (simp add: validSize_def RuneSelf_def word_less_nat_alt)
  then have "Valid_loop (drop n p) = Valid_loop (drop (Suc n) p)"
    using Suc.prems by (subst Valid_loop.simps) simp
  then show ?case using Suc by simp
qed simp

lemma Valid_fast_ok: "Valid_loop (Valid_fast p) = Valid_loop p"
proof (induction p rule: Valid_fast.induct)
  case (1 p)
  then show ?case
    using Valid_loop_ascii [of 8 p] by (subst Valid_fast.simps) (simp add: ascii8_iff)
qed

lemma RuneCount_loop_range: "RuneCount_loop p n = n + length (range_runes i p)"
proof (induction p n arbitrary: i rule: RuneCount_loop.induct)
  case (1 p n)
  then show ?case
    by (subst RuneCount_loop.simps, subst range_runes.simps)
       (auto simp: countSize_DecodeRune split: prod.splits)
qed

lemma RuneStart_iff: "RuneStart b \<longleftrightarrow> \<not> cont (unat b)"
proof -
  have "\<forall>n \<in> {0..<256}. RuneStart (of_nat n) \<longleftrightarrow> \<not> cont n" by code_simp
  moreover have "unat b < 256" using unsigned_less [of b, where 'a = nat] by simp
  ultimately have "RuneStart (of_nat (unat b)) \<longleftrightarrow> \<not> cont (unat b)" by (metis atLeastLessThan_iff zero_le)
  then show ?thesis by simp
qed

lemma seekStart_stops:
  "RuneStart (p ! m) \<Longrightarrow> (\<And>i. m < i \<Longrightarrow> i \<le> m + j \<Longrightarrow> \<not> RuneStart (p ! i)) \<Longrightarrow> j < n \<Longrightarrow>
   seekStart p (int (m + j)) n = int m"
proof (induction j arbitrary: n)
  case 0
  then show ?case by (cases n) simp_all
next
  case (Suc j)
  then obtain n' where n: "n = Suc n'" "j < n'" by (cases n) auto
  have "\<not> RuneStart (p ! (m + Suc j))" using Suc.prems(2) [of "m + Suc j"] by simp
  moreover have "int (m + Suc j) - 1 = int (m + j)" by simp
  moreover have "nat (int (m + Suc j)) = m + Suc j" by (rule nat_int)
  ultimately have "seekStart p (int (m + Suc j)) n = seekStart p (int (m + j)) n'"
    unfolding n(1) seekStart.simps by simp
  also have "\<dots> = int m" using Suc.IH [OF Suc.prems(1) _ n(2)] Suc.prems(2) by simp
  finally show ?case .
qed

text \<open>The bytes of an encoding: one, or a start byte and up to three continuation bytes.\<close>

lemma enc_shape:
  assumes "scalar_value r"
  shows "length (enc r) \<le> 4" "length (enc r) = 1 \<Longrightarrow> enc r = [r] \<and> r < 0x80"
    "1 < length (enc r) \<Longrightarrow> 0xC0 \<le> enc r ! 0"
    "0 < i \<Longrightarrow> i < length (enc r) \<Longrightarrow> cont (enc r ! i)"
proof -
  have m: "y mod 64 < 64" for y :: nat by simp
  show "length (enc r) \<le> 4" "length (enc r) = 1 \<Longrightarrow> enc r = [r] \<and> r < 0x80"
    "1 < length (enc r) \<Longrightarrow> 0xC0 \<le> enc r ! 0"
    by (auto simp: enc_def split: if_splits)
  have "cont (0x80 + y mod 64)" for y using m [of y] by (simp add: cont_def)
  then show "0 < i \<Longrightarrow> i < length (enc r) \<Longrightarrow> cont (enc r ! i)"
    unfolding enc_def by (auto simp: nth_Cons' split: if_splits)
qed

lemma AppendRune_shape:
  fixes r
  defines "e \<equiv> AppendRune [] r"
  shows "length e \<le> 4" "length e = 1 \<Longrightarrow> unat (e ! 0) < 0x80" "1 < length e \<Longrightarrow> RuneStart (e ! 0)"
    "0 < i \<Longrightarrow> i < length e \<Longrightarrow> cont (unat (e ! i))"
proof -
  define n where "n = (if ValidRune r then unat r else unat RuneError)"
  have sc: "scalar_value n" using scalar_RuneError by (simp add: n_def ValidRune_scalar)
  have e: "map unat e = enc n" unfolding e_def AppendRune_enc n_def [symmetric] append_Nil by (rule enc_bytes [OF sc])
  have len: "length e = length (enc n)" using arg_cong [OF e, of length] by simp
  have at: "unat (e ! i) = enc n ! i" if "i < length e" for i using that e by (metis nth_map)
  note sh = enc_shape [OF sc]
  show "length e \<le> 4" using sh(1) len by simp
  show "length e = 1 \<Longrightarrow> unat (e ! 0) < 0x80" using sh(2) len at [of 0] by auto
  show "RuneStart (e ! 0)" if "1 < length e"
  proof -
    have "unat (e ! 0) = enc n ! 0" using that by (intro at) linarith
    then have "0xC0 \<le> unat (e ! 0)" using sh(3) len that by simp
    then show ?thesis by (simp add: RuneStart_iff cont_def)
  qed
  show "0 < i \<Longrightarrow> i < length e \<Longrightarrow> cont (unat (e ! i))" using sh(4) len at by simp
qed

lemma decode_last:
  "DecodeLastRune (p @ AppendRune [] r) = (if ValidRune r then r else RuneError, length (AppendRune [] r))"
proof -
  let ?e = "AppendRune [] r" let ?k = "length ?e" let ?q = "p @ ?e" let ?n = "length p + ?k"
  note sh = AppendRune_shape [where r = r]
  have dec: "DecodeRune ?e = (if ValidRune r then r else RuneError, ?k)" using decode_append [of r "[]"] by simp
  have k: "0 < ?k" using AppendRune_nonempty by simp
  have "?n - 1 = length p + (?k - 1)" using k by linarith
  then have lastb: "?q ! (?n - 1) = ?e ! (?k - 1)" by (simp only: nth_append_length_plus)
  have self: "(ucast b :: rune) < ucast RuneSelf \<longleftrightarrow> unat b < 0x80" for b :: byte
  proof -
    have "unat (ucast b :: rune) = unat b"
      using unsigned_less [of b, where 'a = nat] by (simp add: unsigned_ucast_eq take_bit_nat_eq_self_iff)
    then show ?thesis by (simp add: RuneSelf_def word_less_nat_alt)
  qed
  show ?thesis
  proof (cases "?k = 1")
    case True
    then have "?e = [?e ! 0]" by (cases ?e) auto
    then have "DecodeRune ?e = (ucast (?e ! 0), 1)" using decode_ascii [of "?e ! 0" "[]"] sh(2) [OF True] by simp
    then show ?thesis using True sh(2) [OF True] lastb dec by (simp add: DecodeLastRune_def self Let_def)
  next
    case False
    then have k2: "2 \<le> ?k" using k by linarith
    have "cont (unat (?e ! (?k - 1)))" using sh(4) [where i = "?k - 1"] k2 by simp
    then have big: "\<not> unat (?q ! (?n - 1)) < 0x80" unfolding lastb cont_def by simp
    have "seekStart ?q (int (length p + (?k - 2))) (?n - 1 - (?n - UTFMax)) = int (length p)"
    proof (rule seekStart_stops)
      show "RuneStart (?q ! length p)" using sh(3) k2 by (simp add: nth_append)
      show "\<not> RuneStart (?q ! i)" if "length p < i" "i \<le> length p + (?k - 2)" for i
        using that k2 sh(4) [where i = "i - length p"] by (simp add: nth_append RuneStart_iff)
      show "?k - 2 < ?n - 1 - (?n - UTFMax)" using k2 sh(1) by (simp add: UTFMax_def)
    qed
    moreover have "int (?n - 1) - 1 = int (length p + (?k - 2))" using k2 by simp
    ultimately have st: "nat (max 0 (seekStart ?q (int (?n - 1) - 1) (?n - 1 - (?n - UTFMax)))) = length p" by simp
    show ?thesis
      unfolding DecodeLastRune_def Let_def self length_append st using big k dec by simp
  qed
qed

subsection \<open>Properties\<close>

text \<open>C33: Decoding inverts encoding. From whatever bytes follow, \<^verbatim>\<open>DecodeRune\<close> reads back the rune
  that \<^verbatim>\<open>AppendRune\<close> wrote and the number of its bytes, and so does \<^verbatim>\<open>DecodeLastRune\<close> from whatever
  bytes precede; an invalid rune comes back as \<^verbatim>\<open>RuneError\<close>.\<close>

theorem DecodeRune_AppendRune:
  "DecodeRune (AppendRune [] r @ rest) = (if ValidRune r then r else RuneError, length (AppendRune [] r))
   \<and> DecodeLastRune (before @ AppendRune [] r) = (if ValidRune r then r else RuneError, length (AppendRune [] r))"
  using decode_append decode_last by blast

text \<open>C34: \<^verbatim>\<open>Valid\<close>, with its fast path over eight bytes at a time, accepts exactly the concatenations
  of encodings of valid runes: no overlong form, no surrogate, nothing cut short.\<close>

theorem Valid_iff_encoded:
  "Valid p \<longleftrightarrow> (\<exists>rs. list_all ValidRune rs \<and> p = concat (map (AppendRune []) rs))"
  unfolding Valid_def Valid_fast_ok by (rule Valid_loop_iff)

lemma RuneCount_range: "RuneCount p = length (range_runes 0 p)"
  by (simp add: RuneCount_def RuneCount_loop_range [of p 0 0])

end
