(* ===== verification/Go_Strings.thy ===== *)
theory Go_Strings
  imports Go_UTF8 "HOL-Library.Monad_Syntax"
begin

text \<open>
  Searching and splitting strings (\<^verbatim>\<open>strings/strings.go\<close> and the Rabin-Karp search of
  \<^verbatim>\<open>internal/bytealg/bytealg.go\<close>). The routines written in assembly, \<^verbatim>\<open>bytealg.IndexString\<close> and the
  constants that go with it, differ between machines; they are a record, with the documented
  behaviour of \<^verbatim>\<open>IndexString\<close> as a hypothesis (\<open>native_ok\<close>). An index is an option, \<^verbatim>\<open>-1\<close> being
  \<^term>\<open>None\<close>; a function that may index out of range returns an option of its result.
\<close>

subsection \<open>Bytes and slices of a string\<close>

text \<open>\<^verbatim>\<open>s[i]\<close> and \<^verbatim>\<open>s[i:j]\<close>, which panic out of range.\<close>

definition str_at :: "string \<Rightarrow> nat \<Rightarrow> char option" where
  "str_at s i = (if i < length s then Some (s ! i) else None)"

definition str_slice :: "string \<Rightarrow> nat \<Rightarrow> nat \<Rightarrow> string option" where
  "str_slice s i j = (if i \<le> j \<and> j \<le> length s then Some (take (j - i) (drop i s)) else None)"

lemma str_at_Some [simp]: "i < length s \<Longrightarrow> str_at s i = Some (s ! i)"
  by (simp add: str_at_def)

lemma str_slice_Some: "i \<le> j \<Longrightarrow> j \<le> length s \<Longrightarrow> str_slice s i j = Some (take (j - i) (drop i s))"
  by (simp add: str_slice_def)

lemma str_slice_rest: "i \<le> length s \<Longrightarrow> str_slice s i (length s) = Some (drop i s)"
  by (simp add: str_slice_def)

subsection \<open>Rabin-Karp\<close>

definition PrimeRK :: u32 where "PrimeRK = 16777619"

abbreviation u32_of :: "char \<Rightarrow> u32" where
  "u32_of c \<equiv> of_nat (of_char c)"

fun hash_loop :: "u32 \<Rightarrow> string \<Rightarrow> u32" where
  "hash_loop h [] = h"
| "hash_loop h (c # s) = hash_loop (h * PrimeRK + u32_of c) s"

function pow_loop :: "nat \<Rightarrow> u32 \<Rightarrow> u32 \<Rightarrow> u32" where
  "pow_loop i pow sq =
     (if 0 < i then pow_loop (i div 2) (if odd i then pow * sq else pow) (sq * sq) else pow)"
  by pat_completeness auto
termination
  by (relation "measure (\<lambda>(i, pow, sq). i)") auto

declare pow_loop.simps [simp del]

definition HashStr :: "string \<Rightarrow> u32 \<times> u32" where
  "HashStr sep = (hash_loop 0 sep, pow_loop (length sep) 1 PrimeRK)"

function rk_loop :: "string \<Rightarrow> string \<Rightarrow> u32 \<Rightarrow> u32 \<Rightarrow> u32 \<Rightarrow> nat \<Rightarrow> nat option option" where
  "rk_loop s sep hashss pow h i =
     (if i < length s
      then let n = length sep
           in if i < n then None
              else case (str_at s i, str_at s (i - n), str_slice s (i + 1 - n) (i + 1)) of
                     (Some new, Some old, Some w) \<Rightarrow>
                       let h = h * PrimeRK;
                           h = h + u32_of new;
                           h = h - pow * u32_of old;
                           i = i + 1
                       in if h = hashss \<and> w = sep then Some (Some (i - n))
                          else rk_loop s sep hashss pow h i
                   | _ \<Rightarrow> None
      else Some None)"
  by pat_completeness auto
termination
  by (relation "measure (\<lambda>(s, sep, hashss, pow, h, i). length s - i)") auto

declare rk_loop.simps [simp del]

definition IndexRabinKarp :: "string \<Rightarrow> string \<Rightarrow> nat option option" where
  \<comment> \<open>panics when \<open>s\<close> is shorter than \<open>sep\<close>\<close>
  "IndexRabinKarp s sep =
     (let (hashss, pow) = HashStr sep; n = length sep
      in if length s < n then None
         else
           let h = hash_loop 0 (take n s)
           in if h = hashss \<and> take n s = sep then Some (Some 0)
              else rk_loop s sep hashss pow h n)"

subsection \<open>Index\<close>

record bytealg =
  MaxLen :: nat
  MaxBruteForce :: nat
  IndexString :: "string \<Rightarrow> string \<Rightarrow> nat option"
  Cutover :: "nat \<Rightarrow> nat"

text \<open>The constants of \<^verbatim>\<open>index_amd64.go\<close> and \<^verbatim>\<open>index_generic.go\<close>.\<close>

definition bytealg_amd64 :: "bool \<Rightarrow> (string \<Rightarrow> string \<Rightarrow> nat option) \<Rightarrow> bytealg" where
  "bytealg_amd64 hasAVX2 indexString =
     \<lparr>MaxLen = (if hasAVX2 then 63 else 31), MaxBruteForce = 64, IndexString = indexString,
      Cutover = (\<lambda>n. (n + 16) div 8)\<rparr>"

text \<open>A turn of the loops of \<^verbatim>\<open>Index\<close>: move to the next place where the first byte matches, if the
  current one does not, and compare there. The outer option is a panic.\<close>

definition next_candidate :: "string \<Rightarrow> char \<Rightarrow> nat \<Rightarrow> nat \<Rightarrow> nat option option" where
  "next_candidate s c0 t i = do {
     c \<leftarrow> str_at s i;
     if c \<noteq> c0 then do {
       w \<leftarrow> str_slice s (i + 1) t;
       Some (map_option (\<lambda>d. i + (d + 1)) (IndexByteString w c0))
     } else Some (Some i)
   }"

definition matches_at :: "string \<Rightarrow> string \<Rightarrow> char \<Rightarrow> nat \<Rightarrow> bool option" where
  "matches_at s substr c1 j = do {
     c \<leftarrow> str_at s (j + 1);
     if c = c1 then map_option (\<lambda>w. w = substr) (str_slice s j (j + length substr)) else Some False
   }"

definition Index_turn :: "string \<Rightarrow> string \<Rightarrow> char \<Rightarrow> char \<Rightarrow> nat \<Rightarrow> nat \<Rightarrow> (nat option + nat) option" where
  \<comment> \<open>\<open>Inl\<close> the result of the search, or \<open>Inr\<close> the place where the comparison failed\<close>
  "Index_turn s substr c0 c1 t i =
     (case next_candidate s c0 t i of
        None \<Rightarrow> None
      | Some None \<Rightarrow> Some (Inl None)
      | Some (Some j) \<Rightarrow> map_option (\<lambda>m. if m then Inl (Some j) else Inr j) (matches_at s substr c1 j))"

lemma Index_turn_ge: "Index_turn s substr c0 c1 t i = Some (Inr j) \<Longrightarrow> i \<le> j"
  by (auto simp: Index_turn_def next_candidate_def Option.bind_eq_Some_conv split: option.splits if_splits)

function Index_small :: "bytealg \<Rightarrow> string \<Rightarrow> string \<Rightarrow> char \<Rightarrow> char \<Rightarrow> nat \<Rightarrow> nat \<Rightarrow> nat option option" where
  \<comment> \<open>the loop for \<^verbatim>\<open>n <= bytealg.MaxLen\<close>\<close>
  "Index_small ba s substr c0 c1 i fails =
     (let n = length substr; t = length s + 1 - n
      in if i < t
         then case Index_turn s substr c0 c1 t i of
                None \<Rightarrow> None
              | Some (Inl r) \<Rightarrow> Some r
              | Some (Inr j) \<Rightarrow>
                  if Cutover ba (j + 1) < fails + 1
                  then map_option (\<lambda>w. map_option (\<lambda>r. r + (j + 1)) (IndexString ba w substr))
                         (str_slice s (j + 1) (length s))
                  else Index_small ba s substr c0 c1 (j + 1) (fails + 1)
         else Some None)"
  by pat_completeness auto
termination
  by (relation "measure (\<lambda>(ba, s, substr, c0, c1, i, fails). length s + 1 - length substr - i)")
     (auto dest!: Index_turn_ge)

declare Index_small.simps [simp del]

function Index_large :: "string \<Rightarrow> string \<Rightarrow> char \<Rightarrow> char \<Rightarrow> nat \<Rightarrow> nat \<Rightarrow> nat option option" where
  "Index_large s substr c0 c1 i fails =
     (let n = length substr; t = length s + 1 - n
      in if i < t
         then case Index_turn s substr c0 c1 t i of
                None \<Rightarrow> None
              | Some (Inl r) \<Rightarrow> Some r
              | Some (Inr j) \<Rightarrow>
                  if 4 + (j + 1) div 16 \<le> fails + 1 \<and> j + 1 < t
                  then do {
                    w \<leftarrow> str_slice s (j + 1) (length s);
                    k \<leftarrow> IndexRabinKarp w substr;
                    Some (map_option (\<lambda>k. j + 1 + k) k)
                  }
                  else Index_large s substr c0 c1 (j + 1) (fails + 1)
         else Some None)"
  by pat_completeness auto
termination
  by (relation "measure (\<lambda>(s, substr, c0, c1, i, fails). length s + 1 - length substr - i)")
     (auto dest!: Index_turn_ge)

declare Index_large.simps [simp del]

definition Index :: "bytealg \<Rightarrow> string \<Rightarrow> string \<Rightarrow> nat option option" where
  "Index ba s substr =
     (let n = length substr
      in if n = 0 then Some (Some 0)
         else if n = 1 then map_option (IndexByteString s) (str_at substr 0)
         else if n = length s then Some (if substr = s then Some 0 else None)
         else if length s < n then Some None
         else if n \<le> MaxLen ba
         then if length s \<le> MaxBruteForce ba then Some (IndexString ba s substr)
              else do { c0 \<leftarrow> str_at substr 0; c1 \<leftarrow> str_at substr 1; Index_small ba s substr c0 c1 0 0 }
         else do { c0 \<leftarrow> str_at substr 0; c1 \<leftarrow> str_at substr 1; Index_large s substr c0 c1 0 0 })"

subsection \<open>The first occurrence\<close>

definition occurs :: "string \<Rightarrow> string \<Rightarrow> nat \<Rightarrow> bool" where
  "occurs s sub i \<longleftrightarrow> i + length sub \<le> length s \<and> take (length sub) (drop i s) = sub"

definition firstIndex :: "string \<Rightarrow> string \<Rightarrow> nat option" where
  "firstIndex s sub = List.find (occurs s sub) [0..<length s + 1]"

definition native_ok :: "bytealg \<Rightarrow> bool" where
  "native_ok ba \<longleftrightarrow> (\<forall>a b. 2 \<le> length b \<longrightarrow> length b \<le> MaxLen ba \<longrightarrow> IndexString ba a b = firstIndex a b)"

definition first_from :: "string \<Rightarrow> string \<Rightarrow> nat \<Rightarrow> nat option \<Rightarrow> bool" where
  "first_from s sub k r \<longleftrightarrow>
     (case r of
        None \<Rightarrow> (\<forall>i. k \<le> i \<longrightarrow> \<not> occurs s sub i)
      | Some j \<Rightarrow> k \<le> j \<and> occurs s sub j \<and> (\<forall>i. k \<le> i \<longrightarrow> i < j \<longrightarrow> \<not> occurs s sub i))"

lemma first_from_unique: "first_from s sub k r \<Longrightarrow> first_from s sub k r' \<Longrightarrow> r = r'"
proof (cases r; cases r')
  fix j j' assume "first_from s sub k r" "first_from s sub k r'" "r = Some j" "r' = Some j'"
  then show "r = r'" by (cases j j' rule: linorder_cases) (auto simp: first_from_def)
qed (auto simp: first_from_def)

lemma find_upt:
  "List.find P [0..<n] = (if \<exists>i < n. P i then Some (LEAST i. P i) else None)"
proof (induction n)
  case (Suc n)
  have least: "(LEAST i. P i) = n" if "P n" "\<not> (\<exists>i < n. P i)"
    using that by (intro Least_equality) (auto simp: not_less [symmetric])
  have "List.find P (xs @ [n]) = (case List.find P xs of None \<Rightarrow> if P n then Some n else None | Some y \<Rightarrow> Some y)" for xs
    by (induction xs) auto
  then show ?case using Suc least by (auto simp: less_Suc_eq)
qed simp

lemma first_from_firstIndex: "first_from s sub 0 (firstIndex s sub)"
proof (cases "\<exists>i. occurs s sub i")
  case True
  let ?l = "LEAST i. occurs s sub i"
  have l: "occurs s sub ?l" using LeastI_ex [OF True] .
  then have "\<exists>i < length s + 1. occurs s sub i" by (intro exI [of _ ?l]) (simp add: occurs_def)
  then have "firstIndex s sub = Some ?l" unfolding firstIndex_def find_upt by simp
  moreover have "\<not> occurs s sub i" if "i < ?l" for i using that by (rule not_less_Least)
  ultimately show ?thesis using l unfolding first_from_def by (simp only: option.case) blast
next
  case False
  then have "firstIndex s sub = None" unfolding firstIndex_def find_upt by simp
  then show ?thesis using False by (simp add: first_from_def)
qed

lemma firstIndex_eq: "firstIndex s sub = r \<longleftrightarrow> first_from s sub 0 r"
  using first_from_firstIndex first_from_unique by blast

lemma firstIndexI: "first_from s sub 0 r \<Longrightarrow> r = firstIndex s sub"
  using first_from_firstIndex first_from_unique by blast

lemma occurs_drop: "k \<le> length s \<Longrightarrow> occurs (drop k s) sub i \<longleftrightarrow> occurs s sub (k + i)"
  by (auto simp: occurs_def add.commute)

lemma first_from_drop:
  assumes "first_from (drop k s) sub 0 r" and "k \<le> length s"
  shows "first_from s sub k (map_option (\<lambda>i. k + i) r)"
proof (cases r)
  case None
  have "\<not> occurs s sub i" if "k \<le> i" for i
  proof -
    obtain d where "i = k + d" using \<open>k \<le> i\<close> by (auto simp: le_iff_add)
    then show ?thesis using assms(1) None occurs_drop [OF assms(2)] by (simp add: first_from_def)
  qed
  then show ?thesis by (simp add: first_from_def None)
next
  case (Some j)
  have "\<not> occurs s sub i" if "k \<le> i" "i < k + j" for i
  proof -
    obtain d where "i = k + d" using \<open>k \<le> i\<close> by (auto simp: le_iff_add)
    then show ?thesis using assms(1) Some that occurs_drop [OF assms(2)] by (simp add: first_from_def)
  qed
  then show ?thesis using assms(1) Some occurs_drop [OF assms(2), of sub j] by (simp add: first_from_def)
qed

lemma first_from_later:
  assumes "first_from s sub j r" and "i \<le> j" and "\<And>k. i \<le> k \<Longrightarrow> k < j \<Longrightarrow> \<not> occurs s sub k"
  shows "first_from s sub i r"
proof -
  have "\<not> occurs s sub k" if "i \<le> k" "k < j \<or> (j \<le> k \<longrightarrow> \<not> occurs s sub k)" for k
    using that assms(3) by (cases "k < j") auto
  then show ?thesis using assms(1,2) by (auto simp: first_from_def split: option.splits)
qed

subsection \<open>Rabin-Karp finds the first occurrence\<close>

lemma pow_loop_power: "pow_loop i p q = p * q ^ i"
proof (induction i p q rule: pow_loop.induct)
  case (1 i p q)
  show ?case
  proof (cases "0 < i")
    case True
    have "q ^ i = (if odd i then q else 1) * (q * q) ^ (i div 2)"
    proof (cases "odd i")
      case True
      then obtain j where "i = 2 * j + 1" by (rule oddE)
      then show ?thesis by (simp add: power_mult power2_eq_square)
    next
      case False
      then obtain j where "i = 2 * j" by (auto elim: evenE)
      then show ?thesis by (simp add: power_mult power2_eq_square)
    qed
    then show ?thesis using 1 True by (subst pow_loop.simps) (simp add: mult.assoc)
  qed (simp add: pow_loop.simps)
qed

lemma hash_append: "hash_loop h (a @ b) = hash_loop (hash_loop h a) b"
  by (induction a arbitrary: h) simp_all

lemma hash_start: "hash_loop h s = h * PrimeRK ^ length s + hash_loop 0 s"
proof (induction s arbitrary: h)
  case (Cons c s)
  show ?case using Cons [of "h * PrimeRK + u32_of c"] Cons [of "u32_of c"] by (simp add: algebra_simps)
qed simp

lemma hash_roll:
  "hash_loop 0 (x # a) * PrimeRK + u32_of y - PrimeRK ^ Suc (length a) * u32_of x = hash_loop 0 (a @ [y])"
  using hash_start [of "u32_of x" a] by (simp add: hash_append algebra_simps)

lemma window_roll:
  assumes "0 < n" "n \<le> i" "i < length s"
  shows "take n (drop (i - n) s) = s ! (i - n) # take (n - 1) (drop (i - n + 1) s)"
    "take n (drop (i + 1 - n) s) = take (n - 1) (drop (i - n + 1) s) @ [s ! i]"
proof -
  show "take n (drop (i - n) s) = s ! (i - n) # take (n - 1) (drop (i - n + 1) s)"
    using assms by (subst Cons_nth_drop_Suc [symmetric]) (auto simp: take_Cons')
  have "take (Suc (n - 1)) (drop (i - n + 1) s) = take (n - 1) (drop (i - n + 1) s) @ [drop (i - n + 1) s ! (n - 1)]"
    using assms by (intro take_Suc_conv_app_nth) simp
  then show "take n (drop (i + 1 - n) s) = take (n - 1) (drop (i - n + 1) s) @ [s ! i]"
    using assms by (simp add: Suc_diff_le)
qed

lemma rk_loop_first:
  assumes "0 < length sep" "length sep \<le> i" "h = hash_loop 0 (take (length sep) (drop (i - length sep) s))"
    and "\<not> occurs s sep (i - length sep)" "i \<le> length s"
  shows "\<exists>r. rk_loop s sep (hash_loop 0 sep) (PrimeRK ^ length sep) h i = Some r \<and> first_from s sep (i - length sep) r"
  using assms
proof (induction "length s - i" arbitrary: h i)
  case 0
  then have i: "i = length s" by simp
  have "\<not> occurs s sep k" if "i - length sep \<le> k" for k
  proof (cases "k = i - length sep")
    case False
    then have "\<not> k + length sep \<le> length s" using that i 0(3) by linarith
    then show ?thesis by (simp add: occurs_def)
  qed (use 0(5) in simp)
  then have "first_from s sep (i - length sep) None" by (simp add: first_from_def)
  then show ?case using i by (subst rk_loop.simps) simp
next
  case (Suc m)
  let ?n = "length sep"
  have i: "i < length s" using Suc.hyps(2) by simp
  define h' where "h' = h * PrimeRK + u32_of (s ! i) - PrimeRK ^ ?n * u32_of (s ! (i - ?n))"
  have h': "h' = hash_loop 0 (take ?n (drop (i + 1 - ?n) s))"
  proof -
    have e: "Suc (length (take (?n - 1) (drop (i - ?n + 1) s))) = ?n" using Suc.prems(1,2) i by simp
    show ?thesis
      unfolding h'_def Suc.prems(3) window_roll [OF Suc.prems(1,2) i]
      by (rule hash_roll [of "s ! (i - ?n)" "take (?n - 1) (drop (i - ?n + 1) s)" "s ! i", unfolded e])
  qed
  have occ: "occurs s sep (i + 1 - ?n) \<longleftrightarrow> take ?n (drop (i + 1 - ?n) s) = sep"
    using i Suc.prems(2) by (auto simp: occurs_def)
  have hit: "(h' = hash_loop 0 sep \<and> take ?n (drop (i + 1 - ?n) s) = sep) \<longleftrightarrow> occurs s sep (i + 1 - ?n)"
    unfolding occ h' by auto
  have step: "rk_loop s sep (hash_loop 0 sep) (PrimeRK ^ ?n) h i =
      (if occurs s sep (i + 1 - ?n) then Some (Some (i + 1 - ?n))
       else rk_loop s sep (hash_loop 0 sep) (PrimeRK ^ ?n) h' (i + 1))"
  proof -
    have "str_slice s (i + 1 - ?n) (i + 1) = Some (take ?n (drop (i + 1 - ?n) s))"
      using i Suc.prems(2) by (subst str_slice_Some) simp_all
    moreover have "\<not> i < ?n" "i - ?n < length s" using i Suc.prems(2) by linarith+
    ultimately show ?thesis
      using i unfolding hit [symmetric] by (subst rk_loop.simps) (simp add: h'_def Let_def)
  qed
  have before: "k = i - ?n" if "i - ?n \<le> k" "k < i + 1 - ?n" for k using that by linarith
  show ?case
  proof (cases "occurs s sep (i + 1 - ?n)")
    case True
    then have "first_from s sep (i - ?n) (Some (i + 1 - ?n))" using before Suc.prems(2,4) by (auto simp: first_from_def)
    then show ?thesis using True unfolding step by simp
  next
    case False
    then obtain r where r: "rk_loop s sep (hash_loop 0 sep) (PrimeRK ^ ?n) h' (i + 1) = Some r"
      "first_from s sep (i + 1 - ?n) r"
    proof -
      have "m = length s - (i + 1)" using Suc.hyps(2) by linarith
      with Suc.hyps(1) [of "i + 1" h'] Suc.prems i h' False show thesis using that by auto
    qed
    have "first_from s sep (i - ?n) r"
      using r(2) before Suc.prems(2,4) by (intro first_from_later [where j = "i + 1 - ?n" and i = "i - ?n"]) auto
    then show ?thesis using False r(1) unfolding step by simp
  qed
qed

lemma IndexRabinKarp_first:
  assumes "0 < length sep" "length sep \<le> length s"
  shows "IndexRabinKarp s sep = Some (firstIndex s sep)"
proof -
  let ?n = "length sep"
  have occ: "occurs s sep 0 \<longleftrightarrow> take ?n s = sep" using assms(2) by (simp add: occurs_def)
  have hash: "IndexRabinKarp s sep = (if occurs s sep 0 then Some (Some 0)
      else rk_loop s sep (hash_loop 0 sep) (PrimeRK ^ ?n) (hash_loop 0 (take ?n s)) ?n)"
    using assms occ by (auto simp: IndexRabinKarp_def HashStr_def pow_loop_power Let_def)
  show ?thesis
  proof (cases "occurs s sep 0")
    case True
    then have "first_from s sep 0 (Some 0)" by (simp add: first_from_def)
    then show ?thesis using hash True by (simp add: firstIndexI)
  next
    case False
    then show ?thesis
      using hash rk_loop_first [of sep ?n "hash_loop 0 (take ?n s)" s] assms by (auto intro: firstIndexI)
  qed
qed

subsection \<open>Index finds the first occurrence\<close>

lemma IndexByteString_first:
  "IndexByteString s c = Some i \<Longrightarrow> i < length s \<and> s ! i = c \<and> (\<forall>k < i. s ! k \<noteq> c)"
proof (induction s arbitrary: i)
  case (Cons x s)
  show ?case
  proof (cases "x = c")
    case False
    then obtain j where j: "IndexByteString s c = Some j" "i = Suc j" using Cons.prems by auto
    have "(x # s) ! k \<noteq> c" if "k < i" for k
      using that Cons.IH [OF j(1)] False j(2) by (cases k) auto
    then show ?thesis using Cons.IH [OF j(1)] j(2) by simp
  qed (use Cons.prems in auto)
qed simp

lemma next_candidate_None:
  assumes "next_candidate s c t i = Some None" and "t \<le> length s" and "i < t" and "i \<le> k" "k < t"
  shows "s ! k \<noteq> c"
proof (cases "k = i")
  case True
  then show ?thesis using assms by (auto simp: next_candidate_def)
next
  case False
  have w: "str_slice s (i + 1) t = Some (drop (i + 1) (take t s))"
    using assms(2,3) by (simp add: str_slice_def drop_take)
  have "c \<notin> set (drop (i + 1) (take t s))"
    using assms(1-3) w by (auto simp: next_candidate_def IndexByteString_None split: if_splits)
  moreover have "s ! k \<in> set (drop (i + 1) (take t s))"
    using assms(2-5) False unfolding in_set_conv_nth by (intro exI [of _ "k - (i + 1)"]) simp
  ultimately show ?thesis by metis
qed

lemma next_candidate_Some:
  assumes "next_candidate s c t i = Some (Some j)" and "t \<le> length s" and "i < t"
  shows "i \<le> j \<and> j < t \<and> (\<forall>k. i \<le> k \<longrightarrow> k < j \<longrightarrow> s ! k \<noteq> c)"
proof (cases "s ! i = c")
  case True
  then show ?thesis using assms by (auto simp: next_candidate_def)
next
  case False
  have w: "str_slice s (i + 1) t = Some (drop (i + 1) (take t s))"
    using assms(2,3) by (simp add: str_slice_def drop_take)
  then obtain d where d: "IndexByteString (drop (i + 1) (take t s)) c = Some d" "j = i + (d + 1)"
    using assms False by (auto simp: next_candidate_def)
  note first = IndexByteString_first [OF d(1)]
  have "s ! k \<noteq> c" if "i \<le> k" "k < j" for k
  proof (cases "k = i")
    case neq: False
    then have "i + 1 \<le> k" using that(1) by linarith
    then obtain m where m: "k = i + 1 + m" using le_Suc_ex by blast
    then have "m < d" using that(2) d(2) by simp
    then have "drop (i + 1) (take t s) ! m \<noteq> c" "m < length (drop (i + 1) (take t s))" using first by auto
    moreover from this have "i + 1 \<le> length (take t s)" "i + 1 + m < t" by auto
    ultimately show ?thesis unfolding m by (simp add: nth_drop)
  qed (use False in simp)
  moreover have "d < t - (i + 1)" using first assms(2) by simp
  ultimately show ?thesis using d(2) by auto
qed

lemma next_candidate_ok:
  assumes "t \<le> length s" and "i < t"
  shows "\<exists>c. next_candidate s c0 t i = Some c"
  using assms by (simp add: next_candidate_def str_slice_Some)

lemma occurs_hd:
  assumes "occurs s sub k" and "0 < length sub"
  shows "s ! k = sub ! 0"
proof -
  have "k < length s" using assms unfolding occurs_def by linarith
  moreover have "take (length sub) (drop k s) ! 0 = sub ! 0" using assms(1) by (simp add: occurs_def)
  ultimately show ?thesis using assms(2) by simp
qed

text \<open>What a turn of the loops finds out, for a text of at least two bytes that is shorter than the
  string.\<close>

lemma candidate_None:
  assumes "next_candidate s (sub ! 0) (length s + 1 - length sub) i = Some None" "0 < length sub" "length sub \<le> length s"
    and "i < length s + 1 - length sub"
  shows "first_from s sub i None"
proof -
  have "\<not> occurs s sub k" if "i \<le> k" for k
  proof
    assume occ: "occurs s sub k"
    then have k: "k < length s + 1 - length sub" unfolding occurs_def by linarith
    have "s ! k = sub ! 0" by (rule occurs_hd [OF occ assms(2)])
    then show False using next_candidate_None [OF assms(1) _ assms(4) that k(1)] assms(2,3) by simp
  qed
  then show ?thesis by (simp add: first_from_def)
qed

lemma candidate_Some:
  assumes "next_candidate s (sub ! 0) (length s + 1 - length sub) i = Some (Some j)" "2 \<le> length sub"
    and "length sub \<le> length s" and "i < length s + 1 - length sub"
  shows "i \<le> j" "j + length sub \<le> length s"
    "matches_at s sub (sub ! 1) j = Some (occurs s sub j)"
    "occurs s sub j \<Longrightarrow> first_from s sub i (Some j)"
    "\<not> occurs s sub j \<Longrightarrow> first_from s sub (j + 1) r \<Longrightarrow> first_from s sub i r"
proof -
  have t: "length s + 1 - length sub \<le> length s" using assms(2,3) by linarith
  have pos: "0 < length sub" using assms(2) by linarith
  note c = next_candidate_Some [OF assms(1) t assms(4)]
  show "i \<le> j" using c by simp
  show len: "j + length sub \<le> length s" using c assms(3) by linarith
  have none: "\<not> occurs s sub k" if "i \<le> k" "k < j" for k
    using c that occurs_hd [OF _ pos, of s k] by auto
  have "s ! (j + 1) = sub ! 1" if "take (length sub) (drop j s) = sub"
  proof -
    have "take (length sub) (drop j s) ! 1 = sub ! 1" using that by simp
    then show ?thesis using assms(2) len by simp
  qed
  moreover have "j + 1 < length s" using len assms(2) by linarith
  ultimately show "matches_at s sub (sub ! 1) j = Some (occurs s sub j)"
    using len by (auto simp: matches_at_def occurs_def str_slice_Some)
  show "occurs s sub j \<Longrightarrow> first_from s sub i (Some j)" using none \<open>i \<le> j\<close> by (simp add: first_from_def)
  show "first_from s sub i r" if "\<not> occurs s sub j" "first_from s sub (j + 1) r"
  proof (rule first_from_later [OF that(2)])
    show "i \<le> j + 1" using \<open>i \<le> j\<close> by simp
    show "\<not> occurs s sub k" if "i \<le> k" "k < j + 1" for k
      using none [of k] that \<open>\<not> occurs s sub j\<close> by (cases "k = j") simp_all
  qed
qed

text \<open>A turn does not panic; it ends the search with the first occurrence from \<open>i\<close> on, or goes on behind a
  place before which there is none.\<close>

lemma Index_turn_cases [consumes 3, case_names result go_on]:
  assumes "2 \<le> length sub" "length sub \<le> length s" "i < length s + 1 - length sub"
  obtains (result) r where "Index_turn s sub (sub ! 0) (sub ! 1) (length s + 1 - length sub) i = Some (Inl r)"
      and "first_from s sub i r"
    | (go_on) j where "Index_turn s sub (sub ! 0) (sub ! 1) (length s + 1 - length sub) i = Some (Inr j)"
      and "j + length sub \<le> length s" and "\<And>r. first_from s sub (j + 1) r \<Longrightarrow> first_from s sub i r"
proof -
  let ?t = "length s + 1 - length sub"
  have pos: "0 < length sub" and t: "?t \<le> length s" using assms(1,2) by linarith+
  obtain c where c: "next_candidate s (sub ! 0) ?t i = Some c" using next_candidate_ok [OF t assms(3)] by blast
  show thesis
  proof (cases c)
    case None
    have "first_from s sub i None" using candidate_None [OF _ pos assms(2,3)] c None by simp
    then show thesis using c None by (intro result [of None]) (simp_all add: Index_turn_def)
  next
    case (Some j)
    note cand = candidate_Some [OF c [unfolded Some] assms]
    show thesis
    proof (cases "occurs s sub j")
      case True
      then show thesis using c Some cand(3,4) by (intro result [of "Some j"]) (simp_all add: Index_turn_def)
    next
      case False
      then show thesis using c Some cand(2,3,5) by (intro go_on [of j]) (simp_all add: Index_turn_def)
    qed
  qed
qed

lemma first_from_end: "length s + 1 - length sub \<le> i \<Longrightarrow> length sub \<le> length s \<Longrightarrow> first_from s sub i None"
  unfolding first_from_def occurs_def by auto

lemma Index_small_first:
  assumes "native_ok ba" "2 \<le> length sub" "length sub \<le> MaxLen ba" "length sub \<le> length s"
  shows "\<exists>r. Index_small ba s sub (sub ! 0) (sub ! 1) i fails = Some r \<and> first_from s sub i r"
proof (induction "length s + 1 - length sub - i" arbitrary: i fails rule: less_induct)
  case less
  let ?t = "length s + 1 - length sub"
  show ?case
  proof (cases "i < ?t")
    case False
    then show ?thesis using first_from_end [of s sub i] assms(4) by (subst Index_small.simps) simp
  next
    case True
    from assms(2,4) True show ?thesis
    proof (cases rule: Index_turn_cases)
      case (result r)
      then show ?thesis using True by (subst Index_small.simps) simp
    next
      case (go_on j)
      have j: "j + 1 \<le> length s" using go_on(2) assms(2) by linarith
      let ?rest = "map_option (\<lambda>r. r + (j + 1)) (IndexString ba (drop (j + 1) s) sub)"
      have step: "Index_small ba s sub (sub ! 0) (sub ! 1) i fails =
          (if Cutover ba (j + 1) < fails + 1 then Some ?rest
           else Index_small ba s sub (sub ! 0) (sub ! 1) (j + 1) (fails + 1))"
        using True go_on(1) str_slice_rest [OF j]
        by (subst Index_small.simps) (simp only: Let_def option.case sum.case if_True option.map)
      have "?rest = map_option (\<lambda>i. j + 1 + i) (firstIndex (drop (j + 1) s) sub)"
        using assms(1-3) by (simp add: native_ok_def add.commute)
      then have rest: "first_from s sub (j + 1) ?rest"
        using first_from_drop [OF first_from_firstIndex j, of sub] by metis
      have "?t - (j + 1) < ?t - i" using Index_turn_ge [OF go_on(1)] True by linarith
      from less [OF this, of "fails + 1"] rest go_on(3) show ?thesis
        unfolding step by (cases "Cutover ba (j + 1) < fails + 1") (simp_all only: if_True if_False, blast+)
    qed
  qed
qed

lemma Index_large_first:
  assumes "2 \<le> length sub" "length sub \<le> length s"
  shows "\<exists>r. Index_large s sub (sub ! 0) (sub ! 1) i fails = Some r \<and> first_from s sub i r"
proof (induction "length s + 1 - length sub - i" arbitrary: i fails rule: less_induct)
  case less
  let ?t = "length s + 1 - length sub"
  show ?case
  proof (cases "i < ?t")
    case False
    then show ?thesis using first_from_end [of s sub i] assms(2) by (subst Index_large.simps) simp
  next
    case True
    from assms True show ?thesis
    proof (cases rule: Index_turn_cases)
      case (result r)
      then show ?thesis using True by (subst Index_large.simps) simp
    next
      case (go_on j)
      have j: "j + 1 \<le> length s" using go_on(2) assms(1) by linarith
      let ?rk = "4 + (j + 1) div 16 \<le> fails + 1 \<and> j + 1 < ?t"
      let ?rest = "do { k \<leftarrow> IndexRabinKarp (drop (j + 1) s) sub; Some (map_option (\<lambda>k. j + 1 + k) k) }"
      have step: "Index_large s sub (sub ! 0) (sub ! 1) i fails =
          (if ?rk then ?rest else Index_large s sub (sub ! 0) (sub ! 1) (j + 1) (fails + 1))"
        using True go_on(1) str_slice_rest [OF j]
        by (subst Index_large.simps) (simp only: Let_def option.case sum.case if_True Option.bind.simps)
      have "?t - (j + 1) < ?t - i" using Index_turn_ge [OF go_on(1)] True by linarith
      note IH = less [OF this, of "fails + 1"]
      show ?thesis
      proof (cases ?rk)
        case rk: True
        then have "0 < length sub" "length sub \<le> length (drop (j + 1) s)" using assms by auto
        then have "IndexRabinKarp (drop (j + 1) s) sub = Some (firstIndex (drop (j + 1) s) sub)"
          by (rule IndexRabinKarp_first)
        then have "Index_large s sub (sub ! 0) (sub ! 1) i fails =
            Some (map_option (\<lambda>k. j + 1 + k) (firstIndex (drop (j + 1) s) sub))"
          using rk unfolding step by (simp only: simp_thms if_True Option.bind.simps)
        then show ?thesis using go_on(3) first_from_drop [OF first_from_firstIndex j, of sub] by blast
      next
        case False
        then show ?thesis using IH go_on(3) unfolding step by (simp only: if_False) blast
      qed
    qed
  qed
qed

lemma IndexByteString_firstIndex: "IndexByteString s c = firstIndex s [c]"
proof -
  have occ: "occurs s [c] i \<longleftrightarrow> i < length s \<and> s ! i = c" for i
  proof
    show "i < length s \<and> s ! i = c" if "occurs s [c] i"
      using that occurs_hd [OF that] by (simp add: occurs_def)
    show "occurs s [c] i" if "i < length s \<and> s ! i = c"
      using that by (auto simp: occurs_def take_Suc_conv_app_nth)
  qed
  have "first_from s [c] 0 (IndexByteString s c)"
  proof (cases "IndexByteString s c")
    case None
    then have "c \<notin> set s" by (simp add: IndexByteString_None)
    then show ?thesis using None by (auto simp: first_from_def occ)
  next
    case (Some i)
    then show ?thesis using IndexByteString_first [OF Some] by (auto simp: first_from_def occ)
  qed
  then show ?thesis by (rule firstIndexI)
qed

lemma Index_first:
  assumes "native_ok ba"
  shows "Index ba s sub = Some (firstIndex s sub)"
proof -
  have whole: "firstIndex s sub = (if sub = s then Some 0 else None)" if "length sub = length s"
  proof -
    have "first_from s sub 0 (if sub = s then Some 0 else None)"
      using that by (auto simp: first_from_def occurs_def)
    then show ?thesis by (simp add: firstIndex_eq)
  qed
  have nil: "firstIndex s [] = Some 0" by (auto simp: firstIndex_eq first_from_def occurs_def)
  have long: "firstIndex s sub = None" if "length s < length sub"
    using that by (auto simp: firstIndex_eq first_from_def occurs_def)
  have shape: "sub = [] \<or> (\<exists>c. sub = [c]) \<or> 2 \<le> length sub" by (cases sub; cases "tl sub") auto
  have small: "Index_small ba s sub (sub ! 0) (sub ! 1) 0 0 = Some (firstIndex s sub)"
    if "2 \<le> length sub" "length sub \<le> MaxLen ba" "length sub \<le> length s"
    using Index_small_first [OF assms that] by (metis firstIndex_eq)
  have large: "Index_large s sub (sub ! 0) (sub ! 1) 0 0 = Some (firstIndex s sub)"
    if "2 \<le> length sub" "length sub \<le> length s"
    using Index_large_first [OF that] by (metis firstIndex_eq)
  have brute: "IndexString ba s sub = firstIndex s sub" if "2 \<le> length sub" "length sub \<le> MaxLen ba"
    using that assms by (simp add: native_ok_def)
  consider "sub = []" | c where "sub = [c]" | "2 \<le> length sub" "length sub = length s"
    | "2 \<le> length sub" "length s < length sub" | "2 \<le> length sub" "length sub < length s"
    using shape linorder_less_linear [of "length sub" "length s"] by blast
  then show ?thesis
  proof cases
    case 5
    then have "sub \<noteq> []" "length sub \<noteq> 1" "length sub \<noteq> length s" "\<not> length s < length sub"
      "str_at sub 0 = Some (sub ! 0)" "str_at sub 1 = Some (sub ! 1)" by (auto simp: str_at_def)
    then show ?thesis
      using 5(2) small [OF 5(1)] large [OF 5(1)] brute [OF 5(1)] by (simp add: Index_def Let_def)
  qed (auto simp: Index_def Let_def nil IndexByteString_firstIndex whole long)
qed

subsection \<open>Cutting and splitting\<close>

definition Contains :: "bytealg \<Rightarrow> string \<Rightarrow> string \<Rightarrow> bool option" where
  "Contains ba s substr = map_option (\<lambda>i. i \<noteq> None) (Index ba s substr)"

definition Cut :: "bytealg \<Rightarrow> string \<Rightarrow> string \<Rightarrow> (string \<times> string \<times> bool) option" where
  "Cut ba s sep =
     map_option (\<lambda>m. case m of Some i \<Rightarrow> (take i s, drop (i + length sep) s, True) | None \<Rightarrow> (s, [], False))
       (Index ba s sep)"

fun explode_loop :: "string \<Rightarrow> nat \<Rightarrow> string list" where
  \<comment> \<open>the strings for the remaining \<open>n\<close> slots\<close>
  "explode_loop s 0 = []"
| "explode_loop s (Suc 0) = [s]"
| "explode_loop s (Suc (Suc n)) =
     (let (_, sz) = DecodeRuneInString s in take sz s # explode_loop (drop sz s) (Suc n))"

definition explode :: "string \<Rightarrow> int \<Rightarrow> string list" where
  "explode s n =
     (let l = RuneCountInString s
      in explode_loop s (if n < 0 \<or> int l < n then l else nat n))"

function Count_loop :: "bytealg \<Rightarrow> string \<Rightarrow> string \<Rightarrow> nat \<Rightarrow> nat option" where
  "Count_loop ba s substr n =
     (if substr = [] then None
      else case Index ba s substr of
             None \<Rightarrow> None
           | Some None \<Rightarrow> Some n
           | Some (Some i) \<Rightarrow>
               if i + length substr \<le> length s
               then Count_loop ba (drop (i + length substr) s) substr (n + 1)
               else None)"
  by pat_completeness auto
termination
proof (relation "measure (\<lambda>(ba, s, substr, n). length s)")
  show "((ba, drop (i + length substr) s, substr, n + 1), ba, s, substr, n) \<in> measure (\<lambda>(ba, s, substr, n). length s)"
    if "substr \<noteq> []" "i + length substr \<le> length s" for ba s substr n i
    using that by (cases substr) auto
qed simp

declare Count_loop.simps [simp del]

definition Count :: "bytealg \<Rightarrow> string \<Rightarrow> string \<Rightarrow> nat option" where
  "Count ba s substr =
     (if length substr = 0 then Some (RuneCountInString s + 1)
      else if length substr = 1 then Some (length (filter (\<lambda>c. c = substr ! 0) s))
      else Count_loop ba s substr 0)"

fun genSplit_loop :: "bytealg \<Rightarrow> string \<Rightarrow> string \<Rightarrow> nat \<Rightarrow> nat \<Rightarrow> string list option" where
  \<comment> \<open>with \<open>n\<close> slots left before the last one\<close>
  "genSplit_loop ba s sep sepSave 0 = Some [s]"
| "genSplit_loop ba s sep sepSave (Suc n) =
     (case Index ba s sep of
        None \<Rightarrow> None
      | Some None \<Rightarrow> Some [s]
      | Some (Some m) \<Rightarrow>
          map_option ((#) (take (m + sepSave) s)) (genSplit_loop ba (drop (m + length sep) s) sep sepSave n))"

definition genSplit :: "bytealg \<Rightarrow> string \<Rightarrow> string \<Rightarrow> nat \<Rightarrow> int \<Rightarrow> string list option" where
  "genSplit ba s sep sepSave n =
     (if n = 0 then Some []
      else if sep = [] then Some (explode s n)
      else case (if n < 0 then Count ba s sep else Some (nat n - 1)) of
             None \<Rightarrow> None
           | Some m \<Rightarrow> genSplit_loop ba s sep sepSave (min m (length s)))"

definition Split :: "bytealg \<Rightarrow> string \<Rightarrow> string \<Rightarrow> string list option" where
  "Split ba s sep = genSplit ba s sep 0 (-1)"

definition SplitN :: "bytealg \<Rightarrow> string \<Rightarrow> string \<Rightarrow> int \<Rightarrow> string list option" where
  "SplitN ba s sep n = genSplit ba s sep 0 n"

definition SplitAfter :: "bytealg \<Rightarrow> string \<Rightarrow> string \<Rightarrow> string list option" where
  "SplitAfter ba s sep = genSplit ba s sep (length sep) (-1)"

definition maxInt :: nat where "maxInt = 2 ^ 63 - 1"

fun Join_len :: "nat \<Rightarrow> string list \<Rightarrow> nat option" where
  "Join_len n [] = Some n"
| "Join_len n (e # es) = (if maxInt - n < length e then None else Join_len (n + length e) es)"

definition Join :: "string list \<Rightarrow> string \<Rightarrow> string option" where
  \<comment> \<open>panics when the length of the result is not an \<^verbatim>\<open>int\<close>\<close>
  "Join elems sep =
     (case elems of
        [] \<Rightarrow> Some []
      | [e] \<Rightarrow> Some e
      | e # es \<Rightarrow>
          if sep \<noteq> [] \<and> maxInt div length es \<le> length sep then None
          else case Join_len (length sep * length es) elems of
                 None \<Rightarrow> None
               | Some _ \<Rightarrow> Some (e @ concat (map (\<lambda>s. sep @ s) es)))"

text \<open>For a separator of one byte no routine for the machine is called.\<close>

definition CutByte :: "string \<Rightarrow> char \<Rightarrow> string \<times> string \<times> bool" where
  "CutByte s c =
     (case IndexByteString s c of
        Some i \<Rightarrow> (take i s, drop (i + 1) s, True)
      | None \<Rightarrow> (s, [], False))"

lemma Index_byte: "Index ba s [c] = Some (IndexByteString s c)"
  by (simp add: Index_def)

lemma Cut_byte: "Cut ba s [c] = Some (CutByte s c)"
  by (simp add: Cut_def Index_byte CutByte_def split: option.split)

lemma Contains_byte: "Contains ba s [c] = Some (c \<in> set s)"
  using IndexByteString_None [of s c] by (auto simp: Contains_def Index_byte)

text \<open>The pieces between the occurrences that a search from the left finds.\<close>

lemma firstIndex_Some: "firstIndex s sub = Some i \<Longrightarrow> occurs s sub i \<and> (\<forall>k < i. \<not> occurs s sub k)"
  using first_from_firstIndex [of s sub] by (simp add: first_from_def)

lemma firstIndex_None: "firstIndex s sub = None \<Longrightarrow> \<not> occurs s sub k"
  using first_from_firstIndex [of s sub] by (simp add: first_from_def)

function splitOn :: "string \<Rightarrow> string \<Rightarrow> string list" where
  "splitOn s sep =
     (if sep = [] then [s]
      else case firstIndex s sep of
             None \<Rightarrow> [s]
           | Some m \<Rightarrow> take m s # splitOn (drop (m + length sep) s) sep)"
  by pat_completeness auto
termination
proof (relation "measure (\<lambda>(s, sep). length s)")
  show "((drop (m + length sep) s, sep), s, sep) \<in> measure (\<lambda>(s, sep). length s)"
    if "sep \<noteq> []" "firstIndex s sep = Some m" for s sep m
    using that firstIndex_Some [OF that(2)] by (cases sep) (auto simp: occurs_def)
qed simp

declare splitOn.simps [simp del]

lemma splitOn_None: "firstIndex s sep = None \<Longrightarrow> splitOn s sep = [s]"
  by (subst splitOn.simps) simp

lemma splitOn_Some:
  "sep \<noteq> [] \<Longrightarrow> firstIndex s sep = Some m \<Longrightarrow> splitOn s sep = take m s # splitOn (drop (m + length sep) s) sep"
  by (subst splitOn.simps) simp

lemma splitOn_nonempty: "splitOn s sep \<noteq> []"
  by (subst splitOn.simps) (simp split: option.split)

lemma splitOn_induct [consumes 1, case_names None Some]:
  assumes "sep \<noteq> []" and "\<And>s. firstIndex s sep = None \<Longrightarrow> P s"
    and "\<And>s m. firstIndex s sep = Some m \<Longrightarrow> m + length sep \<le> length s \<Longrightarrow> P (drop (m + length sep) s) \<Longrightarrow> P s"
  shows "P s"
proof (induction s rule: length_induct)
  case (1 s)
  show ?case
  proof (cases "firstIndex s sep")
    case None
    then show ?thesis by (rule assms(2))
  next
    case (Some m)
    have m: "m + length sep \<le> length s" using firstIndex_Some [OF Some] by (simp add: occurs_def)
    then have "length (drop (m + length sep) s) < length s" using assms(1) by (cases sep) auto
    then show ?thesis using 1 assms(3) [OF Some m] by blast
  qed
qed

lemma Count_loop_splitOn:
  assumes "native_ok ba" "sep \<noteq> []"
  shows "Count_loop ba s sep n = Some (n + (length (splitOn s sep) - 1))"
  using assms(2)
proof (induction s arbitrary: n rule: splitOn_induct)
  case (None s)
  then show ?case using assms by (subst Count_loop.simps) (simp add: Index_first splitOn_None)
next
  case (Some s m)
  then show ?case
    using assms splitOn_nonempty [of "drop (m + length sep) s" sep]
    by (subst Count_loop.simps) (simp add: Index_first splitOn_Some Suc_diff_le Suc_leI)
qed

lemma splitOn_length:
  assumes "sep \<noteq> []"
  shows "length (splitOn s sep) \<le> length s + 1"
  using assms
proof (induction s rule: splitOn_induct)
  case (None s)
  then show ?case by (simp add: splitOn_None)
next
  case (Some s m)
  then show ?case using assms by (cases sep) (auto simp: splitOn_Some)
qed

lemma genSplit_loop_splitOn:
  assumes "native_ok ba" "sep \<noteq> []"
  shows "genSplit_loop ba s sep 0 (length (splitOn s sep) - 1) = Some (splitOn s sep)"
  using assms(2)
proof (induction s rule: splitOn_induct)
  case (None s)
  then show ?case by (simp add: splitOn_None)
next
  case (Some s m)
  obtain n where n: "length (splitOn (drop (m + length sep) s) sep) = Suc n"
    using splitOn_nonempty [of "drop (m + length sep) s" sep] by (cases "splitOn (drop (m + length sep) s) sep") auto
  then show ?case using Some assms by (simp add: splitOn_Some Index_first)
qed

lemma Count_splitOn:
  assumes "native_ok ba" "sep \<noteq> []"
  shows "Count ba s sep = Some (length (splitOn s sep) - 1)"
proof (cases "length sep = 1")
  case False
  then show ?thesis using assms Count_loop_splitOn [OF assms, of s 0] by (simp add: Count_def)
next
  case True
  then obtain c where c: "sep = [c]" by (cases sep) auto
  have ne: "[c] \<noteq> []" by simp
  then have "length (filter (\<lambda>x. x = c) s) = length (splitOn s [c]) - 1"
  proof (induction s rule: splitOn_induct)
    case (None s)
    then have "c \<notin> set s" by (simp add: IndexByteString_firstIndex [symmetric] IndexByteString_None)
    then have "filter (\<lambda>x. x = c) s = []" by (auto simp: filter_empty_conv)
    then show ?case using None by (simp add: splitOn_None)
  next
    case (Some s m)
    obtain b where s: "s = take m s @ c # b" "c \<notin> set (take m s)"
      using Some(1) IndexByteString_split [of s c m] by (auto simp: IndexByteString_firstIndex)
    have "filter (\<lambda>x. x = c) (take m s) = []" using s(2) by (auto simp: filter_empty_conv)
    then have "length (filter (\<lambda>x. x = c) s) = Suc (length (filter (\<lambda>x. x = c) b))"
      by (subst s(1)) simp
    moreover have "drop (m + 1) s = b"
      using Some(2) by (subst s(1)) simp
    ultimately show ?case
      using Some splitOn_nonempty [of b "[c]"] by (simp add: splitOn_Some Suc_diff_le Suc_leI)
  qed
  then show ?thesis by (simp add: Count_def c)
qed

lemma Split_splitOn:
  assumes "native_ok ba" "sep \<noteq> []"
  shows "Split ba s sep = Some (splitOn s sep)"
proof -
  have "min (length (splitOn s sep) - 1) (length s) = length (splitOn s sep) - 1"
    using splitOn_length [OF assms(2), of s] by simp
  then show ?thesis
    using assms genSplit_loop_splitOn [OF assms, of s] Count_splitOn [OF assms, of s]
    by (simp add: Split_def genSplit_def)
qed

lemma splitOn_concat:
  assumes "sep \<noteq> []"
  shows "hd (splitOn s sep) @ concat (map (\<lambda>p. sep @ p) (tl (splitOn s sep))) = s"
  using assms
proof (induction s rule: splitOn_induct)
  case (None s)
  then show ?case by (simp add: splitOn_None)
next
  case (Some s m)
  let ?r = "drop (m + length sep) s"
  have "splitOn ?r sep = hd (splitOn ?r sep) # tl (splitOn ?r sep)" using splitOn_nonempty by simp
  then have "concat (map (\<lambda>p. sep @ p) (splitOn ?r sep)) = sep @ ?r"
    using Some(3) by (metis append.assoc concat.simps(2) list.simps(9))
  moreover have "take (length sep) (drop m s) = sep" using firstIndex_Some [OF Some(1)] by (simp add: occurs_def)
  then have "drop m s = sep @ ?r" by (metis append_take_drop_id drop_drop add.commute)
  ultimately show ?case using assms Some(1) by (simp add: splitOn_Some) (metis append_take_drop_id)
qed

lemma splitOn_pieces:
  assumes "sep \<noteq> []"
  shows "list_all (\<lambda>p. firstIndex p sep = None) (splitOn s sep)"
  using assms
proof (induction s rule: splitOn_induct)
  case (None s)
  then show ?case by (simp add: splitOn_None)
next
  case (Some s m)
  have "\<not> occurs (take m s) sep k" for k
  proof
    assume occ: "occurs (take m s) sep k"
    then have len: "k + length sep \<le> length s" "k + length sep \<le> m" by (auto simp: occurs_def)
    then have "take (length sep) (drop k (take m s)) = take (length sep) (drop k s)"
      by (simp add: drop_take min_def)
    then have "occurs s sep k" using occ len by (simp add: occurs_def)
    moreover have "k < m" using len assms by (cases sep) auto
    ultimately show False using firstIndex_Some [OF Some(1)] by blast
  qed
  then have "firstIndex (take m s) sep = None" by (simp add: firstIndex_eq first_from_def)
  then show ?case using Some assms by (simp add: splitOn_Some)
qed

subsection \<open>Properties\<close>

text \<open>C31: \<^verbatim>\<open>Index\<close> returns the place of the first occurrence, or none, and never indexes out of
  range: through the search for single bytes, the loop that skips to the next match of the first
  byte, the change to the machine's routine or to Rabin-Karp after too many false matches,
  and whatever the machine's limits are, provided its routine does what its comment says. Every byte
  and every slice that the search takes of its arguments is in range.\<close>

theorem Index_finds_first:
  assumes "native_ok ba"
  shows "Index ba s substr = Some (List.find (occurs s substr) [0..<length s + 1])"
  using Index_first [OF assms] by (simp add: firstIndex_def)

theorem Index_finds_first_witness:
  "native_ok (bytealg_amd64 True firstIndex)
   \<and> Index (bytealg_amd64 True firstIndex) ''abcabd'' ''abd'' = Some (Some 3)"
proof
  show ok: "native_ok (bytealg_amd64 True firstIndex)" by (simp add: native_ok_def bytealg_amd64_def)
  have "List.find (occurs ''abcabd'' ''abd'') [0..<length ''abcabd'' + 1] = Some 3" by code_simp
  then show "Index (bytealg_amd64 True firstIndex) ''abcabd'' ''abd'' = Some (Some 3)"
    using Index_finds_first [OF ok, of "''abcabd''" "''abd''"] by simp
qed

text \<open>C32: \<^verbatim>\<open>Split\<close> takes a string apart at a separator so that joining the pieces with the separator
  gives the string back, and no piece contains the separator.\<close>

theorem Split_pieces:
  assumes "native_ok ba" and "sep \<noteq> []"
  shows "\<exists>p ps. Split ba s sep = Some (p # ps) \<and> p @ concat (map (\<lambda>q. sep @ q) ps) = s
     \<and> list_all (\<lambda>q. List.find (occurs q sep) [0..<length q + 1] = None) (p # ps)"
proof -
  obtain p ps where "splitOn s sep = p # ps" using splitOn_nonempty by (cases "splitOn s sep") auto
  then show ?thesis
    using Split_splitOn [OF assms, of s] splitOn_concat [OF assms(2), of s] splitOn_pieces [OF assms(2), of s]
    by (simp add: firstIndex_def)
qed

theorem Split_pieces_witness:
  "\<exists>p ps. Split (bytealg_amd64 True firstIndex) ''a, b,c'' '','' = Some (p # ps)
     \<and> p @ concat (map (\<lambda>q. '','' @ q) ps) = ''a, b,c''
     \<and> list_all (\<lambda>q. List.find (occurs q '','') [0..<length q + 1] = None) (p # ps)"
  by (rule Split_pieces) (simp_all add: native_ok_def bytealg_amd64_def)

end
