(* ===== verification/Net_URL.thy ===== *)
theory Net_URL
  imports Go_Strings Go_Map "HOL-Library.List_Lexorder" "HOL-Library.Char_ord" "HOL-Library.Monad_Syntax"
begin

text \<open>
  Escaping and query strings of \<^verbatim>\<open>net/url/url.go\<close>. The handlers of the proxy's API read their
  parameters with \<^verbatim>\<open>URL.Query\<close>, and the search handler builds a query of its own.

  A Go map is an association list (theory \<open>Go_Map\<close>). \<^verbatim>\<open>sort.Strings\<close> sorts by bytes, which is the
  lexicographic order on lists of characters.
\<close>

subsection \<open>Escaping\<close>

datatype encoding =
    encodePath | encodePathSegment | encodeHost | encodeZone | encodeUserPassword
  | encodeQueryComponent | encodeFragment

datatype url_error =
    EscapeError string
  | InvalidHostError string
  | SemicolonError

definition upperhex :: string where
  "upperhex = ''0123456789ABCDEF''"

definition between :: "char \<Rightarrow> char \<Rightarrow> char \<Rightarrow> bool" where
  "between lo c hi \<longleftrightarrow> byte_of_char lo \<le> byte_of_char c \<and> byte_of_char c \<le> byte_of_char hi"

definition ishex :: "char \<Rightarrow> bool" where
  "ishex c =
     (if between CHR ''0'' c CHR ''9'' then True
      else if between CHR ''a'' c CHR ''f'' then True
      else if between CHR ''A'' c CHR ''F'' then True
      else False)"

definition unhex :: "char \<Rightarrow> byte" where
  "unhex c =
     (if between CHR ''0'' c CHR ''9'' then byte_of_char c - byte_of_char CHR ''0''
      else if between CHR ''a'' c CHR ''f'' then byte_of_char c - byte_of_char CHR ''a'' + 10
      else if between CHR ''A'' c CHR ''F'' then byte_of_char c - byte_of_char CHR ''A'' + 10
      else 0)"

definition shouldEscape :: "char \<Rightarrow> encoding \<Rightarrow> bool" where
  "shouldEscape c mode =
     (if between CHR ''a'' c CHR ''z'' \<or> between CHR ''A'' c CHR ''Z'' \<or> between CHR ''0'' c CHR ''9'' then False
      else if (mode = encodeHost \<or> mode = encodeZone)
              \<and> c \<in> set ''!$&()*+,;=:[]<>'' \<union> {CHR 0x27, CHR 0x22} then False
      else if c \<in> set ''-_.~'' then False
      else if c \<in> set ''$&+,/:;=?@'' \<and> mode \<notin> {encodeHost, encodeZone}
      then (case mode of
              encodePath \<Rightarrow> c = CHR ''?''
            | encodePathSegment \<Rightarrow> c = CHR ''/'' \<or> c = CHR '';'' \<or> c = CHR '','' \<or> c = CHR ''?''
            | encodeUserPassword \<Rightarrow> c = CHR ''@'' \<or> c = CHR ''/'' \<or> c = CHR ''?'' \<or> c = CHR '':''
            | encodeQueryComponent \<Rightarrow> True
            | encodeFragment \<Rightarrow> False
            | _ \<Rightarrow> True)
      else if mode = encodeFragment \<and> c \<in> set ''!()*'' then False
      else True)"

definition unhex2 :: "char \<Rightarrow> char \<Rightarrow> char" where
  "unhex2 a b = char_of_byte (push_bit 4 (unhex a) OR unhex b)"

text \<open>The first loop of \<^verbatim>\<open>unescape\<close> checks the escapes and counts them, on what is left of the string.\<close>

function unescape_check :: "string \<Rightarrow> encoding \<Rightarrow> nat \<Rightarrow> bool \<Rightarrow> url_error + (nat \<times> bool)" where
  "unescape_check s mode n hasPlus =
     (case s of
        [] \<Rightarrow> Inr (n, hasPlus)
      | c # r \<Rightarrow>
          if c = CHR ''%'' then
            (if length s \<le> 2 \<or> \<not> ishex (s ! 1) \<or> \<not> ishex (s ! 2) then Inl (EscapeError (take 3 s))
             else if mode = encodeHost \<and> unhex (s ! 1) < 8 \<and> take 3 s \<noteq> ''%25'' then Inl (EscapeError (take 3 s))
             else if mode = encodeZone \<and> take 3 s \<noteq> ''%25'' \<and> unhex2 (s ! 1) (s ! 2) \<noteq> CHR '' ''
                     \<and> shouldEscape (unhex2 (s ! 1) (s ! 2)) encodeHost
             then Inl (EscapeError (take 3 s))
             else unescape_check (drop 3 s) mode (n + 1) hasPlus)
          else if c = CHR ''+'' then unescape_check r mode n (mode = encodeQueryComponent)
          else if (mode = encodeHost \<or> mode = encodeZone) \<and> byte_of_char c < 0x80 \<and> shouldEscape c mode
          then Inl (InvalidHostError [c])
          else unescape_check r mode n hasPlus)"
  by pat_completeness auto
termination
  by (relation "measure (\<lambda>(s, mode, n, hasPlus). length s)") auto

declare unescape_check.simps [simp del]

text \<open>The second loop; the first has made sure that two digits follow a percent sign.\<close>

function unescape_build :: "string \<Rightarrow> encoding \<Rightarrow> string" where
  "unescape_build s mode =
     (case s of
        [] \<Rightarrow> []
      | c # r \<Rightarrow>
          if c = CHR ''%'' then unhex2 (s ! 1) (s ! 2) # unescape_build (drop 3 s) mode
          else if c = CHR ''+'' then
            (if mode = encodeQueryComponent then CHR '' '' else CHR ''+'') # unescape_build r mode
          else c # unescape_build r mode)"
  by pat_completeness auto
termination
  by (relation "measure (\<lambda>(s, mode). length s)") auto

declare unescape_build.simps [simp del]

definition unescape :: "string \<Rightarrow> encoding \<Rightarrow> url_error + string" where
  "unescape s mode =
     (case unescape_check s mode 0 False of
        Inl e \<Rightarrow> Inl e
      | Inr (n, hasPlus) \<Rightarrow>
          if n = 0 \<and> \<not> hasPlus then Inr s else Inr (unescape_build s mode))"

definition QueryUnescape :: "string \<Rightarrow> url_error + string" where
  "QueryUnescape s = unescape s encodeQueryComponent"

definition PathUnescape :: "string \<Rightarrow> url_error + string" where
  "PathUnescape s = unescape s encodePathSegment"

text \<open>\<^verbatim>\<open>escape\<close> counts what it has to replace, allocates a buffer of the length that follows and writes
  into it at an index; a write behind the end of the buffer is a panic, \<^term>\<open>None\<close>.\<close>

definition buf_put :: "string \<Rightarrow> nat \<Rightarrow> char \<Rightarrow> string option" where
  "buf_put t j c = (if j < length t then Some (t[j := c]) else None)"

fun plus_loop :: "string \<Rightarrow> nat \<Rightarrow> string \<Rightarrow> string option" where
  "plus_loop [] i t = Some t"
| "plus_loop (c # s) i t =
     (if c = CHR '' '' then do { t \<leftarrow> buf_put t i CHR ''+''; plus_loop s (i + 1) t }
      else plus_loop s (i + 1) t)"

fun escape_loop :: "string \<Rightarrow> encoding \<Rightarrow> nat \<Rightarrow> string \<Rightarrow> string option" where
  "escape_loop [] mode j t = Some t"
| "escape_loop (c # s) mode j t =
     (if c = CHR '' '' \<and> mode = encodeQueryComponent then do {
        t \<leftarrow> buf_put t j CHR ''+'';
        escape_loop s mode (j + 1) t
      }
      else if shouldEscape c mode then do {
        t \<leftarrow> buf_put t j CHR ''%'';
        t \<leftarrow> buf_put t (j + 1) (upperhex ! unat (drop_bit 4 (byte_of_char c)));
        t \<leftarrow> buf_put t (j + 2) (upperhex ! unat (byte_of_char c AND 15));
        escape_loop s mode (j + 3) t
      }
      else do {
        t \<leftarrow> buf_put t j c;
        escape_loop s mode (j + 1) t
      })"

definition escape :: "string \<Rightarrow> encoding \<Rightarrow> string option" where
  "escape s mode =
     (let spaceCount = length (filter (\<lambda>c. shouldEscape c mode \<and> c = CHR '' '' \<and> mode = encodeQueryComponent) s);
          hexCount = length (filter (\<lambda>c. shouldEscape c mode \<and> \<not> (c = CHR '' '' \<and> mode = encodeQueryComponent)) s);
          required = length s + 2 * hexCount;
          t = replicate required CHR 0x00
      in if spaceCount = 0 \<and> hexCount = 0 then Some s
         else if hexCount = 0 then plus_loop s 0 (take (length t) s @ drop (length s) t)
         else escape_loop s mode 0 t)"

definition QueryEscape :: "string \<Rightarrow> string option" where
  "QueryEscape s = escape s encodeQueryComponent"

definition PathEscape :: "string \<Rightarrow> string option" where
  "PathEscape s = escape s encodePathSegment"

subsection \<open>Query strings\<close>

type_synonym Values = "(string, string list) gomap"

definition Values_Get :: "Values \<Rightarrow> string \<Rightarrow> string" where
  "Values_Get v key = (case map_index [] v key of [] \<Rightarrow> [] | x # _ \<Rightarrow> x)"

definition Values_Set :: "Values \<Rightarrow> string \<Rightarrow> string \<Rightarrow> Values" where
  "Values_Set v key value = AList.update key [value] v"

definition Values_Add :: "Values \<Rightarrow> string \<Rightarrow> string \<Rightarrow> Values" where
  "Values_Add v key value = AList.update key (map_index [] v key @ [value]) v"

definition Values_Del :: "Values \<Rightarrow> string \<Rightarrow> Values" where
  "Values_Del v key = AList.delete key v"

definition Values_Has :: "Values \<Rightarrow> string \<Rightarrow> bool" where
  "Values_Has v key \<longleftrightarrow> map_of v key \<noteq> None"

lemma CutByte_length: "s \<noteq> [] \<Longrightarrow> CutByte s c = (a, b, found) \<Longrightarrow> length b < length s"
  by (auto simp: CutByte_def split: option.splits)

function parseQuery :: "Values \<Rightarrow> string \<Rightarrow> url_error option \<Rightarrow> Values \<times> url_error option" where
  "parseQuery m query err =
     (if query = [] then (m, err)
      else
        let (key, query, _) = CutByte query CHR ''&''
        in if CHR '';'' \<in> set key then parseQuery m query (Some SemicolonError)
           else if key = [] then parseQuery m query err
           else
             let (key, value, _) = CutByte key CHR ''=''
             in case QueryUnescape key of
                  Inl err1 \<Rightarrow> parseQuery m query (if err = None then Some err1 else err)
                | Inr key \<Rightarrow>
                    (case QueryUnescape value of
                       Inl err1 \<Rightarrow> parseQuery m query (if err = None then Some err1 else err)
                     | Inr value \<Rightarrow> parseQuery (Values_Add m key value) query err))"
  by pat_completeness auto
termination
  by (relation "measure (\<lambda>(m, query, err). length query)") (auto intro: CutByte_length [OF _ sym])

declare parseQuery.simps [simp del]

definition ParseQuery :: "string \<Rightarrow> Values \<times> url_error option" where
  "ParseQuery query = parseQuery [] query None"

fun Encode_values :: "string \<Rightarrow> string list \<Rightarrow> string \<Rightarrow> string option" where
  \<comment> \<open>the inner loop of \<^verbatim>\<open>Encode\<close>, appending to \<open>buf\<close>\<close>
  "Encode_values keyEscaped [] buf = Some buf"
| "Encode_values keyEscaped (v # vs) buf = do {
     valueEscaped \<leftarrow> QueryEscape v;
     Encode_values keyEscaped vs
       ((if 0 < length buf then buf @ ''&'' else buf) @ keyEscaped @ ''='' @ valueEscaped)
   }"

fun Encode_keys :: "Values \<Rightarrow> string list \<Rightarrow> string \<Rightarrow> string option" where
  "Encode_keys v [] buf = Some buf"
| "Encode_keys v (k # ks) buf = do {
     keyEscaped \<leftarrow> QueryEscape k;
     buf \<leftarrow> Encode_values keyEscaped (map_index [] v k) buf;
     Encode_keys v ks buf
   }"

definition Encode :: "Values \<Rightarrow> string option" where
  "Encode v = (if length v = 0 then Some [] else Encode_keys v (sort (map fst v)) [])"

record URL =
  RawQuery :: string

definition URL_Query :: "URL \<Rightarrow> Values" where
  "URL_Query u = fst (ParseQuery (RawQuery u))"

subsection \<open>Escapes\<close>

lemma hex_digit: "k < 16 \<Longrightarrow> ishex (upperhex ! k) \<and> unhex (upperhex ! k) = of_nat k"
proof -
  assume "k < 16"
  moreover have "\<forall>k \<in> set [0..<16]. ishex (upperhex ! k) \<and> unhex (upperhex ! k) = of_nat k" by code_simp
  ultimately show ?thesis by simp
qed

lemma unat_lt2p_byte: "unat (b :: byte) < 256"
  using unsigned_less [of b] by simp

lemma join_nibbles: "push_bit 4 (drop_bit 4 b) OR (b AND 15) = (b :: byte)"
proof -
  have 15: "(15 :: byte) = Bit_Operations.mask 4" by (simp add: mask_eq_exp_minus_1)
  show ?thesis
    unfolding 15 by (intro bit_word_eqI) (auto simp: bit_simps simp del: mask_numeral)
qed

lemma nibble_less: "unat (drop_bit 4 (byte_of_char c)) < 16" "unat (byte_of_char c AND 15) < 16"
proof -
  let ?b = "byte_of_char c"
  have "unat (drop_bit 4 ?b) = unat ?b div 16"
    by (simp add: drop_bit_eq_div unat_div del: unat_byte_of_char)
  with unat_lt2p_byte [of ?b] show "unat (drop_bit 4 ?b) < 16" by linarith
  show "unat (?b AND 15) < 16" using word_and_le1 [of ?b 15] by (simp add: word_le_nat_alt)
qed

lemma hex_digits:
  "ishex (upperhex ! unat (drop_bit 4 (byte_of_char c))) \<and> ishex (upperhex ! unat (byte_of_char c AND 15))
   \<and> unhex2 (upperhex ! unat (drop_bit 4 (byte_of_char c))) (upperhex ! unat (byte_of_char c AND 15)) = c"
  by (simp add: nibble_less hex_digit unhex2_def join_nibbles)

lemma shouldEscape_percent [simp]: "shouldEscape CHR ''%'' mode"
proof -
  have "\<forall>m \<in> {encodePath, encodePathSegment, encodeHost, encodeZone, encodeUserPassword, encodeQueryComponent,
                encodeFragment}. shouldEscape CHR ''%'' m"
    by code_simp
  then show ?thesis by (cases mode) simp_all
qed

lemma shouldEscape_query [simp]:
  "shouldEscape CHR ''+'' encodeQueryComponent"
  "shouldEscape CHR ''&'' encodeQueryComponent"
  "shouldEscape CHR ''='' encodeQueryComponent"
  "shouldEscape CHR '';'' encodeQueryComponent"
  "shouldEscape CHR '' '' encodeQueryComponent"
  by code_simp+

text \<open>What \<^verbatim>\<open>escape\<close> has to return, written without a buffer.\<close>

fun escaped :: "string \<Rightarrow> encoding \<Rightarrow> string" where
  "escaped [] mode = []"
| "escaped (c # s) mode =
     (if c = CHR '' '' \<and> mode = encodeQueryComponent then CHR ''+'' # escaped s mode
      else if shouldEscape c mode
      then CHR ''%'' # upperhex ! unat (drop_bit 4 (byte_of_char c)) # upperhex ! unat (byte_of_char c AND 15)
             # escaped s mode
      else c # escaped s mode)"

lemma buf_put_next: "buf_put (a @ x # b) (length a) c = Some (a @ c # b)"
  by (simp add: buf_put_def list_update_append)

lemma length_escaped:
  "length (escaped s mode) =
     length s + 2 * length (filter (\<lambda>c. shouldEscape c mode \<and> \<not> (c = CHR '' '' \<and> mode = encodeQueryComponent)) s)"
  by (induction s) auto

lemma escape_loop_escaped:
  "length rest = length (escaped s mode) \<Longrightarrow> escape_loop s mode (length a) (a @ rest) = Some (a @ escaped s mode)"
proof (induction s arbitrary: a rest)
  case (Cons c s)
  consider (plus) "c = CHR '' '' \<and> mode = encodeQueryComponent"
    | (hex) "\<not> (c = CHR '' '' \<and> mode = encodeQueryComponent)" "shouldEscape c mode"
    | (other) "\<not> (c = CHR '' '' \<and> mode = encodeQueryComponent)" "\<not> shouldEscape c mode" by blast
  then show ?case
  proof cases
    case plus
    with Cons.prems obtain x r where "rest = x # r" "length r = length (escaped s mode)" by (cases rest) auto
    with Cons.IH [of r "a @ ''+''"] plus show ?thesis by (simp add: buf_put_next)
  next
    case hex
    with Cons.prems obtain x y z r where r: "rest = x # y # z # r" "length r = length (escaped s mode)"
      by (auto simp: length_Suc_conv)
    let ?h = "upperhex ! unat (drop_bit 4 (byte_of_char c))" and ?l = "upperhex ! unat (byte_of_char c AND 15)"
    have "buf_put (a @ CHR ''%'' # y # z # r) (length a + 1) ?h = Some (a @ CHR ''%'' # ?h # z # r)"
      "buf_put (a @ CHR ''%'' # ?h # z # r) (length a + 2) ?l = Some (a @ CHR ''%'' # ?h # ?l # r)"
      using buf_put_next [of "a @ ''%''" y "z # r"] buf_put_next [of "a @ [CHR ''%'', ?h]" z r] by simp_all
    with Cons.IH [of r "a @ [CHR ''%'', ?h, ?l]"] hex r show ?thesis
      by (auto simp: buf_put_next numeral_3_eq_3)
  next
    case other
    with Cons.prems obtain x r where "rest = x # r" "length r = length (escaped s mode)" by (cases rest) auto
    with Cons.IH [of r "a @ [c]"] other show ?thesis by (auto simp: buf_put_next)
  qed
qed simp

lemma plus_loop_map: "plus_loop s (length a) (a @ s) = Some (a @ map (\<lambda>c. if c = CHR '' '' then CHR ''+'' else c) s)"
proof (induction s arbitrary: a)
  case (Cons c s)
  from Cons.IH [of "a @ [if c = CHR '' '' then CHR ''+'' else c]"] show ?case
    by (auto simp: buf_put_next)
qed simp

lemma escaped_id: "(\<forall>c \<in> set s. \<not> shouldEscape c mode) \<Longrightarrow> escaped s mode = s"
  by (induction s) auto

lemma escaped_spaces:
  "(\<forall>c \<in> set s. shouldEscape c mode \<longrightarrow> c = CHR '' '' \<and> mode = encodeQueryComponent) \<Longrightarrow> mode = encodeQueryComponent
   \<Longrightarrow> escaped s mode = map (\<lambda>c. if c = CHR '' '' then CHR ''+'' else c) s"
proof (induction s)
  case (Cons c s)
  then have "escaped s mode = map (\<lambda>c. if c = CHR '' '' then CHR ''+'' else c) s" by simp
  moreover have "c = CHR '' '' \<or> \<not> shouldEscape c mode" using Cons.prems(1) by auto
  ultimately show ?case using Cons.prems(2) by (cases "c = CHR '' ''") simp_all
qed simp

text \<open>The length that \<^verbatim>\<open>escape\<close> computes is that of the result, and its short cuts return what its loop would.\<close>

lemma escape_escaped: "escape s mode = Some (escaped s mode)"
proof -
  define sp where "sp c \<longleftrightarrow> shouldEscape c mode \<and> c = CHR '' '' \<and> mode = encodeQueryComponent" for c
  define hx where "hx c \<longleftrightarrow> shouldEscape c mode \<and> \<not> (c = CHR '' '' \<and> mode = encodeQueryComponent)" for c
  let ?t = "replicate (length s + 2 * length (filter hx s)) CHR 0x00"
  have eq: "escape s mode =
      (if length (filter sp s) = 0 \<and> length (filter hx s) = 0 then Some s
       else if length (filter hx s) = 0 then plus_loop s 0 (take (length ?t) s @ drop (length s) ?t)
       else escape_loop s mode 0 ?t)"
    by (simp add: escape_def sp_def [abs_def] hx_def [abs_def] Let_def)
  have loop: "escape_loop s mode 0 ?t = Some (escaped s mode)"
    using escape_loop_escaped [of ?t s mode "[]"] length_escaped [of s mode] by (simp add: hx_def [abs_def])
  have "escaped s mode = s" if "filter sp s = []" "filter hx s = []"
    using that unfolding sp_def [abs_def] hx_def [abs_def] filter_empty_conv by (intro escaped_id) blast
  moreover have "plus_loop s 0 (take (length ?t) s @ drop (length s) ?t) = Some (escaped s mode)"
    if "filter sp s \<noteq> []" "filter hx s = []"
  proof -
    have mode: "mode = encodeQueryComponent" using that(1) unfolding sp_def [abs_def] filter_empty_conv by blast
    have "\<forall>c \<in> set s. shouldEscape c mode \<longrightarrow> c = CHR '' '' \<and> mode = encodeQueryComponent"
      using that(2) unfolding hx_def [abs_def] filter_empty_conv by blast
    from escaped_spaces [OF this mode] show ?thesis using plus_loop_map [of s "[]"] that(2) by simp
  qed
  ultimately show ?thesis
    unfolding eq loop by (cases "filter hx s = []"; cases "filter sp s = []") simp_all
qed

abbreviation queryEscaped :: "string \<Rightarrow> string" where
  "queryEscaped s \<equiv> escaped s encodeQueryComponent"

lemma QueryEscape_escaped [simp]: "QueryEscape s = Some (queryEscaped s)"
  by (simp add: QueryEscape_def escape_escaped)

lemma unescape_check_Nil [simp]: "unescape_check [] mode n hp = Inr (n, hp)"
  by (subst unescape_check.simps) simp

lemma unescape_check_hex:
  "mode \<noteq> encodeHost \<Longrightarrow> mode \<noteq> encodeZone \<Longrightarrow> ishex a \<Longrightarrow> ishex b
   \<Longrightarrow> unescape_check (CHR ''%'' # a # b # s) mode n hp = unescape_check s mode (n + 1) hp"
  by (subst unescape_check.simps) simp

lemma unescape_check_plus:
  "unescape_check (CHR ''+'' # s) mode n hp = unescape_check s mode n (mode = encodeQueryComponent)"
  by (subst unescape_check.simps) simp

lemma unescape_check_other:
  "c \<noteq> CHR ''%'' \<Longrightarrow> c \<noteq> CHR ''+'' \<Longrightarrow> mode \<noteq> encodeHost \<Longrightarrow> mode \<noteq> encodeZone
   \<Longrightarrow> unescape_check (c # s) mode n hp = unescape_check s mode n hp"
  by (subst unescape_check.simps) simp

lemma unescape_build_simps [simp]:
  "unescape_build [] mode = []"
  "unescape_build (CHR ''%'' # a # b # s) mode = unhex2 a b # unescape_build s mode"
  "unescape_build (CHR ''+'' # s) mode =
     (if mode = encodeQueryComponent then CHR '' '' else CHR ''+'') # unescape_build s mode"
  "c \<noteq> CHR ''%'' \<Longrightarrow> c \<noteq> CHR ''+'' \<Longrightarrow> unescape_build (c # s) mode = c # unescape_build s mode"
  by (subst unescape_build.simps, simp)+

lemma unescape_build_id:
  "CHR ''%'' \<notin> set s \<Longrightarrow> (CHR ''+'' \<in> set s \<Longrightarrow> mode \<noteq> encodeQueryComponent) \<Longrightarrow> unescape_build s mode = s"
proof (induction s)
  case (Cons c s)
  then show ?case by (cases "c = CHR ''+''") auto
qed simp

lemma unescape_check_counts:
  "unescape_check s mode n hp = Inr (n', hp')
   \<Longrightarrow> n \<le> n' \<and> (n' = n \<longrightarrow> CHR ''%'' \<notin> set s)
     \<and> (mode = encodeQueryComponent \<and> (hp \<or> CHR ''+'' \<in> set s) \<and> n' = n \<longrightarrow> hp')"
proof (induction "length s" arbitrary: s n hp rule: less_induct)
  case less
  show ?case
  proof (cases s)
    case Nil
    with less.prems show ?thesis by simp
  next
    case (Cons c r)
    consider (pc) "c = CHR ''%''" | (pl) "c = CHR ''+''" | (ot) "c \<noteq> CHR ''%''" "c \<noteq> CHR ''+''" by blast
    then show ?thesis
    proof cases
      case pc
      with less.prems Cons have "unescape_check (drop 3 s) mode (n + 1) hp = Inr (n', hp')"
        by (subst (asm) unescape_check.simps) (auto split: if_splits)
      with less.hyps [of "drop 3 s"] Cons have "n + 1 \<le> n'" by auto
      then show ?thesis by simp
    next
      case pl
      with less.prems Cons have "unescape_check r mode n (mode = encodeQueryComponent) = Inr (n', hp')"
        by (simp add: unescape_check_plus)
      with less.hyps [of r] Cons pl show ?thesis by auto
    next
      case ot
      with less.prems Cons have "unescape_check r mode n hp = Inr (n', hp')"
        by (subst (asm) unescape_check.simps) (simp split: if_splits)
      with less.hyps [of r] Cons ot show ?thesis by auto
    qed
  qed
qed

lemma unescape_eq_build:
  assumes "unescape_check s mode 0 False = Inr r"
  shows "unescape s mode = Inr (unescape_build s mode)"
proof -
  obtain n hp where r: "r = (n, hp)" by force
  have "unescape_build s mode = s" if "n = 0" "\<not> hp"
    using unescape_check_counts [OF assms [unfolded r]] that by (intro unescape_build_id) auto
  with assms r show ?thesis by (simp add: unescape_def)
qed

lemma unescape_check_escape:
  assumes "mode \<noteq> encodeHost" "mode \<noteq> encodeZone"
  shows "\<exists>r. unescape_check (escaped s mode) mode n hp = Inr r"
proof (induction s arbitrary: n hp)
  case (Cons c s)
  have "c \<noteq> CHR ''%''" if "\<not> shouldEscape c mode" using that by auto
  with Cons assms hex_digits [of c] show ?case
    by (cases "c = CHR ''+''") (auto simp: unescape_check_hex unescape_check_plus unescape_check_other)
qed simp

lemma unescape_build_escape: "unescape_build (escaped s mode) mode = s"
proof (induction s)
  case (Cons c s)
  have "c \<noteq> CHR ''%'' \<and> (c = CHR ''+'' \<longrightarrow> mode \<noteq> encodeQueryComponent)" if "\<not> shouldEscape c mode"
    using that by auto
  with Cons hex_digits [of c] show ?case by (cases "c = CHR ''+''") auto
qed simp

lemma unescape_of_escape:
  "mode \<noteq> encodeHost \<Longrightarrow> mode \<noteq> encodeZone \<Longrightarrow> unescape (escaped s mode) mode = Inr s"
  using unescape_check_escape [of mode s 0 False] unescape_eq_build [of "escaped s mode" mode]
  by (auto simp: unescape_build_escape)

subsection \<open>Queries\<close>

lemma CutByte_append: "c \<notin> set a \<Longrightarrow> CutByte (a @ c # b) c = (a, b, True)"
  by (simp add: CutByte_def IndexByteString_append)

lemma CutByte_absent: "c \<notin> set s \<Longrightarrow> CutByte s c = (s, [], False)"
  using IndexByteString_None [of s c] by (simp add: CutByte_def)

lemma upperhex_separators:
  "CHR ''&'' \<notin> set upperhex" "CHR ''='' \<notin> set upperhex" "CHR '';'' \<notin> set upperhex"
  by code_simp+

lemma length_upperhex: "length upperhex = 16"
  by (simp add: upperhex_def)

lemma upperhex_nth_byte:
  "upperhex ! unat (drop_bit 4 (byte_of_char c)) \<in> set upperhex"
  "upperhex ! unat (byte_of_char c AND 15) \<in> set upperhex"
  using nibble_less [of c] length_upperhex by (metis nth_mem)+

lemma queryEscaped_clean:
  assumes "d \<in> {CHR ''&'', CHR ''='', CHR '';''}"
  shows "d \<notin> set (queryEscaped s)"
proof -
  have d: "d \<notin> set upperhex" "shouldEscape d encodeQueryComponent" "d \<noteq> CHR ''%''" "d \<noteq> CHR ''+''"
    using assms upperhex_separators by auto
  show ?thesis
  proof (induction s)
    case (Cons c s)
    then show ?case using d upperhex_nth_byte [of c] by (cases "c = d") auto
  qed simp
qed

lemma QueryUnescape_escaped [simp]: "QueryUnescape (queryEscaped s) = Inr s"
  by (simp add: QueryUnescape_def unescape_of_escape)

definition setting :: "string \<times> string \<Rightarrow> string" where
  "setting p = queryEscaped (fst p) @ ''='' @ queryEscaped (snd p)"

lemma setting_clean: "CHR ''&'' \<notin> set (setting p)" "CHR '';'' \<notin> set (setting p)" "setting p \<noteq> []"
  by (simp_all add: setting_def queryEscaped_clean)

lemma CutByte_setting: "CutByte (setting p) CHR ''='' = (queryEscaped (fst p), queryEscaped (snd p), True)"
  by (simp add: setting_def CutByte_append queryEscaped_clean)

lemma parseQuery_step:
  assumes "CutByte query CHR ''&'' = (setting p, rest, found)" "query \<noteq> []"
  shows "parseQuery m query err = parseQuery (Values_Add m (fst p) (snd p)) rest err"
  using assms by (subst parseQuery.simps) (simp add: setting_clean CutByte_setting)

lemma parseQuery_settings:
  "parseQuery m (setting p @ concat (map (\<lambda>q. CHR ''&'' # setting q) ps)) err =
     (fold (\<lambda>(k, x) m. Values_Add m k x) (p # ps) m, err)"
proof (induction ps arbitrary: p m)
  case Nil
  have "parseQuery m (setting p) err = parseQuery (Values_Add m (fst p) (snd p)) [] err"
    by (rule parseQuery_step [of _ _ _ False]) (simp_all add: CutByte_absent setting_clean)
  then show ?case by (simp add: case_prod_beta parseQuery.simps [of _ "[]"])
next
  case (Cons q ps)
  let ?rest = "setting q @ concat (map (\<lambda>q. CHR ''&'' # setting q) ps)"
  have "parseQuery m (setting p @ CHR ''&'' # ?rest) err
      = parseQuery (Values_Add m (fst p) (snd p)) ?rest err"
    by (rule parseQuery_step) (simp_all add: CutByte_append setting_clean)
  with Cons show ?case by (simp add: case_prod_beta)
qed

definition pairs_of :: "Values \<Rightarrow> (string \<times> string) list" where
  "pairs_of v = concat (map (\<lambda>k. map (Pair k) (map_index [] v k)) (sort (map fst v)))"

lemma Encode_values_append:
  "buf \<noteq> [] \<Longrightarrow> Encode_values (queryEscaped k) xs buf
     = Some (buf @ concat (map (\<lambda>q. CHR ''&'' # setting q) (map (Pair k) xs)))"
  by (induction xs arbitrary: buf) (simp_all add: setting_def)

definition settings :: "(string \<times> string) list \<Rightarrow> string" where
  "settings ps = (case ps of [] \<Rightarrow> [] | p # ps \<Rightarrow> setting p @ concat (map (\<lambda>q. CHR ''&'' # setting q) ps))"

lemma settings_append:
  "settings (ps @ qs) = (if ps = [] then settings qs else settings ps @ concat (map (\<lambda>q. CHR ''&'' # setting q) qs))"
  by (cases ps) (simp_all add: settings_def)

lemma settings_empty: "settings ps = [] \<longleftrightarrow> ps = []"
  by (cases ps) (simp_all add: settings_def setting_clean)

lemma Encode_values_settings:
  "Encode_values (queryEscaped k) xs (settings ps) = Some (settings (ps @ map (Pair k) xs))"
proof (cases "ps = []")
  case True
  then show ?thesis
    by (cases xs) (simp_all add: settings_def setting_def Encode_values_append)
next
  case False
  then show ?thesis by (simp add: Encode_values_append settings_empty settings_append)
qed

lemma Encode_settings: "Encode v = Some (settings (pairs_of v))"
proof -
  have "Encode_keys v ks (settings ps)
      = Some (settings (ps @ concat (map (\<lambda>k. map (Pair k) (map_index [] v k)) ks)))" for ks ps
    by (induction ks arbitrary: ps) (simp_all add: Encode_values_settings)
  from this [of "sort (map fst v)" "[]"] show ?thesis
    by (cases v) (simp_all add: Encode_def pairs_of_def settings_def)
qed

lemma fold_Add:
  "map_index [] (fold (\<lambda>(k, x) m. Values_Add m k x) ps m) k
     = map_index [] m k @ map snd (filter (\<lambda>p. fst p = k) ps)"
  by (induction ps arbitrary: m) (auto simp: Values_Add_def)

lemma pairs_of_key:
  assumes "map_wf v"
  shows "map snd (filter (\<lambda>p. fst p = k) (pairs_of v)) = map_index [] v k"
proof -
  have *: "map snd (filter (\<lambda>p. fst p = k) (concat (map (\<lambda>k. map (Pair k) (f k)) ks)))
      = (if k \<in> set ks then f k else [])" if "distinct ks" for ks and f :: "string \<Rightarrow> string list"
    using that by (induction ks) (auto simp: filter_map o_def filter_empty_conv)
  from assms have "distinct (sort (map fst v))" by (simp add: map_wf_def)
  from * [OF this, of "map_index [] v"]
  have "map snd (filter (\<lambda>p. fst p = k) (pairs_of v)) = (if k \<in> fst ` set v then map_index [] v k else [])"
    by (simp add: pairs_of_def)
  moreover have "map_index [] v k = []" if "k \<notin> fst ` set v"
    using that by (simp add: map_index_def map_of_eq_None_iff [THEN iffD2])
  ultimately show ?thesis by simp
qed

lemma ParseQuery_settings:
  "ParseQuery (settings ps) = (fold (\<lambda>(k, x) m. Values_Add m k x) ps [], None)"
  using parseQuery_settings [of "[]"]
  by (cases ps) (simp_all add: ParseQuery_def settings_def parseQuery.simps [of _ "[]"])

subsection \<open>Round trips\<close>

text \<open>C36: Escaping never writes outside its buffer, and unescaping gives back every string that was escaped in
  the same mode, any bytes included, in every mode other than those for hosts and zones, whose
  unescaping refuses most escapes.\<close>

theorem unescape_escape:
  "mode \<noteq> encodeHost \<Longrightarrow> mode \<noteq> encodeZone \<Longrightarrow> \<exists>t. escape s mode = Some t \<and> unescape t mode = Inr s"
  by (simp add: escape_escaped unescape_of_escape)

theorem unescape_escape_witness:
  "escape ''a b&c'' encodeQueryComponent = Some ''a+b%26c'' \<and> unescape ''a+b%26c'' encodeQueryComponent = Inr ''a b&c''"
proof -
  have "escape ''a b&c'' encodeQueryComponent = Some ''a+b%26c''" by code_simp
  then show ?thesis using unescape_escape [of encodeQueryComponent "''a b&c''"] by simp
qed

text \<open>C37: Parsing the encoding of a set of query parameters gives the same values for every key, in the same
  order, without an error: no character of a key or of a value can introduce another parameter.\<close>

theorem ParseQuery_Encode:
  assumes "map_wf v"
  shows "\<exists>q. Encode v = Some q \<and> snd (ParseQuery q) = None
    \<and> (\<forall>k. map_index [] (fst (ParseQuery q)) k = map_index [] v k)"
  using pairs_of_key [OF assms] by (simp add: Encode_settings ParseQuery_settings fold_Add)

theorem ParseQuery_Encode_witness:
  "Encode [(''q'', [''a&b=c'']), (''image'', [''x y'', []])] = Some ''image=x+y&image=&q=a%26b%3Dc''
   \<and> Values_Get (fst (ParseQuery ''image=x+y&image=&q=a%26b%3Dc'')) ''q'' = ''a&b=c''"
proof -
  let ?v = "[(''q'', [''a&b=c'']), (''image'', [''x y'', []])]"
  have enc: "Encode ?v = Some ''image=x+y&image=&q=a%26b%3Dc''" by code_simp
  have "map_index [] (fst (ParseQuery ''image=x+y&image=&q=a%26b%3Dc'')) ''q'' = map_index [] ?v ''q''"
    using ParseQuery_Encode [of ?v] enc by (auto simp: map_wf_def)
  with enc show ?thesis by (simp add: Values_Get_def map_index_def)
qed

end
