(* ===== verification/Net_HTTP.thy ===== *)
theory Net_HTTP
  imports Go_Strconv Net_URL
begin

text \<open>
  The part of \<^verbatim>\<open>net/http\<close> and \<^verbatim>\<open>net/textproto\<close> that the handlers of the proxy use: headers with their
  canonical keys, and the server's \<^verbatim>\<open>response\<close>, which implements \<^verbatim>\<open>http.ResponseWriter\<close>. A response
  starts with no status; the first \<^verbatim>\<open>WriteHeader\<close> or \<^verbatim>\<open>Write\<close> fixes status and headers, and what is
  written later goes to the body. No handler of the proxy takes over the connection, so the
  branches for hijacked connections are left out, and so are the log output and the flag for
  \<^verbatim>\<open>100 Continue\<close>. The body is what is handed to the buffered writer of the connection.
\<close>

subsection \<open>Canonical header keys\<close>

definition headerMask :: "128 word" where
  "headerMask =
     push_bit (of_char CHR ''0'') (push_bit 10 1 - 1) OR push_bit (of_char CHR ''a'') (push_bit 26 1 - 1)
     OR push_bit (of_char CHR ''A'') (push_bit 26 1 - 1)
     OR foldr (\<lambda>c m. push_bit (of_char c) 1 OR m) (''!#$%&*+-.^_`|~'' @ [CHR 0x27]) 0"

definition validHeaderFieldByte :: "byte \<Rightarrow> bool" where
  "validHeaderFieldByte c \<longleftrightarrow>
     (push_bit (unat c) (1 :: u64) AND ucast headerMask)
     OR (push_bit (unat (c - 64)) (1 :: u64) AND ucast (drop_bit 64 headerMask)) \<noteq> 0"

definition isLower :: "byte \<Rightarrow> bool" where
  "isLower c \<longleftrightarrow> byte_of_char CHR ''a'' \<le> c \<and> c \<le> byte_of_char CHR ''z''"

definition isUpper :: "byte \<Rightarrow> bool" where
  "isUpper c \<longleftrightarrow> byte_of_char CHR ''A'' \<le> c \<and> c \<le> byte_of_char CHR ''Z''"

definition toLower :: byte where
  "toLower = byte_of_char CHR ''a'' - byte_of_char CHR ''A''"

fun canonical_loop :: "bool \<Rightarrow> byte list \<Rightarrow> byte list" where
  "canonical_loop upper [] = []"
| "canonical_loop upper (c # a) =
     (let c = (if upper \<and> isLower c then c - toLower
               else if \<not> upper \<and> isUpper c then c + toLower
               else c)
      in c # canonical_loop (c = byte_of_char CHR ''-'') a)"

text \<open>The first loop looks for a byte that is neither valid nor a space; the table of common header
  names at the end of the function only shares memory, it maps every name to itself.\<close>

definition canonicalMIMEHeaderKey :: "byte list \<Rightarrow> string \<times> bool" where
  "canonicalMIMEHeaderKey a =
     (if \<not> list_all (\<lambda>c. validHeaderFieldByte c \<or> c = byte_of_char CHR '' '') a then (string_of_bytes a, False)
      else if list_ex (\<lambda>c. c = byte_of_char CHR '' '') a then (string_of_bytes a, True)
      else (string_of_bytes (canonical_loop True a), True))"

fun CanonicalMIMEHeaderKey_loop :: "string \<Rightarrow> bool \<Rightarrow> string \<Rightarrow> string" where
  \<comment> \<open>the whole key, whether a capital letter is expected, and the rest of the key\<close>
  "CanonicalMIMEHeaderKey_loop s upper [] = s"
| "CanonicalMIMEHeaderKey_loop s upper (ch # r) =
     (let c = byte_of_char ch in
      if \<not> validHeaderFieldByte c then s
      else if upper \<and> isLower c then fst (canonicalMIMEHeaderKey (bytes_of_string s))
      else if \<not> upper \<and> isUpper c then fst (canonicalMIMEHeaderKey (bytes_of_string s))
      else CanonicalMIMEHeaderKey_loop s (ch = CHR ''-'') r)"

definition CanonicalMIMEHeaderKey :: "string \<Rightarrow> string" where
  "CanonicalMIMEHeaderKey s = CanonicalMIMEHeaderKey_loop s True s"

subsection \<open>Headers\<close>

type_synonym Header = "(string, string list) gomap"

definition Header_Add :: "Header \<Rightarrow> string \<Rightarrow> string \<Rightarrow> Header" where
  "Header_Add h key value =
     (let key = CanonicalMIMEHeaderKey key in AList.update key (map_index [] h key @ [value]) h)"

definition Header_Set :: "Header \<Rightarrow> string \<Rightarrow> string \<Rightarrow> Header" where
  "Header_Set h key value = AList.update (CanonicalMIMEHeaderKey key) [value] h"

definition Header_Get :: "Header \<Rightarrow> string \<Rightarrow> string" where
  "Header_Get h key = (case map_index [] h (CanonicalMIMEHeaderKey key) of [] \<Rightarrow> [] | v # _ \<Rightarrow> v)"

definition Header_Values :: "Header \<Rightarrow> string \<Rightarrow> string list" where
  "Header_Values h key = map_index [] h (CanonicalMIMEHeaderKey key)"

definition Header_Del :: "Header \<Rightarrow> string \<Rightarrow> Header" where
  "Header_Del h key = AList.delete (CanonicalMIMEHeaderKey key) h"

definition Header_get :: "Header \<Rightarrow> string \<Rightarrow> string" where
  \<comment> \<open>\<^verbatim>\<open>get\<close>, whose key is canonical already\<close>
  "Header_get h key = (case map_index [] h key of [] \<Rightarrow> [] | v # _ \<Rightarrow> v)"

subsection \<open>The response\<close>

type_synonym status = int

definition StatusSwitchingProtocols :: status where "StatusSwitchingProtocols = 101"
definition StatusOK :: status where "StatusOK = 200"
definition StatusNoContent :: status where "StatusNoContent = 204"
definition StatusBadRequest :: status where "StatusBadRequest = 400"
definition StatusTooManyRequests :: status where "StatusTooManyRequests = 429"
definition StatusInternalServerError :: status where "StatusInternalServerError = 500"
definition StatusBadGateway :: status where "StatusBadGateway = 502"

lemmas status_defs =
  StatusSwitchingProtocols_def StatusOK_def StatusNoContent_def StatusBadRequest_def
  StatusTooManyRequests_def StatusInternalServerError_def StatusBadGateway_def

record response =
  wroteHeader :: bool
  status :: status
  handlerHeader :: Header
  cw_header :: "Header option"
  contentLength :: int
  written :: int
  body :: "byte list"
  informational :: "(status \<times> Header) list"

definition response_new :: response where
  "response_new =
     \<lparr>wroteHeader = False, status = 0, handlerHeader = [], cw_header = None, contentLength = -1,
      written = 0, body = [], informational = []\<rparr>"

datatype write_error = ErrBodyNotAllowed | ErrContentLength

definition bodyAllowedForStatus :: "status \<Rightarrow> bool" where
  "bodyAllowedForStatus s =
     (if 100 \<le> s \<and> s \<le> 199 then False else if s = 204 then False else if s = 304 then False else True)"

definition setHeader :: "string \<Rightarrow> string \<Rightarrow> response \<Rightarrow> response" where
  \<comment> \<open>\<^verbatim>\<open>w.Header().Set(key, value)\<close>; after the header was written, the snapshot in \<open>cw_header\<close> is what is sent\<close>
  "setHeader key value w = w\<lparr>handlerHeader := Header_Set (handlerHeader w) key value\<rparr>"

definition WriteHeader :: "status \<Rightarrow> response \<Rightarrow> response option" where
  "WriteHeader code w =
     (if wroteHeader w then Some w
      else if code < 100 \<or> 999 < code then None
      else if 100 \<le> code \<and> code \<le> 199 \<and> code \<noteq> StatusSwitchingProtocols
      then Some (w\<lparr>informational := informational w @ [(code, handlerHeader w)]\<rparr>)
      else
        let w = w\<lparr>wroteHeader := True, status := code\<rparr>;
            w = (if cw_header w = None then w\<lparr>cw_header := Some (handlerHeader w)\<rparr> else w);
            cl = Header_get (handlerHeader w) ''Content-Length''
        in if cl \<noteq> [] then
             (case ParseInt cl 10 64 of
                (v, err) \<Rightarrow>
                  if err = None \<and> 0 \<le> sint v then Some (w\<lparr>contentLength := sint v\<rparr>)
                  else Some (w\<lparr>handlerHeader := Header_Del (handlerHeader w) ''Content-Length''\<rparr>))
           else Some w)"

definition response_Write :: "byte list \<Rightarrow> response \<Rightarrow> (write_error option \<times> response) option" where
  "response_Write data w =
     (case (if wroteHeader w then Some w else WriteHeader StatusOK w) of
        None \<Rightarrow> None
      | Some w \<Rightarrow>
          if length data = 0 then Some (None, w)
          else if \<not> bodyAllowedForStatus (status w) then Some (Some ErrBodyNotAllowed, w)
          else
            let w = w\<lparr>written := written w + int (length data)\<rparr>
            in if contentLength w \<noteq> -1 \<and> contentLength w < written w then Some (Some ErrContentLength, w)
               else Some (None, w\<lparr>body := body w @ data\<rparr>))"

definition http_Error :: "string \<Rightarrow> status \<Rightarrow> response \<Rightarrow> response option" where
  "http_Error error code w =
     (let w = setHeader ''Content-Type'' ''text/plain; charset=utf-8'' w;
          w = setHeader ''X-Content-Type-Options'' ''nosniff'' w
      in case WriteHeader code w of
           None \<Rightarrow> None
         | Some w \<Rightarrow> map_option snd (response_Write (bytes_of_string (error @ [CHR 0x0A])) w))"

definition finishRequest :: "response \<Rightarrow> response option" where
  \<comment> \<open>a handler that wrote nothing has answered with an empty 200\<close>
  "finishRequest w = (if wroteHeader w then Some w else WriteHeader StatusOK w)"

record Request =
  Method :: string
  r_URL :: URL
  r_Header :: Header
  RemoteAddr :: string

subsection \<open>Which bytes a header name has\<close>

lemma single_bit: "(2 :: u64) ^ n AND w \<noteq> 0 \<longleftrightarrow> n < 64 \<and> bit w n"
proof
  assume "2 ^ n AND w \<noteq> 0"
  then obtain m where "bit (2 ^ n AND w) m" by (metis bit_eqI bit_0_eq bot_apply bot_bool_def)
  then show "n < 64 \<and> bit w n" by (auto simp: bit_and_iff bit_exp_iff)
next
  assume "n < 64 \<and> bit w n"
  then have "bit (2 ^ n AND w) n" by (simp add: bit_and_iff bit_exp_iff)
  then show "2 ^ n AND w \<noteq> 0" by auto
qed

lemma or_nonzero: "a OR b \<noteq> (0 :: u64) \<longleftrightarrow> a \<noteq> 0 \<or> b \<noteq> 0"
  by (metis or.right_neutral or_eq_0_iff)

lemma validHeaderFieldByte_bit: "validHeaderFieldByte c \<longleftrightarrow> bit headerMask (unat c)"
proof (cases "64 \<le> c")
  case True
  then have "unat (c - 64) = unat c - 64" "64 \<le> unat c" by (simp_all add: unat_sub word_le_nat_alt)
  then show ?thesis
    using bit_imp_le_length [of headerMask "unat c"]
    by (auto simp: validHeaderFieldByte_def or_nonzero single_bit bit_ucast_iff bit_drop_bit_eq)
next
  case False
  then have "c - 64 = c + 192" and c: "unat c < 64" by (simp_all add: word_le_nat_alt)
  moreover have "unat (c + 192) = unat c + 192" using c by (subst unat_add_lem [THEN iffD1]) simp_all
  ultimately have "unat (c - 64) = unat c + 192" by (simp only:)
  with c show ?thesis
    by (simp add: validHeaderFieldByte_def or_nonzero single_bit bit_ucast_iff)
qed

definition tchars :: string where
  "tchars = ''!#$%&*+-.^_`|~'' @ [CHR 0x27]"

lemma bit_bits:
  "bit (foldr (\<lambda>c m. push_bit (of_char c) (1 :: 128 word) OR m) cs 0) k \<longleftrightarrow> k < 128 \<and> k \<in> of_char ` set cs"
  by (induction cs) (auto simp: bit_or_iff bit_exp_iff)

lemma bit_run:
  "bit (push_bit m (push_bit n 1 - 1 :: 128 word)) k \<longleftrightarrow> k < 128 \<and> m \<le> k \<and> k < m + n"
proof -
  have "push_bit n 1 - 1 = (Bit_Operations.mask n :: 128 word)" by (simp add: mask_eq_exp_minus_1)
  then show ?thesis by (auto simp: bit_push_bit_iff bit_mask_iff possible_bit_def)
qed

text \<open>The mask has the bits of the token characters of RFC 7230.\<close>

lemma validHeaderFieldByte_iff:
  "validHeaderFieldByte c \<longleftrightarrow>
     (48 \<le> unat c \<and> unat c \<le> 57) \<or> isLower c \<or> isUpper c \<or> unat c \<in> of_char ` set tchars"
proof -
  have t: "\<forall>k \<in> of_char ` set tchars. k < (128 :: nat)" by (simp add: tchars_def)
  show ?thesis
    unfolding validHeaderFieldByte_bit headerMask_def bit_or_iff bit_run
      bit_bits tchars_def [symmetric]
    using t by (auto simp: isLower_def isUpper_def word_le_nat_alt)
qed

subsection \<open>Header names ignore the case\<close>

definition lowered :: "byte \<Rightarrow> byte" where
  "lowered c = (if isUpper c then c + toLower else c)"

lemma toLower_32: "toLower = 32"
  by (simp add: toLower_def byte_of_char_def)

lemma upper_lowered:
  assumes "isUpper c"
  shows "isLower (c + 32)" "c + 32 - 32 = c" "\<not> isLower c" "\<not> isUpper (c + 32)" "c + 32 \<noteq> 45" "c \<noteq> 45"
proof -
  have c: "65 \<le> unat c" "unat c \<le> 90" using assms by (simp_all add: isUpper_def byte_of_char_def word_le_nat_alt)
  then have u: "unat (c + 32) = unat c + 32" by (subst unat_add_lem [THEN iffD1]) simp_all
  show "isLower (c + 32)" "\<not> isLower c" "\<not> isUpper (c + 32)"
    using c u by (simp_all add: isLower_def isUpper_def byte_of_char_def word_le_nat_alt)
  show "c + 32 - 32 = c" by simp
  show "c + 32 \<noteq> 45" "c \<noteq> 45" using c u by (auto dest: arg_cong [where f = unat])
qed

lemma lower_raised:
  assumes "isLower c"
  shows "isUpper (c - 32)" "\<not> isUpper c" "c \<noteq> 45" "c - 32 \<noteq> 45"
proof -
  have c: "97 \<le> unat c" "unat c \<le> 122" using assms by (simp_all add: isLower_def byte_of_char_def word_le_nat_alt)
  then have u: "unat (c - 32) = unat c - 32" by (simp add: unat_sub word_le_nat_alt)
  show "isUpper (c - 32)" "\<not> isUpper c"
    using c u by (auto simp: isUpper_def byte_of_char_def word_le_nat_alt)
  show "c \<noteq> 45" "c - 32 \<noteq> 45" using c u by (auto dest: arg_cong [where f = unat])
qed

lemma lowered_cases: "lowered c = c \<or> isUpper c \<and> lowered c = c + 32"
  by (simp add: lowered_def toLower_32)

definition canonByte :: "bool \<Rightarrow> byte \<Rightarrow> byte" where
  "canonByte upper c =
     (if upper \<and> isLower c then c - toLower else if \<not> upper \<and> isUpper c then c + toLower else c)"

lemma canonByte_lowered: "canonByte upper (lowered c) = canonByte upper c"
  using lowered_cases [of c] upper_lowered [of c] by (auto simp: canonByte_def toLower_32 lowered_def)

lemma canonical_loop_Cons [simp]:
  "canonical_loop upper (c # a) = canonByte upper c # canonical_loop (canonByte upper c = byte_of_char CHR ''-'') a"
  by (simp add: canonByte_def Let_def)

declare canonical_loop.simps(2) [simp del]

lemma canonical_loop_lowered: "canonical_loop upper (map lowered a) = canonical_loop upper a"
  by (induction a arbitrary: upper) (simp_all add: canonByte_lowered)

lemma valid_lowered: "validHeaderFieldByte (lowered c) = validHeaderFieldByte c"
  using lowered_cases [of c] upper_lowered [of c] by (auto simp: validHeaderFieldByte_iff)

definition validName :: "string \<Rightarrow> bool" where
  "validName s \<longleftrightarrow> list_all validHeaderFieldByte (bytes_of_string s)"

lemma space_invalid: "\<not> validHeaderFieldByte (byte_of_char CHR '' '')"
  by (simp add: validHeaderFieldByte_iff isLower_def isUpper_def tchars_def byte_of_char_def)

lemma canonicalMIMEHeaderKey_valid:
  "validName s \<Longrightarrow>
     fst (canonicalMIMEHeaderKey (bytes_of_string s)) = string_of_bytes (canonical_loop True (bytes_of_string s))"
  using space_invalid unfolding validName_def canonicalMIMEHeaderKey_def
  by (auto simp: list_all_iff list_ex_iff)

text \<open>Where the quick check finds nothing to change, the canonical form is the key itself.\<close>

lemma CanonicalMIMEHeaderKey_loop_valid:
  "list_all validHeaderFieldByte (bytes_of_string r) \<Longrightarrow>
     CanonicalMIMEHeaderKey_loop s upper r =
       (if canonical_loop upper (bytes_of_string r) = bytes_of_string r then s
        else fst (canonicalMIMEHeaderKey (bytes_of_string s)))"
proof (induction r arbitrary: upper)
  case (Cons ch r)
  let ?c = "byte_of_char ch"
  have dash: "ch = CHR ''-'' \<longleftrightarrow> ?c = byte_of_char CHR ''-''" by (metis char_of_byte_of_char)
  consider (down) "upper" "isLower ?c" | (up) "\<not> upper" "isUpper ?c"
    | (same) "\<not> (upper \<and> isLower ?c)" "\<not> (\<not> upper \<and> isUpper ?c)" by blast
  then show ?case
  proof cases
    case same
    then have "canonByte upper ?c = ?c" by (auto simp: canonByte_def)
    with same Cons dash show ?thesis by (auto simp: Let_def)
  qed (use Cons.prems in \<open>auto simp: Let_def canonByte_def toLower_32\<close>)
qed simp

lemma CanonicalMIMEHeaderKey_valid:
  "validName s \<Longrightarrow> CanonicalMIMEHeaderKey s = string_of_bytes (canonical_loop True (bytes_of_string s))"
  using CanonicalMIMEHeaderKey_loop_valid [of s s True] canonicalMIMEHeaderKey_valid [of s]
  by (auto simp: CanonicalMIMEHeaderKey_def validName_def comp_def)

lemma CanonicalMIMEHeaderKey_case:
  assumes "validName s" "map lowered (bytes_of_string t) = map lowered (bytes_of_string s)"
  shows "CanonicalMIMEHeaderKey t = CanonicalMIMEHeaderKey s"
proof -
  have "list_all validHeaderFieldByte (map lowered (bytes_of_string t))"
    unfolding assms(2) using assms(1) by (simp add: validName_def list_all_iff valid_lowered)
  then have "validName t" by (simp add: validName_def list_all_iff valid_lowered)
  with assms show ?thesis
    by (metis CanonicalMIMEHeaderKey_valid canonical_loop_lowered)
qed

lemma Header_Get_Set:
  "Header_Get (Header_Set h k v) k' =
     (if CanonicalMIMEHeaderKey k' = CanonicalMIMEHeaderKey k then v else Header_Get h k')"
  by (simp add: Header_Get_def Header_Set_def)

text \<open>A header that was set is found under every spelling of its name, whatever the case of its letters.\<close>

lemma Header_Get_any_case:
  assumes "validName k" "map lowered (bytes_of_string k') = map lowered (bytes_of_string k)"
  shows "Header_Get (Header_Set h k v) k' = v"
  using CanonicalMIMEHeaderKey_case [OF assms] by (simp add: Header_Get_Set)

definition canonicalName :: "string \<Rightarrow> bool" where
  "canonicalName s \<longleftrightarrow> validName s \<and> canonical_loop True (bytes_of_string s) = bytes_of_string s"

lemma canonicalName_same: "canonicalName s \<Longrightarrow> CanonicalMIMEHeaderKey s = s"
  unfolding canonicalName_def by (metis CanonicalMIMEHeaderKey_valid string_of_bytes_of_string)

lemmas canonicalName_simps =
  canonicalName_def validName_def validHeaderFieldByte_iff isLower_def isUpper_def canonByte_def toLower_32
  tchars_def byte_of_char_def

lemma canonical_names [simp]:
  "CanonicalMIMEHeaderKey ''Origin'' = ''Origin''"
  "CanonicalMIMEHeaderKey ''Content-Type'' = ''Content-Type''"
  "CanonicalMIMEHeaderKey ''X-Content-Type-Options'' = ''X-Content-Type-Options''"
  "CanonicalMIMEHeaderKey ''Access-Control-Expose-Headers'' = ''Access-Control-Expose-Headers''"
  "CanonicalMIMEHeaderKey ''X-Image-Name'' = ''X-Image-Name''"
  "CanonicalMIMEHeaderKey ''X-Image-Arch'' = ''X-Image-Arch''"
  by (rule canonicalName_same, simp add: canonicalName_simps)+

subsection \<open>What a handler answers\<close>

definition unanswered :: "response \<Rightarrow> bool" where
  \<comment> \<open>nothing was written yet, and no length announced\<close>
  "unanswered w \<longleftrightarrow> \<not> wroteHeader w \<and> contentLength w = -1 \<and> cw_header w = None \<and> body w = []
     \<and> Header_get (handlerHeader w) ''Content-Length'' = []"

lemma unanswered_new: "unanswered response_new"
  by (simp add: unanswered_def response_new_def Header_get_def)

lemma unanswered_setHeader:
  "unanswered w \<Longrightarrow> CanonicalMIMEHeaderKey k \<noteq> ''Content-Length'' \<Longrightarrow> unanswered (setHeader k v w)"
  by (simp add: unanswered_def setHeader_def Header_get_def Header_Set_def)

lemma WriteHeader_unanswered:
  assumes "unanswered w" "200 \<le> code" "code \<le> 999"
  shows "WriteHeader code w = Some (w\<lparr>wroteHeader := True, status := code, cw_header := Some (handlerHeader w)\<rparr>)"
  using assms by (simp add: unanswered_def WriteHeader_def Let_def)

lemma Write_answered:
  "wroteHeader w \<Longrightarrow> bodyAllowedForStatus (status w) \<Longrightarrow> contentLength w = -1 \<Longrightarrow>
     response_Write data w = Some (None, w\<lparr>written := written w + int (length data), body := body w @ data\<rparr>)"
  by (simp add: response_Write_def Let_def)

lemma http_Error_unanswered:
  assumes "unanswered w" "305 \<le> code" "code \<le> 999"
  shows "\<exists>w'. http_Error e code w = Some w' \<and> wroteHeader w' \<and> status w' = code
           \<and> body w' = bytes_of_string (e @ [CHR 0x0A])"
proof -
  let ?w = "setHeader ''X-Content-Type-Options'' ''nosniff'' (setHeader ''Content-Type'' ''text/plain; charset=utf-8'' w)"
  have "unanswered ?w" using assms(1) by (simp add: unanswered_setHeader)
  then show ?thesis
    using assms WriteHeader_unanswered [of ?w code]
    by (simp add: http_Error_def Let_def Write_answered bodyAllowedForStatus_def unanswered_def)
qed

end
