(* ===== verification/Go_Space.thy ===== *)
theory Go_Space
  imports Go_UTF8
begin

text \<open>
  White space: the range tables of \<^verbatim>\<open>unicode/letter.go\<close> with their linear and binary searches,
  \<^verbatim>\<open>unicode.IsSpace\<close>, and the trimming functions of \<^verbatim>\<open>strings/strings.go\<close>. \<^verbatim>\<open>TrimSpace\<close> has a fast path for
  ASCII, which is shown to agree with \<^verbatim>\<open>TrimFunc\<close>.
\<close>

subsection \<open>Range tables\<close>

record 'a Range =
  Lo :: 'a
  Hi :: 'a
  Stride :: 'a

record RangeTable =
  R16 :: "u16 Range list"
  R32 :: "u32 Range list"
  LatinOffset :: nat

definition linearMax :: nat where "linearMax = 18"
definition MaxLatin1 :: rune where "MaxLatin1 = 0xFF"

definition in_range :: "'a::len word Range \<Rightarrow> 'a word \<Rightarrow> bool" where
  "in_range x r \<longleftrightarrow> Stride x = 1 \<or> (r - Lo x) mod Stride x = 0"

fun linear_search :: "'a::len word Range list \<Rightarrow> 'a word \<Rightarrow> bool" where
  "linear_search [] r = False"
| "linear_search (x # xs) r =
     (if r < Lo x then False
      else if r \<le> Hi x then in_range x r
      else linear_search xs r)"

function binary_search :: "'a::len word Range list \<Rightarrow> 'a word \<Rightarrow> nat \<Rightarrow> nat \<Rightarrow> bool" where
  "binary_search ranges r lo hi =
     (if lo < hi
      then let m = (lo + hi) div 2; x = ranges ! m
           in if Lo x \<le> r \<and> r \<le> Hi x then in_range x r
              else if r < Lo x then binary_search ranges r lo m
              else binary_search ranges r (m + 1) hi
      else False)"
  by pat_completeness auto
termination
  by (relation "measure (\<lambda>(ranges, r, lo, hi). hi - lo)") auto

declare binary_search.simps [simp del]

definition is16 :: "u16 Range list \<Rightarrow> u16 \<Rightarrow> bool" where
  "is16 ranges r =
     (if length ranges \<le> linearMax \<or> r \<le> ucast MaxLatin1 then linear_search ranges r
      else binary_search ranges r 0 (length ranges))"

definition is32 :: "u32 Range list \<Rightarrow> u32 \<Rightarrow> bool" where
  "is32 ranges r =
     (if length ranges \<le> linearMax then linear_search ranges r
      else binary_search ranges r 0 (length ranges))"

definition Is :: "RangeTable \<Rightarrow> rune \<Rightarrow> bool" where
  "Is rangeTab r =
     (let r16 = R16 rangeTab; r32 = R32 rangeTab
      in if 0 < length r16 \<and> r \<le> ucast (Hi (r16 ! (length r16 - 1))) then is16 r16 (ucast r)
         else if 0 < length r32 \<and> Lo (r32 ! 0) <=s r then is32 r32 r
         else False)"

definition isExcludingLatin :: "RangeTable \<Rightarrow> rune \<Rightarrow> bool" where
  "isExcludingLatin rangeTab r =
     (let r16 = R16 rangeTab; off = LatinOffset rangeTab; r32 = R32 rangeTab
      in if off < length r16 \<and> r \<le> ucast (Hi (r16 ! (length r16 - 1))) then is16 (drop off r16) (ucast r)
         else if 0 < length r32 \<and> Lo (r32 ! 0) <=s r then is32 r32 r
         else False)"

definition White_Space :: RangeTable where
  "White_Space =
     \<lparr>R16 = [\<lparr>Lo = 0x0009, Hi = 0x000d, Stride = 1\<rparr>,
             \<lparr>Lo = 0x0020, Hi = 0x0085, Stride = 101\<rparr>,
             \<lparr>Lo = 0x00a0, Hi = 0x1680, Stride = 5600\<rparr>,
             \<lparr>Lo = 0x2000, Hi = 0x200a, Stride = 1\<rparr>,
             \<lparr>Lo = 0x2028, Hi = 0x2029, Stride = 1\<rparr>,
             \<lparr>Lo = 0x202f, Hi = 0x205f, Stride = 48\<rparr>,
             \<lparr>Lo = 0x3000, Hi = 0x3000, Stride = 1\<rparr>],
      R32 = [], LatinOffset = 2\<rparr>"

definition IsSpace :: "rune \<Rightarrow> bool" where
  "IsSpace r =
     (if r \<le> MaxLatin1 then r \<in> {9, 10, 11, 12, 13, 32, 0x85, 0xA0}
      else isExcludingLatin White_Space r)"

subsection \<open>Trimming\<close>

definition indexFunc :: "string \<Rightarrow> (rune \<Rightarrow> bool) \<Rightarrow> bool \<Rightarrow> nat option" where
  "indexFunc s f truth =
     map_option fst (List.find (\<lambda>(i, r). f r = truth) (range_runes 0 (bytes_of_string s)))"

lemma seekStart_le: "seekStart p st k \<le> st"
proof (induction k arbitrary: st)
  case (Suc k)
  then show ?case using Suc [of "st - 1"] by simp
qed simp

lemma DecodeLastRune_size:
  assumes "p \<noteq> []"
  shows "1 \<le> snd (DecodeLastRune p) \<and> snd (DecodeLastRune p) \<le> length p"
proof -
  define st where "st = nat (max 0 (seekStart p (int (length p - 1) - 1) (length p - 1 - (length p - UTFMax))))"
  have "0 < length p" using assms by simp
  then have st: "st < length p"
    using seekStart_le [of p "int (length p - 1) - 1" "length p - 1 - (length p - UTFMax)"] unfolding st_def by linarith
  then have "1 \<le> snd (DecodeRune (drop st p)) \<and> snd (DecodeRune (drop st p)) \<le> length p - st"
    using DecodeRune_size [of "drop st p"] by simp
  then show ?thesis
    using assms unfolding DecodeLastRune_def Let_def st_def [symmetric]
    by (auto simp: Suc_le_eq split: prod.splits)
qed

function lastIndexFunc_loop :: "byte list \<Rightarrow> (rune \<Rightarrow> bool) \<Rightarrow> bool \<Rightarrow> nat option" where
  \<comment> \<open>\<open>p\<close> is \<^verbatim>\<open>s[0:i]\<close>\<close>
  "lastIndexFunc_loop p f truth =
     (if p = [] then None
      else let (r, sz) = DecodeLastRune p; p' = take (length p - sz) p
           in if f r = truth then Some (length p') else lastIndexFunc_loop p' f truth)"
  by pat_completeness auto
termination
proof (relation "measure (\<lambda>(p, f, truth). length p)")
  show "((p', f, truth), p, f, truth) \<in> measure (\<lambda>(p, f, truth). length p)"
    if "p \<noteq> []" "x = DecodeLastRune p" "(r, sz) = x" "p' = take (length p - sz) p" for p f truth x r sz p'
    using DecodeLastRune_size [OF that(1)] that by (cases "DecodeLastRune p") auto
qed simp

declare lastIndexFunc_loop.simps [simp del]

definition lastIndexFunc :: "string \<Rightarrow> (rune \<Rightarrow> bool) \<Rightarrow> bool \<Rightarrow> nat option" where
  "lastIndexFunc s f truth = lastIndexFunc_loop (bytes_of_string s) f truth"

definition TrimLeftFunc :: "string \<Rightarrow> (rune \<Rightarrow> bool) \<Rightarrow> string" where
  "TrimLeftFunc s f = (case indexFunc s f False of None \<Rightarrow> [] | Some i \<Rightarrow> drop i s)"

definition TrimRightFunc :: "string \<Rightarrow> (rune \<Rightarrow> bool) \<Rightarrow> string" where
  "TrimRightFunc s f =
     (case lastIndexFunc s f False of
        None \<Rightarrow> take 0 s
      | Some i \<Rightarrow>
          if RuneSelf \<le> byte_of_char (s ! i)
          then let (_, wid) = DecodeRuneInString (drop i s) in take (i + wid) s
          else take (i + 1) s)"

definition TrimFunc :: "string \<Rightarrow> (rune \<Rightarrow> bool) \<Rightarrow> string" where
  "TrimFunc s f = TrimRightFunc (TrimLeftFunc s f) f"

definition asciiSpace :: "char \<Rightarrow> bool" where
  "asciiSpace c \<longleftrightarrow> byte_of_char c \<in> {9, 10, 11, 12, 13, 32}"

fun TrimSpace_stop :: "string \<Rightarrow> string" where
  \<comment> \<open>the second loop of \<^verbatim>\<open>TrimSpace\<close>, on the reverse of \<^verbatim>\<open>s[start:stop]\<close>\<close>
  "TrimSpace_stop [] = []"
| "TrimSpace_stop (c # s) =
     (if RuneSelf \<le> byte_of_char c then TrimRightFunc (rev (c # s)) IsSpace
      else if \<not> asciiSpace c then rev (c # s)
      else TrimSpace_stop s)"

fun TrimSpace :: "string \<Rightarrow> string" where
  "TrimSpace [] = TrimSpace_stop (rev [])"
| "TrimSpace (c # s) =
     (if RuneSelf \<le> byte_of_char c then TrimFunc (c # s) IsSpace
      else if \<not> asciiSpace c then TrimSpace_stop (rev (c # s))
      else TrimSpace s)"

subsection \<open>The searches agree\<close>

definition sorted_ranges :: "'a::len word Range list \<Rightarrow> bool" where
  "sorted_ranges xs \<longleftrightarrow> list_all (\<lambda>x. Lo x \<le> Hi x) xs \<and> sorted_wrt (\<lambda>x y. Hi x < Lo y) xs"

definition in_table :: "'a::len word Range list \<Rightarrow> 'a word \<Rightarrow> bool" where
  "in_table xs r \<longleftrightarrow> list_ex (\<lambda>x. Lo x \<le> r \<and> r \<le> Hi x \<and> in_range x r) xs"

lemma linear_in_table: "sorted_ranges xs \<Longrightarrow> linear_search xs r \<longleftrightarrow> in_table xs r"
proof (induction xs)
  case (Cons x xs)
  have later: "Hi x < Lo y \<and> Lo y \<le> Hi y" if "y \<in> set xs" for y
    using Cons.prems that by (auto simp: sorted_ranges_def list_all_iff)
  have "sorted_ranges xs" using Cons.prems by (simp add: sorted_ranges_def)
  note IH = Cons.IH [OF this]
  have "Lo x \<le> Hi x" using Cons.prems by (simp add: sorted_ranges_def)
  then have "\<not> in_table xs r" if "r \<le> Hi x"
    using that later by (force simp: in_table_def list_ex_iff)
  then show ?case using IH \<open>Lo x \<le> Hi x\<close> by (auto simp: in_table_def)
qed (simp add: in_table_def)

lemma binary_in_table:
  assumes "sorted_ranges xs" "hi \<le> length xs"
    and "\<And>i. i < lo \<Longrightarrow> Hi (xs ! i) < r" "\<And>i. hi \<le> i \<Longrightarrow> i < length xs \<Longrightarrow> r < Lo (xs ! i)"
  shows "binary_search xs r lo hi \<longleftrightarrow> in_table xs r"
  using assms
proof (induction xs r lo hi rule: binary_search.induct)
  case (1 xs r lo hi)
  have order: "Hi (xs ! i) < Lo (xs ! j)" if "i < j" "j < length xs" for i j
    using 1(3) that by (simp add: sorted_ranges_def sorted_wrt_iff_nth_less)
  have wf: "Lo (xs ! i) \<le> Hi (xs ! i)" if "i < length xs" for i
    using 1(3) that by (simp add: sorted_ranges_def list_all_length)
  show ?case
  proof (cases "lo < hi")
    case False
    have "\<not> (Lo (xs ! i) \<le> r \<and> r \<le> Hi (xs ! i))" if "i < length xs" for i
      using 1(5) [of i] 1(6) [of i] that False by (cases "i < lo") auto
    then have "\<not> in_table xs r" by (auto simp: in_table_def list_ex_length)
    then show ?thesis using False by (subst binary_search.simps) simp
  next
    case True
    define m where "m = (lo + hi) div 2"
    have m: "lo \<le> m" "m < hi" "m < length xs" using True 1(4) by (auto simp: m_def)
    have step: "binary_search xs r lo hi =
        (if Lo (xs ! m) \<le> r \<and> r \<le> Hi (xs ! m) then in_range (xs ! m) r
         else if r < Lo (xs ! m) then binary_search xs r lo m else binary_search xs r (m + 1) hi)"
      using True unfolding m_def by (subst binary_search.simps) (simp only: Let_def if_True)
    show ?thesis
    proof (cases "Lo (xs ! m) \<le> r \<and> r \<le> Hi (xs ! m)")
      case here: True
      have uniq: "i = m" if "i < length xs" "Lo (xs ! i) \<le> r" "r \<le> Hi (xs ! i)" for i
        using here that m order [of i m] order [of m i] by (cases i m rule: linorder_cases) auto
      have "in_table xs r \<longleftrightarrow> in_range (xs ! m) r"
      proof
        assume "in_table xs r"
        then obtain i where "i < length xs" "Lo (xs ! i) \<le> r" "r \<le> Hi (xs ! i)" "in_range (xs ! i) r"
          by (auto simp: in_table_def list_ex_length)
        then show "in_range (xs ! m) r" using uniq by metis
      qed (use here m in \<open>auto simp: in_table_def list_ex_length\<close>)
      then show ?thesis using here unfolding step by simp
    next
      case not_here: False
      show ?thesis
      proof (cases "r < Lo (xs ! m)")
        case lower: True
        have "r < Lo (xs ! i)" if "m \<le> i" "i < length xs" for i
          using that lower order [of m i] wf [of m] m by (cases "i = m") auto
        then have "binary_search xs r lo m \<longleftrightarrow> in_table xs r"
          using 1(1) [OF True m_def refl] not_here lower 1(3-5) m by auto
        then show ?thesis unfolding step if_not_P [OF not_here] if_P [OF lower] .
      next
        case upper: False
        have "Hi (xs ! i) < r" if "i < m + 1" for i
          using that upper not_here order [of i m] wf [of m] m by (cases "i = m") auto
        then have "binary_search xs r (m + 1) hi \<longleftrightarrow> in_table xs r"
          using 1(2) [OF True m_def refl] not_here upper 1(3,4,6) m by auto
        then show ?thesis unfolding step if_not_P [OF not_here] if_not_P [OF upper] .
      qed
    qed
  qed
qed

lemma searches_in_table:
  "sorted_ranges xs \<Longrightarrow> is16 xs r \<longleftrightarrow> in_table xs r" "sorted_ranges ys \<Longrightarrow> is32 ys q \<longleftrightarrow> in_table ys q"
  by (simp_all add: is16_def is32_def linear_in_table binary_in_table)

subsection \<open>White space\<close>

definition white_space :: "nat \<Rightarrow> bool" where
  "white_space n \<longleftrightarrow> 9 \<le> n \<and> n \<le> 13 \<or> n \<in> {0x20, 0x85, 0xA0, 0x1680} \<or> 0x2000 \<le> n \<and> n \<le> 0x200A
     \<or> n \<in> {0x2028, 0x2029, 0x202F, 0x205F, 0x3000}"

lemma mod_once: "m \<le> k \<Longrightarrow> 0 < k \<Longrightarrow> m mod k = 0 \<longleftrightarrow> m = 0 \<or> m = k" for m k :: nat
  by (cases "m = k") auto

lemma linear_space:
  fixes r :: u16
  assumes "0x100 \<le> unat r" "unat r \<le> 0x3000"
  shows "linear_search (drop 2 (R16 White_Space)) r \<longleftrightarrow> white_space (unat r)"
proof -
  have sub: "unat (r - k) = unat r - unat k" if "unat k \<le> unat r" for k using that by (simp add: unat_sub word_le_nat_alt)
  show ?thesis
    using assms mod_once [of "unat r - 0xA0" 5600] mod_once [of "unat r - 0x202F" 48]
    unfolding White_Space_def white_space_def
    by (auto simp: word_less_nat_alt word_le_nat_alt in_range_def word_unat_eq_iff unat_mod sub)
qed

lemma IsSpace_iff: "IsSpace r \<longleftrightarrow> white_space (unat r)"
proof -
  consider "unat r < 0x100" | "0x100 \<le> unat r" "unat r \<le> 0x3000" | "0x3000 < unat r" by linarith
  then show ?thesis
  proof cases
    case 1
    then show ?thesis
      by (auto simp: IsSpace_def MaxLatin1_def word_le_nat_alt white_space_def word_unat_eq_iff)
  next
    case 2
    then have u: "unat (ucast r :: u16) = unat r"
      by (simp add: unsigned_ucast_eq take_bit_nat_eq_self_iff)
    have "isExcludingLatin White_Space r = is16 (drop 2 (R16 White_Space)) (ucast r)"
      using 2 by (simp add: isExcludingLatin_def White_Space_def word_le_nat_alt)
    moreover have "is16 (drop 2 (R16 White_Space)) (ucast r) = linear_search (drop 2 (R16 White_Space)) (ucast r)"
      by (simp add: is16_def White_Space_def linearMax_def)
    ultimately show ?thesis
      using 2 u linear_space [of "ucast r"] by (simp add: IsSpace_def MaxLatin1_def word_le_nat_alt)
  next
    case 3
    then show ?thesis
      by (simp add: IsSpace_def MaxLatin1_def word_le_nat_alt isExcludingLatin_def White_Space_def white_space_def)
  qed
qed

subsection \<open>Trimming bytes\<close>

abbreviation ascii :: "byte \<Rightarrow> bool" where
  "ascii b \<equiv> unat b < 0x80"

lemma RuneSelf_ascii: "RuneSelf \<le> b \<longleftrightarrow> \<not> ascii b"
  by (auto simp: RuneSelf_def word_le_nat_alt)

lemma unat_rune: "unat (ucast b :: rune) = unat (b :: byte)"
  using unsigned_less [of b, where 'a = nat] by (simp add: unsigned_ucast_eq take_bit_nat_eq_self_iff)

lemma IsSpace_ascii: "ascii (byte_of_char c) \<Longrightarrow> IsSpace (ucast (byte_of_char c)) \<longleftrightarrow> asciiSpace c"
  unfolding IsSpace_iff unat_rune asciiSpace_def white_space_def
  by (auto simp: word_unat_eq_iff)

lemma range_runes_shift: "range_runes (i + k) p = map (\<lambda>(j, r). (j + k, r)) (range_runes i p)"
proof (induction i p rule: range_runes.induct)
  case (1 i p)
  show ?case
  proof (cases "p = []")
    case False
    obtain r sz where d: "DecodeRune p = (r, sz)" by (cases "DecodeRune p")
    have "range_runes (i + k + sz) (drop sz p) = map (\<lambda>(j, r). (j + k, r)) (range_runes (i + sz) (drop sz p))"
      using 1 [OF False d [symmetric] refl] by (simp add: add.commute add.left_commute)
    then show ?thesis
      using False d by (subst (1 2) range_runes.simps) simp
  qed (simp add: range_runes.simps)
qed

lemma TrimLeftFunc_ascii:
  assumes "ascii (byte_of_char c)"
  shows "TrimLeftFunc (c # s) f = (if f (ucast (byte_of_char c)) then TrimLeftFunc s f else c # s)"
proof -
  let ?b = "byte_of_char c"
  have d: "DecodeRune (?b # bytes_of_string s) = (ucast ?b, 1)"
    using decode_ascii [OF assms, of "bytes_of_string s"] unfolding of_nat_unat .
  have shift: "range_runes 1 p = map (\<lambda>(j, r). (j + 1, r)) (range_runes 0 p)" for p
    using range_runes_shift [of 0 1 p] by simp
  have runes: "range_runes 0 (bytes_of_string (c # s)) = (0, ucast ?b) # range_runes 1 (bytes_of_string s)"
    using d by (subst range_runes.simps) simp
  have find: "List.find P (map g xs) = map_option g (List.find (\<lambda>x. P (g x)) xs)" for P g and xs :: "(nat \<times> rune) list"
    by (induction xs) auto
  show ?thesis
    unfolding TrimLeftFunc_def indexFunc_def runes
    by (auto simp: shift [unfolded One_nat_def] find case_prod_beta' comp_def option.map_comp split: option.splits)
qed

lemma DecodeLastRune_ascii: "ascii b \<Longrightarrow> DecodeLastRune (p @ [b]) = (ucast b, 1)"
  by (simp add: DecodeLastRune_def Let_def word_less_nat_alt unat_rune RuneSelf_def)

lemma lastIndexFunc_ascii:
  "ascii b \<Longrightarrow> lastIndexFunc_loop (p @ [b]) f truth =
     (if f (ucast b) = truth then Some (length p) else lastIndexFunc_loop p f truth)"
  by (subst lastIndexFunc_loop.simps) (simp add: DecodeLastRune_ascii)

lemma dec_stops:
  assumes "p \<noteq> []" and "c < 0x80"
  shows "dec (p @ c # q) = dec p"
proof -
  obtain b r where p: "p = b # r" using assms(1) by (cases p) auto
  have no: "\<not> cont c" using assms(2) by (simp add: cont_def)
  have "two_bytes b (r @ c # q) \<longleftrightarrow> two_bytes b r" "three_bytes b (r @ c # q) \<longleftrightarrow> three_bytes b r"
    "four_bytes b (r @ c # q) \<longleftrightarrow> four_bytes b r"
    using no by (cases r; cases "tl r"; cases "tl (tl r)";
        force simp: two_bytes_def three_bytes_def four_bytes_def nth_append)+
  moreover have "two_bytes b r \<Longrightarrow> (r @ c # q) ! 0 = r ! 0"
    "three_bytes b r \<Longrightarrow> (r @ c # q) ! 0 = r ! 0 \<and> (r @ c # q) ! 1 = r ! 1"
    "four_bytes b r \<Longrightarrow> (r @ c # q) ! 0 = r ! 0 \<and> (r @ c # q) ! 1 = r ! 1 \<and> (r @ c # q) ! 2 = r ! 2"
    unfolding two_bytes_def three_bytes_def four_bytes_def by (auto simp: nth_append)
  ultimately show ?thesis by (simp add: p dec_def)
qed

lemma DecodeRune_stops: "p \<noteq> [] \<Longrightarrow> ascii b \<Longrightarrow> DecodeRune (p @ b # q) = DecodeRune p"
  using dec_stops [of "map unat p" "unat b" "map unat q"]
  by (simp add: DecodeRune_dec Suc_le_eq split: option.split)

lemma lastIndexFunc_lt: "lastIndexFunc_loop p f truth = Some i \<Longrightarrow> i < length p"
proof (induction p f truth rule: lastIndexFunc_loop.induct)
  case (1 p f truth)
  have p: "p \<noteq> []" using 1(2) by (subst (asm) lastIndexFunc_loop.simps) (auto split: if_splits)
  obtain r sz where d: "DecodeLastRune p = (r, sz)" by (cases "DecodeLastRune p")
  have sz: "1 \<le> sz" "sz \<le> length p" using DecodeLastRune_size [OF p] d by auto
  show ?case
  proof (cases "f r = truth")
    case True
    then show ?thesis using 1(2) p d sz by (subst (asm) lastIndexFunc_loop.simps) auto
  next
    case False
    then have "lastIndexFunc_loop (take (length p - sz) p) f truth = Some i"
      using 1(2) p d by (subst (asm) lastIndexFunc_loop.simps) simp
    then show ?thesis using 1(1) [OF p d [symmetric] refl refl False] by simp
  qed
qed

lemma TrimRightFunc_ascii:
  assumes "ascii (byte_of_char c)"
  shows "TrimRightFunc (s @ [c]) f = (if f (ucast (byte_of_char c)) then TrimRightFunc s f else s @ [c])"
proof -
  let ?b = "byte_of_char c"
  have li: "lastIndexFunc (s @ [c]) f False = (if f (ucast ?b) then lastIndexFunc s f False else Some (length s))"
    using lastIndexFunc_ascii [OF assms, of "bytes_of_string s" f False] by (simp add: lastIndexFunc_def)
  show ?thesis
  proof (cases "f (ucast ?b)")
    case False
    then show ?thesis using li assms by (simp add: TrimRightFunc_def RuneSelf_ascii)
  next
    case True
    show ?thesis
    proof (cases "lastIndexFunc s f False")
      case None
      then show ?thesis using True li by (simp add: TrimRightFunc_def)
    next
      case (Some i)
      then have i: "i < length s" using lastIndexFunc_lt by (fastforce simp: lastIndexFunc_def)
      have d: "DecodeRuneInString (drop i s @ [c]) = DecodeRuneInString (drop i s)"
        using i assms DecodeRune_stops [of "bytes_of_string (drop i s)" ?b "[]"] by (simp add: DecodeRuneInString_def)
      have "snd (DecodeRuneInString (drop i s)) \<le> length s - i"
        using DecodeRune_size [of "bytes_of_string (drop i s)"] i by (simp add: DecodeRuneInString_def)
      then show ?thesis
        using True li Some i d unfolding TrimRightFunc_def by (auto simp: nth_append split: prod.splits)
    qed
  qed
qed

lemma TrimSpace_stop_right: "TrimSpace_stop (rev s) = TrimRightFunc s IsSpace"
proof (induction s rule: rev_induct)
  case Nil
  then show ?case by (simp add: TrimRightFunc_def split: option.splits prod.splits)
next
  case (snoc c s)
  then show ?case
    by (cases "ascii (byte_of_char c)")
       (simp_all add: RuneSelf_ascii TrimRightFunc_ascii IsSpace_ascii del: unat_byte_of_char)
qed

lemma TrimSpace_func: "TrimSpace s = TrimFunc s IsSpace"
proof (induction s)
  case Nil
  have "TrimLeftFunc [] IsSpace = []" by (simp add: TrimLeftFunc_def split: option.splits)
  then show ?case using TrimSpace_stop_right [of "[]"] by (simp add: TrimFunc_def)
next
  case (Cons c s)
  then show ?case
    using TrimSpace_stop_right [of "c # s"]
    by (cases "ascii (byte_of_char c)")
       (simp_all add: RuneSelf_ascii TrimFunc_def TrimLeftFunc_ascii IsSpace_ascii del: unat_byte_of_char)
qed

subsection \<open>Properties\<close>

text \<open>C35: The fast path of \<^verbatim>\<open>TrimSpace\<close> changes nothing: on every byte string, valid UTF-8 or not, it
  returns what \<^verbatim>\<open>TrimFunc\<close> with \<^verbatim>\<open>unicode.IsSpace\<close> returns, and \<^verbatim>\<open>IsSpace\<close> holds exactly of the
  white-space characters of Unicode.\<close>

theorem TrimSpace_is_TrimFunc:
  "TrimSpace s = TrimFunc s IsSpace \<and> IsSpace r = white_space (unat r)"
  using TrimSpace_func IsSpace_iff by blast

text \<open>On a sorted table the binary search of \<^verbatim>\<open>is16\<close> and \<^verbatim>\<open>is32\<close> finds what the linear search finds:
  whether some range of the table has the rune.\<close>

theorem table_searches_agree:
  assumes "sorted_ranges xs"
  shows "binary_search xs r 0 (length xs) = linear_search xs r \<and> linear_search xs r = in_table xs r"
  using linear_in_table [OF assms] binary_in_table [OF assms, of "length xs" 0 r] by simp

theorem table_searches_agree_witness:
  "sorted_ranges (R16 White_Space)
   \<and> binary_search (R16 White_Space) 0x2003 0 (length (R16 White_Space)) = linear_search (R16 White_Space) 0x2003"
proof
  show s: "sorted_ranges (R16 White_Space)" by code_simp
  show "binary_search (R16 White_Space) 0x2003 0 (length (R16 White_Space)) = linear_search (R16 White_Space) 0x2003"
    using table_searches_agree [OF s] by blast
qed

end
