(* ===== verification/Proxy_Server.thy ===== *)
theory Proxy_Server
  imports Proxy_Session Net_HTTP Go_Space
begin

text \<open>
  The server around the sessions (\<^verbatim>\<open>proxy/main.go\<close>, type \<^verbatim>\<open>Server\<close>): the list of allowed origins that
  \<^verbatim>\<open>main\<close> reads from its flag, the origin check, the \<^verbatim>\<open>/connect\<close> handler up to the session, and the
  handlers of the API for pulling and searching images. The field \<^verbatim>\<open>sessions\<close> of \<^verbatim>\<open>Server\<close> is never used
  and left out.

  What other programs answer is an argument: the registry (parsing a reference, fetching an image
  for an architecture, exporting it in chunks) and the search service. The clock reading is an
  argument too. A handler takes the response it writes to and returns it; \<^term>\<open>None\<close> is a panic. The
  response writer of the HTTP/3 server, a library outside the repository, is taken to be that of
  \<^verbatim>\<open>net/http\<close>; only the refusal of a session is written to it.
\<close>

record Server =
  certFile :: string
  keyFile :: string
  listen :: string
  limiter :: RateLimiter
  allowedOrigins :: "(string, bool) gomap option"

definition NewServer :: "string \<Rightarrow> string \<Rightarrow> string \<Rightarrow> RateLimiter \<Rightarrow> string list \<Rightarrow> Server" where
  "NewServer addr cert key rl origins =
     \<lparr>certFile = cert, keyFile = key, listen = addr, limiter = rl,
      allowedOrigins = (if 0 < length origins then Some (fold (\<lambda>origin. AList.update origin True) origins []) else None)\<rparr>"

definition CheckOrigin :: "Server \<Rightarrow> Request \<Rightarrow> bool" where
  "CheckOrigin s r =
     (case allowedOrigins s of
        None \<Rightarrow> True
      | Some m \<Rightarrow> map_index False m (Header_Get (r_Header r) ''Origin''))"

text \<open>The \<^verbatim>\<open>/connect\<close> handler until the upgrade is tried; then when it has failed.\<close>

definition connectStart :: "Server \<Rightarrow> Request \<Rightarrow> response \<Rightarrow> (bool \<times> Server \<times> response) option" where
  "connectStart s r w =
     (case TryAcquireSession (limiter s) (RemoteAddr r) of
        (False, rl) \<Rightarrow>
          map_option (\<lambda>w. (False, s\<lparr>limiter := rl\<rparr>, w)) (http_Error ''too many sessions'' StatusTooManyRequests w)
      | (True, rl) \<Rightarrow> Some (True, s\<lparr>limiter := rl\<rparr>, w))"

definition releaseSession :: "string \<Rightarrow> Server \<Rightarrow> Server" where
  "releaseSession addr s = s\<lparr>limiter := ReleaseSession (limiter s) addr\<rparr>"

definition sessionOver :: "Session \<Rightarrow> Server \<Rightarrow> Session \<times> Server" where
  \<comment> \<open>\<^verbatim>\<open>handleSession\<close> after the transport is gone\<close>
  "sessionOver sess s = (closeAll sess, releaseSession (remoteIP sess) s)"

subsection \<open>The API\<close>

record ('r, 'i) registry =
  ParseReference :: "string \<Rightarrow> string + 'r"
  remote_Image :: "'r \<Rightarrow> string \<Rightarrow> string + 'i"
  crane_Export :: "'i \<Rightarrow> byte list list \<times> string option"

fun writeAll :: "byte list list \<Rightarrow> response \<Rightarrow> response option" where
  "writeAll [] w = Some w"
| "writeAll (c # cs) w = (case response_Write c w of None \<Rightarrow> None | Some (_, w) \<Rightarrow> writeAll cs w)"

definition health :: "response \<Rightarrow> response option" where
  "health w = map_option snd (response_Write (bytes_of_string ''ok'') w)"

definition corsHeaders :: "response \<Rightarrow> response" where
  "corsHeaders w = setHeader ''Access-Control-Expose-Headers'' ''Content-Length, X-Image-Name'' w"

definition exportImage :: "('r, 'i) registry \<Rightarrow> string \<Rightarrow> string \<Rightarrow> 'i \<Rightarrow> response \<Rightarrow> response option" where
  "exportImage reg imageRef arch img w =
     (let w = setHeader ''Content-Type'' ''application/x-tar'' w;
          w = setHeader ''X-Image-Name'' imageRef w;
          w = setHeader ''X-Image-Arch'' arch w
      in writeAll (fst (crane_Export reg img)) w)"

definition handleDockerPull ::
  "('r, 'i) registry \<Rightarrow> i64 \<Rightarrow> Server \<Rightarrow> Request \<Rightarrow> response \<Rightarrow> (Server \<times> response) option" where
  "handleDockerPull reg now s r w =
     (let w = corsHeaders w
      in if Method r = ''OPTIONS'' then map_option (Pair s) (WriteHeader StatusNoContent w)
         else
           let imageRef = Values_Get (URL_Query (r_URL r)) ''image''
           in if imageRef = [] then map_option (Pair s) (http_Error ''missing ?image= parameter'' StatusBadRequest w)
              else case ParseReference reg imageRef of
                Inl err \<Rightarrow>
                  map_option (Pair s) (http_Error (''invalid image reference: '' @ err) StatusBadRequest w)
              | Inr ref \<Rightarrow>
                  (case TryConnection (limiter s) (RemoteAddr r) now of
                     (False, rl) \<Rightarrow>
                       map_option (Pair (s\<lparr>limiter := rl\<rparr>))
                         (http_Error ''daily pull limit exceeded'' StatusTooManyRequests w)
                   | (True, rl) \<Rightarrow>
                       map_option (Pair (s\<lparr>limiter := rl\<rparr>))
                         (case remote_Image reg ref ''riscv64'' of
                            Inr img \<Rightarrow> exportImage reg imageRef ''riscv64'' img w
                          | Inl _ \<Rightarrow>
                              (case remote_Image reg ref ''amd64'' of
                                 Inr img \<Rightarrow> exportImage reg imageRef ''amd64'' img w
                               | Inl err \<Rightarrow>
                                   http_Error (''failed to pull image: '' @ err) StatusInternalServerError w))))"

definition searchURL :: "string \<Rightarrow> string" where
  "searchURL q = ''https://hub.docker.com/v2/search/repositories/?query='' @ q @ ''&page_size=20''"

definition handleDockerSearch ::
  "(string \<Rightarrow> string + byte list list) \<Rightarrow> Request \<Rightarrow> response \<Rightarrow> response option" where
  \<comment> \<open>the argument is \<^verbatim>\<open>http.Get\<close>: an error text, or the body in the pieces \<^verbatim>\<open>io.Copy\<close> reads\<close>
  "handleDockerSearch get r w =
     (let w = corsHeaders w
      in if Method r = ''OPTIONS'' then WriteHeader StatusNoContent w
         else
           let q = Values_Get (URL_Query (r_URL r)) ''q''
           in if q = [] then http_Error ''missing ?q= parameter'' StatusBadRequest w
              else case get (searchURL q) of
                Inl err \<Rightarrow> http_Error (''search failed: '' @ err) StatusBadGateway w
              | Inr parts \<Rightarrow> writeAll parts (setHeader ''Content-Type'' ''application/json'' w))"

subsection \<open>The program\<close>

record flags =
  f_listen :: string
  f_cert :: string
  f_key :: string
  f_max_sessions :: int
  f_max_conns :: int
  f_origins :: string

definition default_flags :: flags where
  "default_flags =
     \<lparr>f_listen = '':4433'', f_cert = ''cert.pem'', f_key = ''key.pem'', f_max_sessions = 3, f_max_conns = 100,
      f_origins = []\<rparr>"

definition originList :: "bytealg \<Rightarrow> string \<Rightarrow> string list option" where
  "originList ba origins =
     (if origins \<noteq> [] then map_option (map TrimSpace) (Split ba origins '','') else Some [])"

definition main_server :: "bytealg \<Rightarrow> flags \<Rightarrow> Server option" where
  "main_server ba f =
     (let rl = NewRateLimiter (f_max_sessions f) (f_max_conns f)
      in map_option (NewServer (f_listen f) (f_cert f) (f_key f) rl) (originList ba (f_origins f)))"

subsection \<open>Origins\<close>

lemma allowed_fold:
  "map_index False (fold (\<lambda>origin. AList.update origin True) origins m) x \<longleftrightarrow> x \<in> set origins \<or> map_index False m x"
  by (induction origins arbitrary: m) auto

lemma CheckOrigin_NewServer:
  "CheckOrigin (NewServer addr cert key rl origins) r \<longleftrightarrow>
     origins = [] \<or> Header_Get (r_Header r) ''Origin'' \<in> set origins"
  by (simp add: CheckOrigin_def NewServer_def allowed_fold)

lemma originList_pieces:
  assumes "native_ok ba"
  shows "originList ba s = Some (if s = [] then [] else map TrimSpace (splitOn s '',''))"
  using Split_splitOn [OF assms, of "'',''" s] by (simp add: originList_def)


definition ex_request :: "Header \<Rightarrow> Request" where
  "ex_request h = \<lparr>Method = ''GET'', r_URL = \<lparr>RawQuery = []\<rparr>, r_Header = h, RemoteAddr = ''1.2.3.4:5''\<rparr>"


subsection \<open>Answers of the API\<close>

definition ok_so_far :: "response \<Rightarrow> byte list \<Rightarrow> Header \<Rightarrow> bool" where
  "ok_so_far w b h \<longleftrightarrow>
     wroteHeader w \<and> status w = StatusOK \<and> contentLength w = -1 \<and> body w = b \<and> cw_header w = Some h"

lemma Write_ok:
  "ok_so_far w b h \<Longrightarrow> \<exists>w'. response_Write c w = Some (None, w') \<and> ok_so_far w' (b @ c) h"
  by (auto simp: ok_so_far_def Write_answered bodyAllowedForStatus_def StatusOK_def)

lemma Write_first:
  assumes "unanswered w"
  shows "\<exists>w'. response_Write c w = Some (None, w') \<and> ok_so_far w' c (handlerHeader w)"
  using assms WriteHeader_unanswered [of w StatusOK]
  by (auto simp: response_Write_def unanswered_def ok_so_far_def bodyAllowedForStatus_def StatusOK_def Let_def)

lemma writeAll_ok: "ok_so_far w b h \<Longrightarrow> \<exists>w'. writeAll cs w = Some w' \<and> ok_so_far w' (b @ concat cs) h"
proof (induction cs arbitrary: w b)
  case (Cons c cs)
  then obtain w1 where "response_Write c w = Some (None, w1)" "ok_so_far w1 (b @ c) h" using Write_ok by blast
  with Cons.IH [of w1 "b @ c"] show ?case by simp
qed simp

lemma writeAll_unanswered:
  assumes "unanswered w"
  shows "\<exists>w' w''. writeAll cs w = Some w' \<and> finishRequest w' = Some w'' \<and> ok_so_far w'' (concat cs) (handlerHeader w)"
proof (cases cs)
  case Nil
  with assms WriteHeader_unanswered [of w StatusOK] show ?thesis
    by (auto simp: finishRequest_def unanswered_def ok_so_far_def StatusOK_def)
next
  case (Cons c cs')
  obtain w1 where "response_Write c w = Some (None, w1)" "ok_so_far w1 c (handlerHeader w)"
    using Write_first [OF assms] by blast
  with writeAll_ok [of w1 c "handlerHeader w" cs'] Cons show ?thesis
    by (auto simp: finishRequest_def ok_so_far_def)
qed

text \<open>What a handler sends once it has returned: the status and the body.\<close>

definition answer :: "response option \<Rightarrow> (status \<times> byte list) option" where
  "answer w = (case w of None \<Rightarrow> None | Some w \<Rightarrow> map_option (\<lambda>w. (status w, body w)) (finishRequest w))"

lemma unanswered_cors: "unanswered (corsHeaders response_new)"
  by (simp add: corsHeaders_def unanswered_setHeader unanswered_new)

lemma answer_Error:
  "unanswered w \<Longrightarrow> 305 \<le> code \<Longrightarrow> code \<le> 999 \<Longrightarrow>
     answer (http_Error e code w) = Some (code, bytes_of_string (e @ [CHR 0x0A]))"
  using http_Error_unanswered [of w code e] by (auto simp: answer_def finishRequest_def)

lemma answer_NoContent: "unanswered w \<Longrightarrow> answer (WriteHeader StatusNoContent w) = Some (StatusNoContent, [])"
  by (simp add: WriteHeader_unanswered StatusNoContent_def answer_def finishRequest_def unanswered_def)

lemma answer_writeAll: "unanswered w \<Longrightarrow> answer (writeAll cs w) = Some (StatusOK, concat cs)"
  using writeAll_unanswered [of w cs] by (auto simp: answer_def ok_so_far_def)

lemma answer_export:
  "unanswered w \<Longrightarrow> answer (exportImage reg imageRef arch img w) = Some (StatusOK, concat (fst (crane_Export reg img)))"
  by (simp add: exportImage_def Let_def answer_writeAll unanswered_setHeader)

lemma answer_health: "answer (health response_new) = Some (StatusOK, bytes_of_string ''ok'')"
  using Write_first [OF unanswered_new, of "bytes_of_string ''ok''"]
  by (auto simp: health_def answer_def finishRequest_def ok_so_far_def)

lemmas answers = answer_Error answer_NoContent answer_export answer_writeAll unanswered_cors

text \<open>The image of a pull: for the first architecture of the two that the registry has.\<close>

definition pulled :: "('r, 'i) registry \<Rightarrow> 'r \<Rightarrow> string + 'i" where
  "pulled reg ref =
     (case remote_Image reg ref ''riscv64'' of
        Inr img \<Rightarrow> Inr img
      | Inl _ \<Rightarrow> remote_Image reg ref ''amd64'')"

lemma pull_answers:
  "\<exists>s' w. handleDockerPull reg now s r response_new = Some (s', w)
     \<and> (let img = Values_Get (URL_Query (r_URL r)) ''image'';
            (granted, rl) = TryConnection (limiter s) (RemoteAddr r) now
        in if Method r = ''OPTIONS'' then s' = s \<and> answer (Some w) = Some (204, [])
           else if img = [] then s' = s \<and> map_option fst (answer (Some w)) = Some 400
           else case ParseReference reg img of
             Inl _ \<Rightarrow> s' = s \<and> map_option fst (answer (Some w)) = Some 400
           | Inr ref \<Rightarrow>
               s' = s\<lparr>limiter := rl\<rparr>
               \<and> (if \<not> granted then map_option fst (answer (Some w)) = Some 429
                  else case pulled reg ref of
                    Inl _ \<Rightarrow> map_option fst (answer (Some w)) = Some 500
                  | Inr i \<Rightarrow> answer (Some w) = Some (200, concat (fst (crane_Export reg i)))))"
proof -
  have some: "\<exists>w. x = Some w \<and> answer (Some w) = Some a" if "answer x = Some a" for x a
    using that by (cases x) (auto simp: answer_def)
  note e = some [OF answer_Error [OF unanswered_cors]] and nc = some [OF answer_NoContent [OF unanswered_cors]]
    and ex = some [OF answer_export [OF unanswered_cors]]
  show ?thesis
    using nc e [of StatusBadRequest] e [of StatusTooManyRequests] e [of StatusInternalServerError] ex
    by (fastforce simp: handleDockerPull_def pulled_def Let_def status_defs split: sum.split prod.split bool.split)
qed

text \<open>C40: A pull request is always answered, and the status says what happened: 204 to a preflight request;
  400 without an image or with one that does not parse, both of which leave the limiter alone;
  429 exactly when \<^verbatim>\<open>TryConnection\<close> denies the client; 500 when the registry has the image for neither
  architecture; and otherwise 200 with the bytes of the exported image.\<close>

theorem handleDockerPull_answers:
  "\<exists>s' w. handleDockerPull reg now s r response_new = Some (s', w)
     \<and> (let img = Values_Get (URL_Query (r_URL r)) ''image'';
            (granted, rl) = TryConnection (limiter s) (RemoteAddr r) now
        in if Method r = ''OPTIONS'' then s' = s \<and> answer (Some w) = Some (204, [])
           else if img = [] then s' = s \<and> map_option fst (answer (Some w)) = Some 400
           else case ParseReference reg img of
             Inl _ \<Rightarrow> s' = s \<and> map_option fst (answer (Some w)) = Some 400
           | Inr ref \<Rightarrow>
               s' = s\<lparr>limiter := rl\<rparr>
               \<and> (if \<not> granted then map_option fst (answer (Some w)) = Some 429
                  else case pulled reg ref of
                    Inl _ \<Rightarrow> map_option fst (answer (Some w)) = Some 500
                  | Inr i \<Rightarrow> answer (Some w) = Some (200, concat (fst (crane_Export reg i)))))"
  by (rule pull_answers)

lemma handleDockerSearch_answers:
  assumes "Method r \<noteq> ''OPTIONS''" "Values_Get (URL_Query (r_URL r)) ''q'' = q" "q \<noteq> []"
  shows "answer (handleDockerSearch get r response_new) =
    (case get (searchURL q) of
       Inl err \<Rightarrow> Some (502, bytes_of_string (''search failed: '' @ err @ [CHR 0x0A]))
     | Inr parts \<Rightarrow> Some (200, concat parts))"
  using assms
  by (simp add: handleDockerSearch_def Let_def answers status_defs unanswered_setHeader split: sum.split)

definition queryOf :: "string \<Rightarrow> string" where
  \<comment> \<open>what follows the first question mark of a URL\<close>
  "queryOf url = fst (snd (CutByte url CHR ''?''))"

lemma queryOf_searchURL: "queryOf (searchURL q) = ''query='' @ q @ ''&page_size=20''"
proof -
  have "searchURL q = ''https://hub.docker.com/v2/search/repositories/'' @ CHR ''?'' # (''query='' @ q @ ''&page_size=20'')"
    by (simp add: searchURL_def)
  moreover have "CHR ''?'' \<notin> set ''https://hub.docker.com/v2/search/repositories/''" by simp
  ultimately show ?thesis unfolding queryOf_def using CutByte_append by (metis fst_conv snd_conv)
qed

lemma escaped_literals: "queryEscaped ''query'' = ''query''" "queryEscaped ''page_size'' = ''page_size''" "queryEscaped ''20'' = ''20''"
  by code_simp+

text \<open>The search handler puts the client's text into the URL without escaping it. A text of the form
  \<open>term&key=value\<close> therefore adds a parameter of the client's choice to the request to the search
  service, and where the key is \<^verbatim>\<open>page_size\<close> it comes before the handler's own.\<close>

lemma search_adds_parameters:
  assumes "key \<noteq> ''query''"
  shows "Values_Get (fst (ParseQuery (queryOf
      (searchURL (queryEscaped term @ ''&'' @ queryEscaped key @ ''='' @ queryEscaped value))))) key = value"
proof -
  let ?ps = "[(''query'', term), (key, value), (''page_size'', ''20'')]"
  have "queryOf (searchURL (queryEscaped term @ ''&'' @ queryEscaped key @ ''='' @ queryEscaped value)) = settings ?ps"
    by (simp add: queryOf_searchURL settings_def setting_def escaped_literals del: escaped.simps)
  then show ?thesis
    using assms fold_Add [of ?ps "[]" key] by (simp add: ParseQuery_settings Values_Get_def del: fold_simps)
qed

end
