(* ===== verification/Proxy_Wire.thy ===== *)
theory Proxy_Wire
  imports Proxy_Session
begin

text \<open>
  The requests of a session as byte strings: what each handler does depends on the bytes of
  its stream and not on how they arrive in chunks, and on which requests the proxy panics.
\<close>

lemma Uint32_take [simp]: "4 \<le> n \<Longrightarrow> bigEndian_Uint32 (take n b) = bigEndian_Uint32 b"
  by (auto simp: bigEndian_Uint32_def)

lemma Uint16_take [simp]: "2 \<le> n \<Longrightarrow> bigEndian_Uint16 (take n b) = bigEndian_Uint16 b"
  by (auto simp: bigEndian_Uint16_def)

lemma Uint32_some: "4 \<le> length b \<Longrightarrow> \<exists>v. bigEndian_Uint32 b = Some v"
  using BigEndian.w32.get_defined [of b] by auto

lemma Uint16_some: "2 \<le> length b \<Longrightarrow> \<exists>v. bigEndian_Uint16 b = Some v"
  using BigEndian.w16.get_defined [of b] by auto

lemma Uint_drop_some:
  "n + 2 \<le> length b \<Longrightarrow> \<exists>v. bigEndian_Uint16 (drop n b) = Some v"
  "n + 4 \<le> length b \<Longrightarrow> \<exists>v. bigEndian_Uint32 (drop n b) = Some v"
  using Uint16_some [of "drop n b"] Uint32_some [of "drop n b"] by auto

lemma unat_hostLen_plus_2:
  "unat (hl + 2 :: u16) = (if 65534 \<le> unat hl then unat hl - 65534 else unat hl + 2)"
proof -
  have "unat hl < 65536" using unsigned_less [of hl, where 'a = nat] by simp
  then have "65534 \<le> unat hl \<Longrightarrow> unat hl = 65534 \<or> unat hl = 65535" by linarith
  then show ?thesis using \<open>unat hl < 65536\<close> by (auto simp: unat_word_ariths)
qed

lemma handleConnect_bytes:
  "handleConnect env stream sess =
     (let bs = avail stream
      in if length bs < 7 then Some sess
         else
           let hostLen = the (bigEndian_Uint16 (drop 5 bs)); rest = drop 7 bs
           in if length rest < unat (hostLen + 2) then Some sess
              else if 65534 \<le> unat hostLen then None
              else Some (startConnect env (the (bigEndian_Uint32 bs)) (uint (bs ! 4))
                           (string_of_bytes (take (unat hostLen) rest))
                           (the (bigEndian_Uint16 (drop (unat hostLen) rest))) sess))"
proof (cases rule: ReadFull_cases [of 7 stream])
  case (short e r')
  then show ?thesis by (simp add: handleConnect_def)
next
  case (enough r')
  let ?bs = "avail stream"
  obtain connID where id: "bigEndian_Uint32 ?bs = Some connID"
    using enough(1) Uint32_some [of ?bs] by auto
  have drop5: "drop 5 (take 7 ?bs) = take 2 (drop 5 ?bs)" by (simp add: drop_take)
  obtain hostLen where hl: "bigEndian_Uint16 (drop 5 ?bs) = Some hostLen"
    using enough(1) Uint_drop_some(1) [of 5 ?bs] by auto
  have body: "handleConnect env stream sess =
      (case ReadFull r' (unat (hostLen + 2)) of
         (_, Some err, _) \<Rightarrow> Some sess
       | (hostBuf, None, _) \<Rightarrow> do {
           hostBytes \<leftarrow> slice_to hostBuf (unat hostLen);
           portBytes \<leftarrow> slice_from hostBuf (unat hostLen);
           port \<leftarrow> bigEndian_Uint16 portBytes;
           Some (startConnect env connID (uint (?bs ! 4)) (string_of_bytes hostBytes) port sess)
         })"
    using enough id hl by (simp add: handleConnect_def drop5)
  show ?thesis
  proof (cases rule: ReadFull_cases [of "unat (hostLen + 2)" r'])
    case (short e r1)
    then show ?thesis using enough unfolding body by (simp add: Let_def id hl)
  next
    case e2: (enough r1)
    show ?thesis
    proof (cases "65534 \<le> unat hostLen")
      case True
      then have "unat (hostLen + 2) < unat hostLen" by (simp add: unat_hostLen_plus_2)
      then show ?thesis
        using enough e2 True unfolding body by (simp add: Let_def slice_to_def id hl)
    next
      case False
      then have n: "unat (hostLen + 2) = unat hostLen + 2" by (simp add: unat_hostLen_plus_2)
      let ?rest = "drop 7 ?bs"
      have len: "unat hostLen + 2 \<le> length ?rest" using e2(1) enough(3) n by simp
      have "drop (unat hostLen) (take (unat hostLen + 2) ?rest) = take 2 (drop (unat hostLen) ?rest)"
        by (simp add: drop_take)
      moreover obtain port where "bigEndian_Uint16 (drop (unat hostLen) ?rest) = Some port"
        using Uint_drop_some(1) [of "unat hostLen" ?rest] len by auto
      ultimately show ?thesis
        using enough e2 False len n unfolding body
        by (simp add: Let_def slice_to_def slice_from_def min_def id hl)
    qed
  qed
qed

lemma handleBind_bytes:
  "handleBind env stream sess =
     (let bs = avail stream
      in if length bs < 7 then Some sess
         else
           let connID = the (bigEndian_Uint32 bs); sockType = uint (bs ! 4);
               addr = '':'' @ Uitoa (unat (the (bigEndian_Uint16 (drop 5 bs))))
           in case env_listen env of
                Some err \<Rightarrow> Some (sendEvent env MsgError connID (bytes_of_string err) sess)
              | None \<Rightarrow>
                  let (k, sess) = openSock (if sockType = SOCK_STREAM then ''tcp'' else ''udp'') addr sess;
                      conn = (if sockType = SOCK_STREAM
                              then (newConn connID sockType)\<lparr>c_listener := Some k\<rparr>
                              else (newConn connID sockType)\<lparr>c_udpConn := Some k\<rparr>);
                      (r, sess) = alloc conn sess
                  in Some (sendEvent env MsgConnected connID [] (storeConn connID r sess)))"
proof (cases rule: ReadFull_cases [of 7 stream])
  case (short e r')
  then show ?thesis by (simp add: handleBind_def)
next
  case (enough r')
  let ?bs = "avail stream"
  have drop5: "drop 5 (take 7 ?bs) = take 2 (drop 5 ?bs)" by (simp add: drop_take)
  obtain connID port where "bigEndian_Uint32 ?bs = Some connID" "bigEndian_Uint16 (drop 5 ?bs) = Some port"
    using enough(1) Uint32_some [of ?bs] Uint_drop_some(1) [of 5 ?bs] by auto
  then show ?thesis using enough by (simp add: handleBind_def Let_def drop5)
qed

lemma handleListen_bytes:
  "handleListen env stream sess =
     (if length (avail stream) < 8 then Some sess
      else
        let connID = the (bigEndian_Uint32 (avail stream)); (v, m) = Load (connections sess) connID;
            sess = sess\<lparr>connections := m\<rparr>
        in case v of
             None \<Rightarrow> Some sess
           | Some r \<Rightarrow>
               if c_listener (objs sess ! r) = None then Some sess
               else Some (spawn (AcceptTask r connID) sess))"
proof (cases rule: ReadFull_cases [of 8 stream])
  case (short e r')
  then show ?thesis by (simp add: handleListen_def)
next
  case (enough r')
  then obtain connID where "bigEndian_Uint32 (avail stream) = Some connID"
    using Uint32_some [of "avail stream"] by auto
  then show ?thesis using enough by (simp add: handleListen_def Let_def case_prod_beta)
qed

lemma handleSend_bytes:
  "handleSend env stream sess =
     (let bs = avail stream; dataLen = unat (the (bigEndian_Uint32 (drop 4 bs)))
      in if length bs < 8 \<or> length bs < 8 + dataLen then Some sess
         else
           let (v, m) = Load (connections sess) (the (bigEndian_Uint32 bs));
               sess = sess\<lparr>connections := m\<rparr>
           in case v of
                None \<Rightarrow> Some sess
              | Some r \<Rightarrow>
                  (case c_conn (objs sess ! r) of
                     None \<Rightarrow> Some sess
                   | Some k \<Rightarrow>
                       let s = socks sess ! k
                       in if sk_open s
                          then Some (sess\<lparr>socks := (socks sess)[k := s\<lparr>sk_sent := sk_sent s
                                       @ take (env_written env) (take dataLen (drop 8 bs))\<rparr>]\<rparr>)
                          else Some sess))"
proof (cases rule: ReadFull_cases [of 8 stream])
  case (short e r')
  then show ?thesis by (simp add: handleSend_def)
next
  case (enough r')
  let ?bs = "avail stream"
  have drop4: "drop 4 (take 8 ?bs) = take 4 (drop 4 ?bs)" by (simp add: drop_take)
  obtain connID n where u: "bigEndian_Uint32 ?bs = Some connID" and l: "bigEndian_Uint32 (drop 4 ?bs) = Some n"
    using enough(1) Uint32_some [of ?bs] Uint_drop_some(2) [of 4 ?bs] by auto
  show ?thesis
  proof (cases rule: ReadFull_cases [of "unat n" r'])
    case (short e r1)
    moreover from short have "length ?bs < 8 + unat n" using enough by simp
    ultimately show ?thesis using enough u l by (simp add: handleSend_def Let_def drop4)
  next
    case e2: (enough r1)
    then have "\<not> length ?bs < 8 + unat n" using enough by simp
    then show ?thesis
      using enough e2 u l by (simp add: handleSend_def Let_def drop4 split: prod.split option.split)
  qed
qed

lemma handleClose_bytes:
  "handleClose env stream sess =
     (if length (avail stream) < 4 then Some sess
      else
        let connID = the (bigEndian_Uint32 (avail stream));
            (v, m) = LoadAndDelete (connections sess) connID;
            sess = sess\<lparr>connections := m\<rparr>;
            sess = (case v of None \<Rightarrow> sess | Some r \<Rightarrow> Connection_Close r sess)
        in Some (sendEvent env MsgClosed connID [] sess))"
proof (cases rule: ReadFull_cases [of 4 stream])
  case (short e r')
  then show ?thesis by (simp add: handleClose_def)
next
  case (enough r')
  then obtain connID where "bigEndian_Uint32 (avail stream) = Some connID"
    using Uint32_some [of "avail stream"] by auto
  then show ?thesis using enough by (simp add: handleClose_def Let_def case_prod_beta)
qed

subsection \<open>Panics\<close>

text \<open>The sum \<^verbatim>\<open>hostLen+2\<close> is computed in 16 bits, so a host length of 65534 or 65535 makes the
  buffer shorter than the host that is cut out of it.\<close>

lemma handleStream_cases:
  assumes "ReadUvarint byteReader_ReadByte stream = (msgType, None, stream')"
  shows "handleStream env stream sess =
     (if msgType = MsgConnect then handleConnect env stream' sess
      else if msgType = MsgBind then handleBind env stream' sess
      else if msgType = MsgListen then handleListen env stream' sess
      else if msgType = MsgSend then handleSend env stream' sess
      else if msgType = MsgClose then handleClose env stream' sess
      else Some sess)"
  using assms by (simp add: handleStream_def)

lemma only_connect_panics:
  "handleBind env r sess \<noteq> None" "handleListen env r sess \<noteq> None" "handleSend env r sess \<noteq> None"
  "handleClose env r sess \<noteq> None"
  unfolding handleBind_bytes handleListen_bytes handleSend_bytes handleClose_bytes
  by (simp_all add: Let_def case_prod_beta split: option.splits)

text \<open>C4: The proxy panics on a request exactly when it is a connect request whose seven header
  bytes give a host length of 65534 or 65535 and whose stream goes on for as many bytes as the
  16-bit sum of that length and two (none or one).\<close>

theorem handleStream_panics_iff:
  "handleStream env stream sess = None \<longleftrightarrow>
     (\<exists>stream' hostLen.
        ReadUvarint byteReader_ReadByte stream = (MsgConnect, None, stream')
        \<and> bigEndian_Uint16 (drop 5 (avail stream')) = Some hostLen
        \<and> 65534 \<le> unat hostLen
        \<and> 7 + (unat hostLen - 65534) \<le> length (avail stream'))"
proof (cases "ReadUvarint byteReader_ReadByte stream")
  case (fields msgType err stream')
  show ?thesis
  proof (cases err)
    case (Some e)
    then show ?thesis using fields by (simp add: handleStream_def)
  next
    case None
    with fields have ru: "ReadUvarint byteReader_ReadByte stream = (msgType, None, stream')" by simp
    show ?thesis
    proof (cases "msgType = MsgConnect")
      case False
      then show ?thesis
        using only_connect_panics by (simp add: handleStream_cases [OF ru] ru)
    next
      case True
      let ?bs = "avail stream'"
      show ?thesis
      proof (cases "length ?bs < 7")
        case short: True
        then show ?thesis using True by (simp add: handleStream_cases [OF ru] ru handleConnect_bytes)
      next
        case False
        then obtain hl where hl: "bigEndian_Uint16 (drop 5 ?bs) = Some hl"
          using Uint_drop_some(1) [of 5 ?bs] by auto
        have "handleStream env stream sess = None \<longleftrightarrow> \<not> length ?bs - 7 < unat (hl + 2) \<and> 65534 \<le> unat hl"
          using False True by (simp add: handleStream_cases [OF ru] handleConnect_bytes Let_def hl)
        also have "\<dots> \<longleftrightarrow> 65534 \<le> unat hl \<and> 7 + (unat hl - 65534) \<le> length ?bs"
          using False by (auto simp: unat_hostLen_plus_2)
        finally show ?thesis using True by (simp add: ru hl)
      qed
    qed
  qed
qed

end
