(* ===== verification/Proxy_Invariant.thy ===== *)
theory Proxy_Invariant
  imports Proxy_Wire
begin

text \<open>
  The invariant of a session: the table of connections points to the objects it should, a
  socket belongs to one connection, a closed connection has no open socket, every open
  socket belongs to a connection that is not closed, and a connection that is being dialled
  has no socket yet. Every handler, every goroutine and the teardown keep it.
\<close>

definition owns :: "Connection \<Rightarrow> sockref \<Rightarrow> bool" where
  "owns c k \<longleftrightarrow> c_conn c = Some k \<or> c_listener c = Some k \<or> c_udpConn c = Some k"

fun task_ref :: "task \<Rightarrow> connref" where
  "task_ref (DialTask r i t a) = r"
| "task_ref (AcceptTask r i) = r"
| "task_ref (ReadTask r) = r"

fun is_dial :: "task \<Rightarrow> bool" where
  "is_dial (DialTask r i t a) = True"
| "is_dial _ = False"

definition dialRefs :: "task list \<Rightarrow> connref list" where
  "dialRefs ts = map task_ref (filter is_dial ts)"

definition table_ok :: "(u32, connref) SyncMap \<Rightarrow> Connection list \<Rightarrow> bool" where
  "table_ok m os \<longleftrightarrow>
     sm_inv m \<and> (\<forall>i r. sm_abs m i = Some r \<longrightarrow> r < length os \<and> c_id (os ! r) = i)"

definition heap_ok :: "Connection list \<Rightarrow> sock list \<Rightarrow> task list \<Rightarrow> bool" where
  "heap_ok os ks ts \<longleftrightarrow>
     (\<forall>r < length os. \<forall>k. owns (os ! r) k \<longrightarrow>
        k < length ks \<and> (c_closed (os ! r) \<longrightarrow> \<not> sk_open (ks ! k)))
     \<and> (\<forall>r < length os. \<forall>r' < length os. \<forall>k. owns (os ! r) k \<longrightarrow> owns (os ! r') k \<longrightarrow> r = r')
     \<and> (\<forall>k < length ks. sk_open (ks ! k) \<longrightarrow> (\<exists>r < length os. owns (os ! r) k))
     \<and> (\<forall>t \<in> set ts. task_ref t < length os)
     \<and> (\<forall>r \<in> set (dialRefs ts). \<forall>k. \<not> owns (os ! r) k)
     \<and> distinct (dialRefs ts)"

definition sess_inv :: "Session \<Rightarrow> bool" where
  "sess_inv s \<longleftrightarrow> table_ok (connections s) (objs s) \<and> heap_ok (objs s) (socks s) (tasks s)"

lemma heap_ok_D:
  assumes "heap_ok os ks ts"
  shows "r < length os \<Longrightarrow> owns (os ! r) k \<Longrightarrow> k < length ks"
    and "r < length os \<Longrightarrow> owns (os ! r) k \<Longrightarrow> c_closed (os ! r) \<Longrightarrow> \<not> sk_open (ks ! k)"
    and "r < length os \<Longrightarrow> r' < length os \<Longrightarrow> owns (os ! r) k \<Longrightarrow> owns (os ! r') k \<Longrightarrow> r = r'"
    and "k < length ks \<Longrightarrow> sk_open (ks ! k) \<Longrightarrow> \<exists>r < length os. owns (os ! r) k"
    and "t \<in> set ts \<Longrightarrow> task_ref t < length os"
    and "r \<in> set (dialRefs ts) \<Longrightarrow> \<not> owns (os ! r) k"
    and "distinct (dialRefs ts)"
  using assms unfolding heap_ok_def by blast+

lemma heap_ok_I:
  assumes "\<And>r k. r < length os \<Longrightarrow> owns (os ! r) k \<Longrightarrow> k < length ks"
    and "\<And>r k. r < length os \<Longrightarrow> owns (os ! r) k \<Longrightarrow> c_closed (os ! r) \<Longrightarrow> \<not> sk_open (ks ! k)"
    and "\<And>r r' k. r < length os \<Longrightarrow> r' < length os \<Longrightarrow> owns (os ! r) k \<Longrightarrow> owns (os ! r') k \<Longrightarrow> r = r'"
    and "\<And>k. k < length ks \<Longrightarrow> sk_open (ks ! k) \<Longrightarrow> \<exists>r < length os. owns (os ! r) k"
    and "\<And>t. t \<in> set ts \<Longrightarrow> task_ref t < length os"
    and "\<And>r k. r \<in> set (dialRefs ts) \<Longrightarrow> \<not> owns (os ! r) k"
    and "distinct (dialRefs ts)"
  shows "heap_ok os ks ts"
  using assms unfolding heap_ok_def by blast

lemma dialRefs_simps [simp]:
  "dialRefs [] = []" "dialRefs (t # ts) = (if is_dial t then task_ref t # dialRefs ts else dialRefs ts)"
  "dialRefs (ts @ us) = dialRefs ts @ dialRefs us"
  by (simp_all add: dialRefs_def)

lemma dialRefs_bound: "heap_ok os ks ts \<Longrightarrow> r \<in> set (dialRefs ts) \<Longrightarrow> r < length os"
  using heap_ok_D(5) by (fastforce simp: dialRefs_def)

lemma owns_newConn [simp]: "\<not> owns (newConn i t) k"
  by (simp add: owns_def newConn_def)

lemma owns_with_sock [simp]:
  "owns ((newConn i t)\<lparr>c_listener := Some k0\<rparr>) k \<longleftrightarrow> k = k0"
  "owns ((newConn i t)\<lparr>c_udpConn := Some k0\<rparr>) k \<longleftrightarrow> k = k0"
  "owns ((newConn i t)\<lparr>c_conn := Some k0\<rparr>) k \<longleftrightarrow> k = k0"
  by (auto simp: owns_def newConn_def)

lemma newConn_simps [simp]:
  "c_id (newConn i t) = i" "\<not> c_closed (newConn i t)" "c_listener (newConn i t) = None"
  by (simp_all add: newConn_def)

subsection \<open>Steps on the heap\<close>

lemma owner_append:
  "\<exists>r < length os. owns (os ! r) k \<Longrightarrow> \<exists>r < length (os @ cs). owns ((os @ cs) ! r) k"
  by (metis length_append nth_append trans_less_add1)

text \<open>A new connection without a socket, which is being dialled.\<close>

lemma heap_ok_dialling:
  assumes "heap_ok os ks ts" and "\<And>k. \<not> owns c k" and "is_dial t" and "task_ref t = length os"
  shows "heap_ok (os @ [c]) ks (ts @ [t])"
proof (rule heap_ok_I)
  note D = heap_ok_D [OF assms(1)]
  have old: "r < length os \<and> owns (os ! r) k" if "r < length (os @ [c])" "owns ((os @ [c]) ! r) k" for r k
    using that assms(2) by (cases "r = length os") (simp_all add: nth_append)
  fix r r' k
  show "r < length (os @ [c]) \<Longrightarrow> owns ((os @ [c]) ! r) k \<Longrightarrow> k < length ks"
    using old [of r k] D(1) [of r k] by blast
  show "\<not> sk_open (ks ! k)"
    if "r < length (os @ [c])" "owns ((os @ [c]) ! r) k" "c_closed ((os @ [c]) ! r)" for r k
    using D(2) [of r k] old [OF that(1,2)] that(3) by (simp add: nth_append)
  show "r < length (os @ [c]) \<Longrightarrow> r' < length (os @ [c]) \<Longrightarrow> owns ((os @ [c]) ! r) k
      \<Longrightarrow> owns ((os @ [c]) ! r') k \<Longrightarrow> r = r'"
    using old [of r k] old [of r' k] D(3) [of r r' k] by blast
  show "k < length ks \<Longrightarrow> sk_open (ks ! k) \<Longrightarrow> \<exists>r < length (os @ [c]). owns ((os @ [c]) ! r) k"
    using owner_append [OF D(4), of k "[c]"] .
  show "t1 \<in> set (ts @ [t]) \<Longrightarrow> task_ref t1 < length (os @ [c])" for t1
    using D(5) [of t1] assms(4) by auto
  show "r \<in> set (dialRefs (ts @ [t])) \<Longrightarrow> \<not> owns ((os @ [c]) ! r) k"
    using D(6) [of r k] dialRefs_bound [OF assms(1), of r] assms(2-4) by (auto simp: nth_append)
  show "distinct (dialRefs (ts @ [t]))"
    using D(7) dialRefs_bound [OF assms(1), of "length os"] assms(3,4) by (simp add: disjoint_iff) blast
qed

text \<open>A new connection with a new socket.\<close>

lemma heap_ok_with_sock:
  assumes "heap_ok os ks ts" and "\<And>k. owns c k \<longleftrightarrow> k = length ks" and "\<not> c_closed c"
  shows "heap_ok (os @ [c]) (ks @ [s]) ts"
proof (rule heap_ok_I)
  note D = heap_ok_D [OF assms(1)]
  have old: "r < length os \<and> owns (os ! r) k \<and> k < length ks \<or> r = length os \<and> k = length ks"
    if "r < length (os @ [c])" "owns ((os @ [c]) ! r) k" for r k
    using that assms(2) D(1) [of r k] by (cases "r = length os") (simp_all add: nth_append)
  fix r r' k
  show "r < length (os @ [c]) \<Longrightarrow> owns ((os @ [c]) ! r) k \<Longrightarrow> k < length (ks @ [s])"
    using old [of r k] by auto
  show "\<not> sk_open ((ks @ [s]) ! k)"
    if "r < length (os @ [c])" "owns ((os @ [c]) ! r) k" "c_closed ((os @ [c]) ! r)" for r k
    using D(2) [of r k] old [OF that(1,2)] that(3) assms(3) by (auto simp: nth_append)
  show "r < length (os @ [c]) \<Longrightarrow> r' < length (os @ [c]) \<Longrightarrow> owns ((os @ [c]) ! r) k
      \<Longrightarrow> owns ((os @ [c]) ! r') k \<Longrightarrow> r = r'"
    using old [of r k] old [of r' k] D(3) [of r r' k] by blast
  show "k < length (ks @ [s]) \<Longrightarrow> sk_open ((ks @ [s]) ! k) \<Longrightarrow>
      \<exists>r < length (os @ [c]). owns ((os @ [c]) ! r) k"
  proof (cases "k < length ks")
    case True
    assume "sk_open ((ks @ [s]) ! k)"
    with True have "sk_open (ks ! k)" by (simp add: nth_append)
    from owner_append [OF D(4) [OF True this], of "[c]"] show ?thesis .
  next
    case False
    assume "k < length (ks @ [s])"
    with False have "owns ((os @ [c]) ! length os) k" using assms(2) by simp
    then show ?thesis by (intro exI [of _ "length os"]) simp
  qed
  show "t1 \<in> set ts \<Longrightarrow> task_ref t1 < length (os @ [c])" for t1
    using D(5) [of t1] by auto
  show "r \<in> set (dialRefs ts) \<Longrightarrow> \<not> owns ((os @ [c]) ! r) k"
    using D(6) [of r k] dialRefs_bound [OF assms(1), of r] by (auto simp: nth_append)
  show "distinct (dialRefs ts)" by (fact D(7))
qed

lemma heap_ok_spawn:
  "heap_ok os ks ts \<Longrightarrow> \<not> is_dial t \<Longrightarrow> task_ref t < length os \<Longrightarrow> heap_ok os ks (ts @ [t])"
  unfolding heap_ok_def by simp

lemma set_remove_nth: "set (take i ts @ drop (Suc i) ts) \<subseteq> set ts"
  using set_take_subset [of i ts] set_drop_subset [of "Suc i" ts] by auto

lemma dialRefs_remove:
  assumes "distinct (dialRefs ts)"
  shows "distinct (dialRefs (take i ts @ drop (Suc i) ts))"
    and "set (dialRefs (take i ts @ drop (Suc i) ts)) \<subseteq> set (dialRefs ts)"
    and "i < length ts \<Longrightarrow> is_dial (ts ! i) \<Longrightarrow>
           task_ref (ts ! i) \<notin> set (dialRefs (take i ts @ drop (Suc i) ts))"
proof -
  have "set (dialRefs (take i ts @ drop (Suc i) ts)) \<subseteq> set (dialRefs ts)
      \<and> distinct (dialRefs (take i ts @ drop (Suc i) ts))
      \<and> (i < length ts \<longrightarrow> is_dial (ts ! i) \<longrightarrow>
           task_ref (ts ! i) \<notin> set (dialRefs (take i ts @ drop (Suc i) ts)))"
  proof (cases "i < length ts")
    case True
    have "dialRefs ts = dialRefs (take i ts @ ts ! i # drop (Suc i) ts)"
      by (rule arg_cong [OF id_take_nth_drop [OF True]])
    then have split: "dialRefs ts = dialRefs (take i ts) @ dialRefs [ts ! i] @ dialRefs (drop (Suc i) ts)"
      by simp
    show ?thesis using assms unfolding split by auto
  qed (use assms in simp)
  then show "distinct (dialRefs (take i ts @ drop (Suc i) ts))"
    and "set (dialRefs (take i ts @ drop (Suc i) ts)) \<subseteq> set (dialRefs ts)"
    and "i < length ts \<Longrightarrow> is_dial (ts ! i) \<Longrightarrow>
           task_ref (ts ! i) \<notin> set (dialRefs (take i ts @ drop (Suc i) ts))" by auto
qed

lemma heap_ok_endTask:
  assumes "heap_ok os ks ts"
  shows "heap_ok os ks (take i ts @ drop (Suc i) ts)"
proof (rule heap_ok_I)
  note D = heap_ok_D [OF assms]
  note R = dialRefs_remove [OF D(7), of i]
  show "t \<in> set (take i ts @ drop (Suc i) ts) \<Longrightarrow> task_ref t < length os" for t
    using set_remove_nth [of i ts] D(5) [of t] by blast
  show "r \<in> set (dialRefs (take i ts @ drop (Suc i) ts)) \<Longrightarrow> \<not> owns (os ! r) k" for r k
    using R(2) D(6) [of r k] by blast
  show "distinct (dialRefs (take i ts @ drop (Suc i) ts))" by (fact R(1))
qed (fact heap_ok_D(1-4) [OF assms])+

text \<open>The dial of a connection ends with a new socket.\<close>

lemma heap_ok_connected:
  assumes "heap_ok os ks ts" and "r0 < length os" and "\<And>k. \<not> owns (os ! r0) k"
    and "r0 \<notin> set (dialRefs ts)" and "\<not> c_closed (os ! r0)"
  shows "heap_ok (os[r0 := (os ! r0)\<lparr>c_conn := Some (length ks)\<rparr>]) (ks @ [s]) ts"
proof -
  let ?c = "(os ! r0)\<lparr>c_conn := Some (length ks)\<rparr>"
  note D = heap_ok_D [OF assms(1)]
  have own: "owns ?c k \<longleftrightarrow> k = length ks" for k
    using assms(3) [of k] by (auto simp: owns_def)
  have at: "owns (os[r0 := ?c] ! r) k \<longleftrightarrow> (if r = r0 then k = length ks else owns (os ! r) k)"
    if "r < length os" for r k
    using that own by (simp add: nth_list_update)
  show ?thesis
  proof (rule heap_ok_I)
    fix r r' k
    show "r < length (os[r0 := ?c]) \<Longrightarrow> owns (os[r0 := ?c] ! r) k \<Longrightarrow> k < length (ks @ [s])"
      using D(1) [of r k] by (auto simp: at split: if_splits)
    show "r < length (os[r0 := ?c]) \<Longrightarrow> owns (os[r0 := ?c] ! r) k \<Longrightarrow> c_closed (os[r0 := ?c] ! r)
        \<Longrightarrow> \<not> sk_open ((ks @ [s]) ! k)"
      using D(1,2) [of r k] assms(5) by (auto simp: at nth_append nth_list_update split: if_splits)
    show "r < length (os[r0 := ?c]) \<Longrightarrow> r' < length (os[r0 := ?c]) \<Longrightarrow> owns (os[r0 := ?c] ! r) k
        \<Longrightarrow> owns (os[r0 := ?c] ! r') k \<Longrightarrow> r = r'"
      using D(1) [of r k] D(1) [of r' k] D(3) [of r r' k] by (simp add: at split: if_splits)
    show "k < length (ks @ [s]) \<Longrightarrow> sk_open ((ks @ [s]) ! k) \<Longrightarrow>
        \<exists>r < length (os[r0 := ?c]). owns (os[r0 := ?c] ! r) k"
    proof (cases "k < length ks")
      case True
      assume "sk_open ((ks @ [s]) ! k)"
      with True obtain r where "r < length os" "owns (os ! r) k" using D(4) [of k] by (auto simp: nth_append)
      moreover from this have "r \<noteq> r0" using assms(3) by blast
      ultimately show ?thesis by (intro exI [of _ r]) (simp add: at)
    next
      case False
      assume "k < length (ks @ [s])"
      with False assms(2) show ?thesis by (intro exI [of _ r0]) (simp add: own)
    qed
    show "t \<in> set ts \<Longrightarrow> task_ref t < length (os[r0 := ?c])" for t using D(5) by simp
    show "r \<in> set (dialRefs ts) \<Longrightarrow> \<not> owns (os[r0 := ?c] ! r) k"
      using D(6) [of r k] dialRefs_bound [OF assms(1), of r] assms(4) by (auto simp: at)
    show "distinct (dialRefs ts)" by (fact D(7))
  qed
qed

text \<open>A socket that is closed at once, and a change of what was sent.\<close>

lemma heap_ok_dropped:
  assumes "heap_ok os ks ts" and "\<not> sk_open s"
  shows "heap_ok os (ks @ [s]) ts"
proof (rule heap_ok_I)
  note D = heap_ok_D [OF assms(1)]
  fix r k
  show "r < length os \<Longrightarrow> owns (os ! r) k \<Longrightarrow> k < length (ks @ [s])"
    using D(1) [of r k] by simp
  show "r < length os \<Longrightarrow> owns (os ! r) k \<Longrightarrow> c_closed (os ! r) \<Longrightarrow> \<not> sk_open ((ks @ [s]) ! k)"
    using D(1,2) [of r k] by (simp add: nth_append)
  show "k < length (ks @ [s]) \<Longrightarrow> sk_open ((ks @ [s]) ! k) \<Longrightarrow> \<exists>r < length os. owns (os ! r) k"
    using D(4) [of k] assms(2) by (auto simp: nth_append less_Suc_eq split: if_splits)
qed (fact heap_ok_D(3,5-7) [OF assms(1)])+

lemma heap_ok_sent:
  assumes "heap_ok os ks ts" and "sk_open s' = sk_open (ks ! k0)"
  shows "heap_ok os (ks[k0 := s']) ts"
proof -
  have "sk_open (ks[k0 := s'] ! k) = sk_open (ks ! k)" if "k < length ks" for k
    using that assms(2) by (cases "k = k0") (simp_all add: nth_list_update)
  with assms(1) show ?thesis unfolding heap_ok_def by simp
qed

lemma heap_ok_closed:
  assumes "heap_ok os ks ts" and "r0 < length os" and "length ks' = length ks"
    and "\<And>k. k < length ks \<Longrightarrow> sk_open (ks' ! k) \<longleftrightarrow> sk_open (ks ! k) \<and> \<not> owns (os ! r0) k"
  shows "heap_ok (os[r0 := (os ! r0)\<lparr>c_closed := True\<rparr>]) ks' ts"
proof -
  let ?os = "os[r0 := (os ! r0)\<lparr>c_closed := True\<rparr>]"
  note D = heap_ok_D [OF assms(1)]
  have own: "owns (?os ! r) k \<longleftrightarrow> owns (os ! r) k" for r k
    using assms(2) by (cases "r = r0") (simp_all add: owns_def)
  show ?thesis
  proof (rule heap_ok_I)
    fix r r' k
    show "r < length ?os \<Longrightarrow> owns (?os ! r) k \<Longrightarrow> k < length ks'"
      using D(1) [of r k] by (simp add: own assms(3))
    show "\<not> sk_open (ks' ! k)" if "r < length ?os" "owns (?os ! r) k" "c_closed (?os ! r)"
    proof (cases "r = r0")
      case True
      with that(2) have "owns (os ! r0) k" by (simp only: own)
      then show ?thesis using assms(4) [OF D(1) [OF assms(2)]] by blast
    next
      case False
      with that show ?thesis using D(1,2) [of r k] assms(4) [of k] by (simp add: own)
    qed
    show "r < length ?os \<Longrightarrow> r' < length ?os \<Longrightarrow> owns (?os ! r) k \<Longrightarrow> owns (?os ! r') k \<Longrightarrow> r = r'"
      using D(3) [of r r' k] unfolding own by simp
    show "\<exists>r < length ?os. owns (?os ! r) k" if "k < length ks'" "sk_open (ks' ! k)"
      using D(4) [of k] that assms(3) assms(4) [of k] unfolding own by simp
    show "t \<in> set ts \<Longrightarrow> task_ref t < length ?os" for t using D(5) by simp
    show "r \<in> set (dialRefs ts) \<Longrightarrow> \<not> owns (?os ! r) k" using D(6) unfolding own .
    show "distinct (dialRefs ts)" by (fact D(7))
  qed
qed

subsection \<open>Steps on a session\<close>

lemma session_simps [simp]:
  "connections (sendEvent env m i d s) = connections s" "objs (sendEvent env m i d s) = objs s"
  "socks (sendEvent env m i d s) = socks s" "tasks (sendEvent env m i d s) = tasks s"
  "nextConnID (sendEvent env m i d s) = nextConnID s" "remoteIP (sendEvent env m i d s) = remoteIP s"
  "rateLimiter (sendEvent env m i d s) = rateLimiter s"
  by (simp_all add: sendEvent_def)

lemma sess_inv_sendEvent [simp]: "sess_inv (sendEvent env m i d s) = sess_inv s"
  by (simp add: sess_inv_def)

lemma closeSock_simps [simp]:
  "connections (closeSock k s) = connections s" "objs (closeSock k s) = objs s"
  "tasks (closeSock k s) = tasks s" "length (socks (closeSock k s)) = length (socks s)"
  "events (closeSock k s) = events s" "nextConnID (closeSock k s) = nextConnID s"
  "rateLimiter (closeSock k s) = rateLimiter s" "remoteIP (closeSock k s) = remoteIP s"
  by (simp_all add: closeSock_def split: option.split)

lemma closeSock_nth:
  "k < length (socks s) \<Longrightarrow>
     socks (closeSock j s) ! k = (if j = Some k then (socks s ! k)\<lparr>sk_open := False\<rparr> else socks s ! k)"
  by (auto simp: closeSock_def nth_list_update split: option.split)

lemma Connection_Close_simps [simp]:
  "connections (Connection_Close r s) = connections s" "tasks (Connection_Close r s) = tasks s"
  "length (objs (Connection_Close r s)) = length (objs s)"
  "length (socks (Connection_Close r s)) = length (socks s)"
  "events (Connection_Close r s) = events s" "nextConnID (Connection_Close r s) = nextConnID s"
  "rateLimiter (Connection_Close r s) = rateLimiter s" "remoteIP (Connection_Close r s) = remoteIP s"
  by (simp_all add: Connection_Close_def setObj_def Let_def)

lemma closed_again [simp]: "c_closed c \<Longrightarrow> c\<lparr>c_closed := True\<rparr> = (c :: Connection)"
  by (cases c) simp

lemma Connection_Close_objs:
  "r < length (objs s) \<Longrightarrow> objs (Connection_Close r s) = (objs s)[r := (objs s ! r)\<lparr>c_closed := True\<rparr>]"
  by (simp add: Connection_Close_def setObj_def Let_def)

lemma Connection_Close_socks:
  assumes "r < length (objs s)" and "\<not> c_closed (objs s ! r)" and "k < length (socks s)"
  shows "socks (Connection_Close r s) ! k =
     (if owns (objs s ! r) k then (socks s ! k)\<lparr>sk_open := False\<rparr> else socks s ! k)"
  using assms by (auto simp: Connection_Close_def setObj_def Let_def closeSock_nth owns_def)

lemma c_id_Close: "c_id (objs (Connection_Close r s) ! r') = c_id (objs s ! r')"
  by (cases "r = r'"; cases "r < length (objs s)")
     (simp_all add: Connection_Close_def setObj_def Let_def nth_list_update list_update_beyond)

lemma sess_inv_Close:
  assumes "sess_inv s" and "r < length (objs s)"
  shows "sess_inv (Connection_Close r s)"
proof (cases "c_closed (objs s ! r)")
  case True
  with assms show ?thesis by (simp add: Connection_Close_def Let_def)
next
  case False
  have "heap_ok (objs (Connection_Close r s)) (socks (Connection_Close r s)) (tasks s)"
    unfolding Connection_Close_objs [OF assms(2)]
  proof (rule heap_ok_closed)
    show "heap_ok (objs s) (socks s) (tasks s)" using assms(1) by (simp add: sess_inv_def)
    fix k assume "k < length (socks s)"
    from Connection_Close_socks [OF assms(2) False this]
    show "sk_open (socks (Connection_Close r s) ! k) \<longleftrightarrow> sk_open (socks s ! k) \<and> \<not> owns (objs s ! r) k"
      by simp
  qed (simp_all add: assms(2))
  then show ?thesis using assms(1) by (simp add: sess_inv_def table_ok_def c_id_Close)
qed

lemma table_ok_store:
  assumes "table_ok m os" and "r < length os" and "c_id (os ! r) = i"
  shows "table_ok (sm_store i r m) os"
  using assms by (auto simp: table_ok_def sm.wf_store split: if_splits)

lemma table_ok_del: "table_ok m os \<Longrightarrow> table_ok (sm_del i m) os"
  by (auto simp: table_ok_def sm.wf_del split: if_splits)

lemma table_ok_append: "table_ok m os \<Longrightarrow> table_ok m (os @ cs)"
  by (simp add: table_ok_def nth_append trans_less_add1)

lemma table_ok_update:
  assumes "table_ok m os" and "c_id c = c_id (os ! r)"
  shows "table_ok m (os[r := c])"
proof -
  have "c_id (os[r := c] ! r1) = c_id (os ! r1)" for r1
    using assms(2) by (cases "r < length os"; cases "r1 = r") (simp_all add: list_update_beyond)
  with assms(1) show ?thesis by (simp add: table_ok_def)
qed

lemma table_ok_Load:
  assumes "table_ok m os" and "Load m i = (v, m')"
  shows "table_ok m' os" and "v = sm_abs m i" and "v = Some r \<Longrightarrow> r < length os"
  using Load_ok [of m i] assms by (auto simp: table_ok_def)

lemma table_ok_LoadAndDelete:
  assumes "table_ok m os" and "LoadAndDelete m i = (v, m')"
  shows "table_ok m' os" and "v = sm_abs m i" and "v = Some r \<Longrightarrow> r < length os"
    and "sm_abs m' = (sm_abs m)(i := None)"
  using LoadAndDelete_ok [of m i] assms by (auto simp: table_ok_def split: if_splits)

lemmas session_ops =
  alloc_def openSock_def storeConn_def deleteConn_def spawn_def setObj_def endTask_def

lemma sess_inv_startConnect:
  assumes "sess_inv s"
  shows "sess_inv (startConnect env i t host port s)"
proof -
  have tab: "table_ok (connections s) (objs s)" and heap: "heap_ok (objs s) (socks s) (tasks s)"
    using assms by (simp_all add: sess_inv_def)
  have "table_ok (sm_store i (length (objs s)) (connections s)) (objs s @ [newConn i t])"
    by (rule table_ok_store [OF table_ok_append [OF tab]]) simp_all
  moreover have "heap_ok (objs s @ [newConn i t]) (socks s)
      (tasks s @ [DialTask (length (objs s)) i t (connectAddr host port)])"
    by (rule heap_ok_dialling [OF heap]) simp_all
  ultimately show ?thesis
    using assms by (simp add: startConnect_def session_ops sess_inv_def Let_def split: prod.split)
qed

lemma sess_inv_with_sock:
  assumes "sess_inv s" and "\<And>k. owns c k \<longleftrightarrow> k = length (socks s)" and "\<not> c_closed c"
  shows "sess_inv (storeConn (c_id c) (length (objs s))
           (s\<lparr>socks := socks s @ [sk], objs := objs s @ [c]\<rparr>))"
proof -
  have tab: "table_ok (connections s) (objs s)" and heap: "heap_ok (objs s) (socks s) (tasks s)"
    using assms by (simp_all add: sess_inv_def)
  have "table_ok (sm_store (c_id c) (length (objs s)) (connections s)) (objs s @ [c])"
    by (rule table_ok_store [OF table_ok_append [OF tab]]) simp_all
  with heap_ok_with_sock [OF heap assms(2,3)] show ?thesis
    by (simp add: sess_inv_def storeConn_def)
qed

lemma sess_inv_spawn:
  "sess_inv s \<Longrightarrow> \<not> is_dial t \<Longrightarrow> task_ref t < length (objs s) \<Longrightarrow> sess_inv (spawn t s)"
  by (simp add: sess_inv_def spawn_def heap_ok_spawn)

lemma sess_inv_handleBind:
  assumes "sess_inv s" and "handleBind env r s = Some s'"
  shows "sess_inv s'"
proof -
  let ?id = "the (bigEndian_Uint32 (avail r))" and ?t = "uint (avail r ! 4)"
  let ?c = "if ?t = SOCK_STREAM then (newConn ?id ?t)\<lparr>c_listener := Some (length (socks s))\<rparr>
            else (newConn ?id ?t)\<lparr>c_udpConn := Some (length (socks s))\<rparr>"
  have c: "c_id ?c = ?id" "\<not> c_closed ?c" "owns ?c k \<longleftrightarrow> k = length (socks s)" for k
    by simp_all
  show ?thesis
    using assms sess_inv_with_sock [OF assms(1) c(3,2)]
    unfolding handleBind_bytes c(1)
    by (auto simp: Let_def session_ops split: if_splits option.splits)
qed

lemma sess_inv_connections:
  "sess_inv s \<Longrightarrow> table_ok m (objs s) \<Longrightarrow> sess_inv (s\<lparr>connections := m\<rparr>)"
  by (simp add: sess_inv_def)

lemma sess_inv_handleListen:
  assumes "sess_inv s" and "handleListen env r s = Some s'"
  shows "sess_inv s'"
proof -
  let ?id = "the (bigEndian_Uint32 (avail r))"
  obtain v m where ld: "Load (connections s) ?id = (v, m)" by (cases "Load (connections s) ?id")
  note T = table_ok_Load [OF _ ld, of "objs s"]
  have tab: "table_ok (connections s) (objs s)" using assms(1) by (simp add: sess_inv_def)
  have "sess_inv (s\<lparr>connections := m\<rparr>)" using sess_inv_connections [OF assms(1) T(1) [OF tab]] .
  moreover from this have "v = Some r1 \<Longrightarrow> sess_inv (spawn (AcceptTask r1 ?id) (s\<lparr>connections := m\<rparr>))" for r1
    using T(3) [OF tab] by (intro sess_inv_spawn) simp_all
  ultimately show ?thesis
    using assms unfolding handleListen_bytes
    by (auto simp: Let_def ld split: if_splits option.splits)
qed

lemma sess_inv_sent:
  assumes "sess_inv s" and "sk_open k' = sk_open (socks s ! k)"
  shows "sess_inv (s\<lparr>socks := (socks s)[k := k']\<rparr>)"
  using assms heap_ok_sent [of "objs s" "socks s" "tasks s" k' k] by (simp add: sess_inv_def)

lemma sess_inv_handleSend:
  assumes "sess_inv s" and "handleSend env r s = Some s'"
  shows "sess_inv s'"
proof -
  let ?id = "the (bigEndian_Uint32 (avail r))"
  obtain v m where ld: "Load (connections s) ?id = (v, m)" by (cases "Load (connections s) ?id")
  have tab: "table_ok (connections s) (objs s)" using assms(1) by (simp add: sess_inv_def)
  have inv: "sess_inv (s\<lparr>connections := m\<rparr>)"
    using sess_inv_connections [OF assms(1) table_ok_Load(1) [OF tab ld]] .
  have "sess_inv (s\<lparr>connections := m, socks := (socks s)[k := (socks s ! k)\<lparr>sk_sent := d\<rparr>]\<rparr>)" for k d
    using sess_inv_sent [OF inv, of "(socks s ! k)\<lparr>sk_sent := d\<rparr>" k] by simp
  with inv show ?thesis
    using assms unfolding handleSend_bytes
    by (auto simp: Let_def ld split: if_splits option.splits)
qed

lemma sess_inv_handleClose:
  assumes "sess_inv s" and "handleClose env r s = Some s'"
  shows "sess_inv s'"
proof -
  let ?id = "the (bigEndian_Uint32 (avail r))"
  obtain v m where ld: "LoadAndDelete (connections s) ?id = (v, m)"
    by (cases "LoadAndDelete (connections s) ?id")
  have tab: "table_ok (connections s) (objs s)" using assms(1) by (simp add: sess_inv_def)
  note T = table_ok_LoadAndDelete [OF tab ld]
  have inv: "sess_inv (s\<lparr>connections := m\<rparr>)"
    using sess_inv_connections [OF assms(1) T(1)] .
  have "v = Some r1 \<Longrightarrow> sess_inv (Connection_Close r1 (s\<lparr>connections := m\<rparr>))" for r1
    using T(3) by (intro sess_inv_Close [OF inv]) simp
  with inv show ?thesis
    using assms unfolding handleClose_bytes
    by (auto simp: Let_def ld split: if_splits option.splits)
qed

lemma handleStream_split:
  assumes "handleStream env r s = Some s'"
  shows "s' = s \<or> (\<exists>r'. handleConnect env r' s = Some s' \<or> handleBind env r' s = Some s'
           \<or> handleListen env r' s = Some s' \<or> handleSend env r' s = Some s' \<or> handleClose env r' s = Some s')"
proof (cases "ReadUvarint byteReader_ReadByte r")
  case (fields msgType err r')
  with assms show ?thesis
    by (cases err) (auto simp: handleStream_def split: if_splits)
qed

lemma sess_inv_handleConnect:
  assumes "sess_inv s" and "handleConnect env r s = Some s'"
  shows "sess_inv s'"
  using assms sess_inv_startConnect [OF assms(1)]
  by (auto simp: handleConnect_bytes Let_def split: if_splits)

lemma sess_inv_handleStream:
  assumes "sess_inv s" and "handleStream env r s = Some s'"
  shows "sess_inv s'"
  using handleStream_split [OF assms(2)] sess_inv_handleConnect [OF assms(1)] sess_inv_handleBind [OF assms(1)]
    sess_inv_handleListen [OF assms(1)] sess_inv_handleSend [OF assms(1)] sess_inv_handleClose [OF assms(1)] assms(1)
  by blast

lemma sess_inv_endTask: "sess_inv s \<Longrightarrow> sess_inv (endTask i s)"
  by (simp add: sess_inv_def endTask_def heap_ok_endTask del: dialRefs_simps)

lemma sess_inv_dialDone:
  assumes "sess_inv s" and "i < length (tasks s)" and "tasks s ! i = DialTask r connID t a"
  shows "sess_inv (dialDone env err r connID t a (endTask i s))"
proof -
  let ?s = "endTask i s"
  have inv: "sess_inv ?s" using sess_inv_endTask [OF assms(1)] .
  have heap: "heap_ok (objs s) (socks s) (tasks s)" using assms(1) by (simp add: sess_inv_def)
  have dial: "r \<in> set (dialRefs (tasks s))"
    using nth_mem [OF assms(2)] assms(3) by (force simp: dialRefs_def)
  have r: "r < length (objs s)" using dialRefs_bound [OF heap dial] .
  have gone: "r \<notin> set (dialRefs (tasks ?s))"
    using dialRefs_remove(3) [OF heap_ok_D(7) [OF heap] assms(2)] assms(3)
    by (simp add: endTask_def del: dialRefs_simps)
  have heap': "heap_ok (objs s) (socks s) (tasks ?s)" and tab: "table_ok (connections s) (objs s)"
    using inv by (simp_all add: sess_inv_def endTask_def del: dialRefs_simps)
  show ?thesis
  proof (cases err)
    case (Some e)
    with inv show ?thesis
      by (simp add: dialDone_def deleteConn_def sess_inv_def table_ok_del)
  next
    case None
    let ?k = "\<lparr>sk_net = if t = SOCK_STREAM then ''tcp'' else ''udp'', sk_addr = a, sk_open = True, sk_sent = []\<rparr>"
    show ?thesis
    proof (cases "c_closed (objs s ! r)")
      case True
      with heap_ok_dropped [OF heap', of "?k\<lparr>sk_open := False\<rparr>"] tab None show ?thesis
        by (simp add: dialDone_def session_ops sess_inv_def closeSock_def list_update_append del: dialRefs_simps)
    next
      case False
      let ?s1 = "?s\<lparr>socks := socks s @ [?k], objs := (objs s)[r := (objs s ! r)\<lparr>c_conn := Some (length (socks s))\<rparr>]\<rparr>"
      have "sess_inv ?s1"
        using heap_ok_connected [OF heap' r heap_ok_D(6) [OF heap dial] gone False] table_ok_update [OF tab]
        by (simp add: sess_inv_def endTask_def del: dialRefs_simps)
      then have "sess_inv (spawn (ReadTask r) (sendEvent env MsgConnected connID [] ?s1))"
        using r by (intro sess_inv_spawn) simp_all
      with None False show ?thesis
        by (simp add: dialDone_def openSock_def setObj_def endTask_def)
    qed
  qed
qed

lemma sess_inv_acceptTurn:
  assumes "sess_inv s" and "acceptTurn env accepted r connID s = (goes, s')"
  shows "sess_inv s'" and "length (objs s) \<le> length (objs s')"
proof -
  have "sess_inv s' \<and> length (objs s) \<le> length (objs s')"
  proof (cases accepted)
    case None
    with assms show ?thesis by (auto simp: acceptTurn_def)
  next
    case (Some addr)
    let ?id = "nextConnID s + 1"
    let ?c = "(newConn ?id SOCK_STREAM)\<lparr>c_conn := Some (length (socks s))\<rparr>"
    let ?k = "\<lparr>sk_net = ''tcp'', sk_addr = addr, sk_open = True, sk_sent = []\<rparr>"
    let ?s1 = "storeConn ?id (length (objs s)) (s\<lparr>nextConnID := ?id, socks := socks s @ [?k], objs := objs s @ [?c]\<rparr>)"
    have "sess_inv (s\<lparr>nextConnID := ?id\<rparr>)" using assms(1) by (simp add: sess_inv_def)
    from sess_inv_with_sock [OF this, of ?c ?k] have "sess_inv ?s1" by simp
    then have "sess_inv (spawn (ReadTask (length (objs s)))
        (sendEvent env MsgAccept ?id (acceptPayload connID ?id addr) ?s1))"
      by (intro sess_inv_spawn) (simp_all add: storeConn_def)
    with Some assms(2) show ?thesis
      by (auto simp: acceptTurn_def alloc_def openSock_def Let_def spawn_def storeConn_def)
  qed
  then show "sess_inv s'" and "length (objs s) \<le> length (objs s')" by auto
qed

lemma readTurn_state:
  "readTurn env got err r s = (goes, s') \<Longrightarrow> s' = s \<or> (\<exists>m d. s' = sendEvent env m (c_id (objs s ! r)) d s)"
  by (auto simp: readTurn_def Let_def split: if_splits option.splits read_error.splits)

lemma sess_inv_readTurn: "sess_inv s \<Longrightarrow> readTurn env got err r s = (goes, s') \<Longrightarrow> sess_inv s'"
  by (auto dest!: readTurn_state)

lemma sess_inv_step:
  assumes "sess_inv s" and "session_step env l s = Some s'"
  shows "sess_inv s'"
proof (cases l)
  case (StreamComes r)
  with assms show ?thesis
    by (auto simp: session_step_def acceptStreams_def sess_inv_def split: if_splits option.splits)
next
  case (StreamRuns i)
  have "sess_inv (endStream i s)" using assms(1) by (simp add: sess_inv_def endStream_def)
  with StreamRuns assms sess_inv_handleStream show ?thesis
    by (auto simp: session_step_def split: if_splits)
next
  case (DialEnds i err)
  with assms sess_inv_dialDone [OF assms(1), of i _ _ _ _ env err] show ?thesis
    by (auto simp: session_step_def split: if_splits task.splits)
next
  case (Accepts i acc)
  with assms sess_inv_acceptTurn(1) [OF assms(1)] sess_inv_endTask show ?thesis
    by (fastforce simp: session_step_def split: if_splits task.splits prod.splits bool.splits)
next
  case (Reads i got err)
  with assms sess_inv_readTurn [OF assms(1)] sess_inv_endTask show ?thesis
    by (fastforce simp: session_step_def split: if_splits task.splits prod.splits bool.splits)
qed

subsection \<open>The teardown\<close>

lemma Close_sk_open:
  assumes "sess_inv s" and "r < length (objs s)" and "k < length (socks s)"
  shows "sk_open (socks (Connection_Close r s) ! k) \<longleftrightarrow> sk_open (socks s ! k) \<and> \<not> owns (objs s ! r) k"
proof (cases "c_closed (objs s ! r)")
  case True
  have "heap_ok (objs s) (socks s) (tasks s)" using assms(1) by (simp add: sess_inv_def)
  from heap_ok_D(2) [OF this assms(2) _ True] True show ?thesis
    by (auto simp: Connection_Close_def)
next
  case False
  then show ?thesis using Connection_Close_socks [OF assms(2) False assms(3)] by simp
qed

lemma visit_Close:
  assumes "sess_inv s" and "\<forall>(i, r) \<in> set es. r < length (objs s)"
  defines "s' \<equiv> visit (\<lambda>i r s. (True, Connection_Close r s)) es s"
  shows "sess_inv s' \<and> length (objs s') = length (objs s) \<and> tasks s' = tasks s
       \<and> connections s' = connections s \<and> events s' = events s
       \<and> (\<forall>r < length (objs s). c_closed (objs s' ! r) \<longleftrightarrow> c_closed (objs s ! r) \<or> r \<in> snd ` set es)
       \<and> (\<forall>r k. owns (objs s' ! r) k \<longleftrightarrow> owns (objs s ! r) k)
       \<and> length (socks s') = length (socks s)
       \<and> (\<forall>k < length (socks s). sk_open (socks s' ! k) \<longleftrightarrow>
            sk_open (socks s ! k) \<and> (\<forall>r \<in> snd ` set es. \<not> owns (objs s ! r) k))"
  using assms(1,2) unfolding s'_def
proof (induction es arbitrary: s)
  case (Cons x es)
  obtain i r where x: "x = (i, r)" by (cases x)
  have r: "r < length (objs s)" using Cons.prems x by simp
  let ?s = "Connection_Close r s"
  have inv: "sess_inv ?s" using sess_inv_Close [OF Cons.prems(1) r] .
  have own: "owns (objs ?s ! r1) k \<longleftrightarrow> owns (objs s ! r1) k" for r1 k
    using r by (cases "r1 = r") (simp_all add: Connection_Close_objs owns_def)
  have closed: "c_closed (objs ?s ! r1) \<longleftrightarrow> c_closed (objs s ! r1) \<or> r1 = r" if "r1 < length (objs s)" for r1
    using that r by (auto simp: Connection_Close_objs nth_list_update)
  have "\<forall>(i, r) \<in> set es. r < length (objs ?s)" using Cons.prems(2) x by simp
  from Cons.IH [OF inv this] show ?case
    using own closed Close_sk_open [OF Cons.prems(1) r] by (auto simp: x)
qed simp

lemma closeConns_result:
  assumes "sess_inv s"
  shows "sess_inv (closeConns s)" and "sm_abs (connections (closeConns s)) = sm_abs (connections s)"
    and "tasks (closeConns s) = tasks s" and "length (objs (closeConns s)) = length (objs s)"
    and "r < length (objs s) \<Longrightarrow> c_closed (objs (closeConns s) ! r) \<longleftrightarrow>
           c_closed (objs s ! r) \<or> r \<in> ran (sm_abs (connections s))"
    and "owns (objs (closeConns s) ! r) k \<longleftrightarrow> owns (objs s ! r) k"
    and "length (socks (closeConns s)) = length (socks s)"
    and "k < length (socks s) \<Longrightarrow> sk_open (socks (closeConns s) ! k) \<longleftrightarrow>
           sk_open (socks s ! k) \<and> (\<forall>r \<in> ran (sm_abs (connections s)). \<not> owns (objs s ! r) k)"
proof -
  let ?m = "connections s" and ?f = "\<lambda>i r s. (True, Connection_Close r s)"
  have tab: "table_ok ?m (objs s)" and sm: "sm_inv ?m" using assms by (simp_all add: sess_inv_def table_ok_def)
  obtain m' where m': "Range ?m ?f s = (visit ?f (sm_entries ?m) s, m')" "sm_inv m'" "sm_abs m' = sm_abs ?m"
    using Range_ok [OF sm, of ?f s] by blast
  have ents: "map_of (sm_entries ?m) = sm_abs ?m" "distinct (map fst (sm_entries ?m))"
    using sm_entries_ok [OF sm] by simp_all
  have snd: "snd ` set (sm_entries ?m) = ran (sm_abs ?m)"
    using ran_distinct [OF ents(2)] by (simp add: ents(1))
  have "r < length (objs s)" if "(i, r) \<in> set (sm_entries ?m)" for i r
    using map_of_is_SomeI [OF ents(2) that] tab unfolding ents(1) by (simp add: table_ok_def)
  then have "\<forall>(i, r) \<in> set (sm_entries ?m). r < length (objs s)" by blast
  define s1 where "s1 = visit ?f (sm_entries ?m) s"
  from visit_Close [OF assms \<open>\<forall>(i, r) \<in> set (sm_entries ?m). r < length (objs s)\<close>]
  have V: "sess_inv s1" "length (objs s1) = length (objs s)" "tasks s1 = tasks s" "connections s1 = ?m"
    and cl: "\<forall>r < length (objs s). c_closed (objs s1 ! r) \<longleftrightarrow> c_closed (objs s ! r) \<or> r \<in> snd ` set (sm_entries ?m)"
    and ow: "\<forall>r k. owns (objs s1 ! r) k \<longleftrightarrow> owns (objs s ! r) k"
    and so: "length (socks s1) = length (socks s)" "\<forall>k < length (socks s). sk_open (socks s1 ! k) \<longleftrightarrow>
            sk_open (socks s ! k) \<and> (\<forall>r \<in> snd ` set (sm_entries ?m). \<not> owns (objs s ! r) k)"
    unfolding s1_def by blast+
  have eq: "closeConns s = s1\<lparr>connections := m'\<rparr>"
    by (simp add: closeConns_def m'(1) s1_def)
  have "table_ok ?m (objs s1)" using V(1,4) by (simp add: sess_inv_def)
  then have "table_ok m' (objs s1)" using m'(2,3) by (simp add: table_ok_def)
  with V(1) show "sess_inv (closeConns s)" unfolding eq by (rule sess_inv_connections)
  show "sm_abs (connections (closeConns s)) = sm_abs ?m" "tasks (closeConns s) = tasks s"
    "length (objs (closeConns s)) = length (objs s)"
    using V m'(3) by (simp_all add: eq)
  show "r < length (objs s) \<Longrightarrow> c_closed (objs (closeConns s) ! r) \<longleftrightarrow>
           c_closed (objs s ! r) \<or> r \<in> ran (sm_abs ?m)"
    and "owns (objs (closeConns s) ! r) k \<longleftrightarrow> owns (objs s ! r) k"
    and "length (socks (closeConns s)) = length (socks s)"
    and "k < length (socks s) \<Longrightarrow> sk_open (socks (closeConns s) ! k) \<longleftrightarrow>
           sk_open (socks s ! k) \<and> (\<forall>r \<in> ran (sm_abs ?m). \<not> owns (objs s ! r) k)"
    using cl ow so unfolding snd by (simp_all add: eq)
qed

lemma closeAll_result:
  assumes "sess_inv s"
  shows "sess_inv (closeAll s)" and "sm_abs (connections (closeAll s)) = sm_abs (connections s)"
    and "tasks (closeAll s) = tasks s" and "length (objs (closeAll s)) = length (objs s)"
    and "r < length (objs s) \<Longrightarrow> c_closed (objs (closeAll s) ! r) \<longleftrightarrow>
           c_closed (objs s ! r) \<or> r \<in> ran (sm_abs (connections s))"
    and "owns (objs (closeAll s) ! r) k \<longleftrightarrow> owns (objs s ! r) k"
    and "length (socks (closeAll s)) = length (socks s)"
    and "k < length (socks s) \<Longrightarrow> sk_open (socks (closeAll s) ! k) \<longleftrightarrow>
           sk_open (socks s ! k) \<and> (\<forall>r \<in> ran (sm_abs (connections s)). \<not> owns (objs s ! r) k)"
  using closeConns_result [of "cancel s"] assms by (simp_all add: closeAll_def cancel_def sess_inv_def)

lemma sess_inv_newSession: "sess_inv (newSession rl ip)"
  by (simp add: sess_inv_def newSession_def table_ok_def heap_ok_def sm_inv_zero sm_abs_zero)

lemma reachable_inv: "reachable s \<Longrightarrow> sess_inv s"
proof (induction rule: reachable.induct)
  case (reachable_new rl ip)
  then show ?case by (rule sess_inv_newSession)
next
  case (reachable_step s env l s')
  then show ?case using sess_inv_step by blast
next
  case (reachable_limiter s rl)
  then show ?case by (simp add: sess_inv_def)
next
  case (reachable_closeAll s)
  then show ?case using closeAll_result(1) by blast
qed

end
