(* ===== verification/Proxy_Lifecycle.thy ===== *)
theory Proxy_Lifecycle
  imports Proxy_Invariant
begin

text \<open>
  The life of the sockets and goroutines of a session: who owns an open socket, what the
  teardown closes and what it can leave open, and that the goroutines of closed
  connections end.
\<close>

definition listens :: "u32 \<Rightarrow> reader \<Rightarrow> bool" where
  \<comment> \<open>the stream holds the body of a bind request for \<open>connID\<close>\<close>
  "listens connID r \<longleftrightarrow> 7 \<le> length (avail r) \<and> bigEndian_Uint32 (avail r) = Some connID"

definition names_task :: "Session \<Rightarrow> label \<Rightarrow> bool" where
  \<comment> \<open>the label runs an existing goroutine; \<^verbatim>\<open>AcceptStream\<close> fails once the context is done,
    \<^verbatim>\<open>Accept\<close> fails on a closed listener\<close>
  "names_task s l =
     (case l of
        StreamComes r \<Rightarrow> accepting s \<and> (ctxDone s \<longrightarrow> r = None)
      | StreamRuns i \<Rightarrow> i < length (streams s)
      | DialEnds i err \<Rightarrow> i < length (tasks s) \<and> is_dial (tasks s ! i)
      | Accepts i acc \<Rightarrow>
          i < length (tasks s) \<and> (\<exists>r c. tasks s ! i = AcceptTask r c)
          \<and> (c_closed (objs s ! task_ref (tasks s ! i)) \<longrightarrow> acc = None)
      | Reads i got err \<Rightarrow> i < length (tasks s) \<and> (\<exists>r. tasks s ! i = ReadTask r))"

fun schedules :: "(session_env \<times> label) list \<Rightarrow> Session \<Rightarrow> bool" where
  \<comment> \<open>each label names a goroutine of the state in which it is taken\<close>
  "schedules [] s = True"
| "schedules ((env, l) # ls) s =
     (names_task s l \<and> (case session_step env l s of None \<Rightarrow> True | Some s' \<Rightarrow> schedules ls s'))"

definition torn_down :: "Session \<Rightarrow> bool" where
  \<comment> \<open>the context is done, no request is being handled, and every connection that still has a
    goroutine is closed\<close>
  "torn_down s \<longleftrightarrow> ctxDone s \<and> streams s = [] \<and> (\<forall>t \<in> set (tasks s). c_closed (objs s ! task_ref t))"

definition goroutines :: "Session \<Rightarrow> nat" where
  "goroutines s = length (tasks s) + length (streams s) + (if accepting s then 1 else 0)"

text \<open>A session that has bound a listener with id 1, and the streams of its requests.\<close>

definition ex_env :: session_env where
  "ex_env = \<lparr>env_resolve = (\<lambda>n h. Inl errMissingAddress), env_now = 0, env_open = True,
             env_listen = None, env_written = 9\<rparr>"

definition ex_stream :: "byte list \<Rightarrow> reader" where
  "ex_stream bs = \<lparr>chunks = [bs], finErr = EOF, eager = False\<rparr>"

definition ex_new :: Session where
  "ex_new = newSession (NewRateLimiter 3 100) ''10.0.0.1:5000''"

definition ex_request :: "byte list \<Rightarrow> (session_env \<times> label) list" where
  "ex_request bs = [(ex_env, StreamComes (Some (ex_stream bs))), (ex_env, StreamRuns 0)]"

definition ex_bound :: Session where
  "ex_bound = the (session_run (ex_request [2, 0, 0, 0, 1, 1, 0, 7]) ex_new)"

definition ex_rebound :: Session where
  "ex_rebound = the (handleBind ex_env (ex_stream [0, 0, 0, 1, 1, 0, 8]) ex_bound)"

definition ex_listening :: Session where
  "ex_listening = the (session_run (ex_request [3, 0, 0, 0, 1, 0, 0, 0, 9]) ex_bound)"

definition ex_over :: Session where
  "ex_over = closeAll ex_listening"

subsection \<open>Open sockets\<close>

lemma open_owner:
  assumes "sess_inv s" and "k < length (socks s)" and "sk_open (socks s ! k)"
  shows "\<exists>!r. r < length (objs s) \<and> owns (objs s ! r) k \<and> \<not> c_closed (objs s ! r)"
proof -
  have heap: "heap_ok (objs s) (socks s) (tasks s)" using assms(1) by (simp add: sess_inv_def)
  obtain r where r: "r < length (objs s)" "owns (objs s ! r) k"
    using heap_ok_D(4) [OF heap assms(2,3)] by blast
  with heap_ok_D(2) [OF heap r] assms(3) have "\<not> c_closed (objs s ! r)" by blast
  with r show ?thesis using heap_ok_D(3) [OF heap] by blast
qed

text \<open>C1: In every reachable state of a session an open socket belongs to exactly one
  connection, and that connection is not closed. In particular a socket whose dial ends
  after the connection was closed is closed at once, and closing a connection closes its
  socket.\<close>

theorem open_socket_has_owner:
  assumes "reachable s" and "k < length (socks s)" and "sk_open (socks s ! k)"
  shows "\<exists>!r. r < length (objs s) \<and> owns (objs s ! r) k \<and> \<not> c_closed (objs s ! r)"
  by (rule open_owner [OF reachable_inv [OF assms(1)] assms(2,3)])

lemma reachable_run: "session_run ls s = Some s' \<Longrightarrow> reachable s \<Longrightarrow> reachable s'"
  by (induction ls s rule: session_run.induct) (auto split: option.splits intro: reachable_step)

lemma ex_steps:
  "session_run (ex_request [2, 0, 0, 0, 1, 1, 0, 7]) ex_new = Some ex_bound"
  "handleBind ex_env (ex_stream [0, 0, 0, 1, 1, 0, 8]) ex_bound = Some ex_rebound"
  "session_run (ex_request [3, 0, 0, 0, 1, 0, 0, 0, 9]) ex_bound = Some ex_listening"
  by code_simp+

lemma ex_reachable: "reachable ex_new" "reachable ex_bound" "reachable ex_listening" "reachable ex_over"
proof -
  show "reachable ex_new" unfolding ex_new_def by (rule reachable_new)
  then show "reachable ex_bound" by (rule reachable_run [OF ex_steps(1)])
  then show "reachable ex_listening" by (rule reachable_run [OF ex_steps(3)])
  then show "reachable ex_over" unfolding ex_over_def by (rule reachable_closeAll)
qed

theorem open_socket_has_owner_witness:
  "reachable ex_bound \<and> 0 < length (socks ex_bound) \<and> sk_open (socks ex_bound ! 0)
   \<and> (\<exists>!r. r < length (objs ex_bound) \<and> owns (objs ex_bound ! r) 0 \<and> \<not> c_closed (objs ex_bound ! r))"
proof -
  have *: "0 < length (socks ex_bound)" "sk_open (socks ex_bound ! 0)" by code_simp+
  from ex_reachable(2) * open_socket_has_owner [OF ex_reachable(2) *] show ?thesis by blast
qed

subsection \<open>The teardown\<close>

text \<open>C3: After the teardown of a session every connection in its table is closed, and a socket
  is still open only if its connection was lost from the table before (its id was reused).\<close>

theorem closeAll_leaves_only_lost:
  assumes "reachable s"
  shows "(\<forall>i r. sm_abs (connections (closeAll s)) i = Some r \<longrightarrow> c_closed (objs (closeAll s) ! r))
     \<and> (\<forall>k < length (socks (closeAll s)). sk_open (socks (closeAll s) ! k) \<longrightarrow>
          (\<exists>r < length (objs s). owns (objs s ! r) k \<and> r \<notin> ran (sm_abs (connections s))))"
proof (intro conjI allI impI)
  note inv = reachable_inv [OF assms] and res = closeAll_result [OF reachable_inv [OF assms]]
  have tab: "table_ok (connections s) (objs s)" using inv by (simp add: sess_inv_def)
  fix i r assume "sm_abs (connections (closeAll s)) i = Some r"
  then have "sm_abs (connections s) i = Some r" by (simp add: res(2))
  moreover from this tab have "r < length (objs s)" by (simp add: table_ok_def)
  ultimately show "c_closed (objs (closeAll s) ! r)" using res(5) by (auto intro: ranI)
next
  note res = closeAll_result [OF reachable_inv [OF assms]]
  fix k assume "k < length (socks (closeAll s))" "sk_open (socks (closeAll s) ! k)"
  from open_owner [OF res(1) this] obtain r where
    r: "r < length (objs (closeAll s))" "owns (objs (closeAll s) ! r) k" "\<not> c_closed (objs (closeAll s) ! r)"
    by blast
  with res(4) have lt: "r < length (objs s)" by simp
  with r res(5) [OF lt] res(6) [of r k] show "\<exists>r < length (objs s). owns (objs s ! r) k \<and> r \<notin> ran (sm_abs (connections s))"
    by blast
qed

theorem closeAll_leaves_only_lost_witness:
  "reachable ex_bound \<and> sm_abs (connections (closeAll ex_bound)) 1 = Some 0
   \<and> c_closed (objs (closeAll ex_bound) ! 0)"
proof -
  have *: "sm_abs (connections (closeAll ex_bound)) 1 = Some 0" by code_simp
  with closeAll_leaves_only_lost [OF ex_reachable(2)] ex_reachable(2) show ?thesis by blast
qed

text \<open>How a connection is lost: a second bind request with the id of a listening connection
  replaces it in the table without closing it.\<close>

lemma bind_result:
  assumes "listens connID r" and "env_listen env = None" and "handleBind env r s = Some s'"
  shows "sm_inv (connections s) \<Longrightarrow> sm_abs (connections s') = (sm_abs (connections s))(connID \<mapsto> length (objs s))"
    and "objs s' = objs s @ [objs s' ! length (objs s)]" and "k < length (socks s) \<Longrightarrow> socks s' ! k = socks s ! k"
    and "length (socks s') = Suc (length (socks s))"
  using assms unfolding handleBind_bytes listens_def
  by (auto simp: Let_def session_ops nth_append sm.lookup_store split: if_splits)

text \<open>C11: The teardown does not reach a connection whose id the client has reused: when a bind
  request arrives for an id whose connection has an open socket, that socket is still open
  after the teardown that follows.\<close>

theorem rebound_listener_leaks:
  assumes "reachable s" and "sm_abs (connections s) connID = Some r0"
    and "owns (objs s ! r0) k" and "sk_open (socks s ! k)"
    and "listens connID r" and "env_listen env = None" and "handleBind env r s = Some s'"
  shows "sk_open (socks (closeAll s') ! k)"
proof -
  note inv = reachable_inv [OF assms(1)]
  have tab: "table_ok (connections s) (objs s)" and heap: "heap_ok (objs s) (socks s) (tasks s)"
    using inv by (simp_all add: sess_inv_def)
  have sm: "sm_inv (connections s)" and r0: "r0 < length (objs s)" "c_id (objs s ! r0) = connID"
    using tab assms(2) by (simp_all add: table_ok_def)
  have k: "k < length (socks s)" using heap_ok_D(1) [OF heap r0(1) assms(3)] .
  note bind = bind_result [OF assms(5-7)]
  have inv': "sess_inv s'" using sess_inv_handleBind [OF inv assms(7)] .
  then have tab': "table_ok (connections s') (objs s')" and heap': "heap_ok (objs s') (socks s') (tasks s')"
    by (simp_all add: sess_inv_def)
  have old: "r1 < length (objs s) \<Longrightarrow> objs s' ! r1 = objs s ! r1" for r1
    using bind(2) by (metis nth_append)
  have len: "length (objs s') = Suc (length (objs s))" using arg_cong [OF bind(2), of length] by simp
  have "\<not> owns (objs s' ! r1) k" if r1: "r1 \<in> ran (sm_abs (connections s'))" for r1
  proof
    assume own: "owns (objs s' ! r1) k"
    from r1 obtain i where i: "sm_abs (connections s') i = Some r1" by (auto simp: ran_def)
    then have "r1 < length (objs s')" "c_id (objs s' ! r1) = i" using tab' by (simp_all add: table_ok_def)
    moreover from this own have "r1 = r0"
      using heap_ok_D(3) [OF heap', of r1 r0 k] r0(1) old [OF r0(1)] assms(3) len by simp
    ultimately have "i = connID" using r0 old [OF r0(1)] by simp
    with i bind(1) [OF sm] \<open>r1 = r0\<close> r0(1) show False by simp
  qed
  then show ?thesis
    using closeAll_result(8) [OF inv', of k] k bind(3) [OF k] bind(4) assms(4) by simp
qed

theorem rebound_listener_leaks_witness:
  "reachable ex_bound \<and> sm_abs (connections ex_bound) 1 = Some 0 \<and> owns (objs ex_bound ! 0) 0
   \<and> sk_open (socks ex_bound ! 0) \<and> listens 1 (ex_stream [0, 0, 0, 1, 1, 0, 8]) \<and> env_listen ex_env = None
   \<and> handleBind ex_env (ex_stream [0, 0, 0, 1, 1, 0, 8]) ex_bound = Some ex_rebound
   \<and> sk_open (socks (closeAll ex_rebound) ! 0)"
proof -
  have *: "sm_abs (connections ex_bound) 1 = Some 0" "owns (objs ex_bound ! 0) 0" "sk_open (socks ex_bound ! 0)"
    "listens 1 (ex_stream [0, 0, 0, 1, 1, 0, 8])" "env_listen ex_env = None"
    by code_simp+
  from ex_reachable(2) * ex_steps(2) rebound_listener_leaks [OF ex_reachable(2) * ex_steps(2)]
  show ?thesis by blast
qed

subsection \<open>Goroutines end\<close>

lemma length_endTask: "i < length (tasks s) \<Longrightarrow> length (tasks (endTask i s)) = length (tasks s) - 1"
  by (simp add: endTask_def)

lemma torn_down_endTask:
  assumes "torn_down s" and "i < length (tasks s)"
  shows "torn_down (endTask i s)" and "Suc (goroutines (endTask i s)) = goroutines s"
  using assms set_remove_nth [of i "tasks s"] length_endTask [OF assms(2)]
  by (auto simp: torn_down_def goroutines_def endTask_def)

lemma torn_down_step:
  assumes "torn_down s" and "names_task s l"
  shows "\<exists>s'. session_step env l s = Some s' \<and> Suc (goroutines s') = goroutines s \<and> torn_down s'"
proof -
  have closed: "c_closed (objs s ! task_ref (tasks s ! i))" if "i < length (tasks s)" for i
    using assms(1) that by (simp add: torn_down_def)
  show ?thesis
  proof (cases l)
    case (StreamComes r)
    with assms show ?thesis
      by (simp add: names_task_def torn_down_def session_step_def acceptStreams_def goroutines_def)
  next
    case (StreamRuns i)
    with assms show ?thesis by (simp add: names_task_def torn_down_def)
  next
    case (DialEnds i err)
    with assms(2) obtain r c t a where i: "i < length (tasks s)" "tasks s ! i = DialTask r c t a"
      by (cases "tasks s ! i") (auto simp: names_task_def)
    let ?s' = "dialDone env err r c t a (endTask i s)"
    have "c_closed (objs s ! r)" using i closed [OF i(1)] by simp
    then have "tasks ?s' = tasks (endTask i s) \<and> objs ?s' = objs (endTask i s) \<and> ctxDone ?s' = ctxDone s
        \<and> streams ?s' = streams s \<and> accepting ?s' = accepting s"
      by (simp add: dialDone_def openSock_def deleteConn_def endTask_def closeSock_def sendEvent_def split: option.split)
    with i DialEnds torn_down_endTask [OF assms(1) i(1)] show ?thesis
      by (simp add: session_step_def torn_down_def goroutines_def endTask_def)
  next
    case (Accepts i acc)
    with assms(2) have "i < length (tasks s)" by (simp add: names_task_def)
    with Accepts assms(2) closed [of i] obtain r c
      where i: "i < length (tasks s)" "tasks s ! i = AcceptTask r c" "acc = None"
      by (auto simp: names_task_def)
    with Accepts torn_down_endTask [OF assms(1) i(1)] closed [OF i(1)] show ?thesis
      by (simp add: session_step_def acceptTurn_def)
  next
    case (Reads i got err)
    with assms(2) obtain r where i: "i < length (tasks s)" "tasks s ! i = ReadTask r"
      by (auto simp: names_task_def)
    with Reads torn_down_endTask [OF assms(1) i(1)] closed [OF i(1)] show ?thesis
      by (simp add: session_step_def readTurn_def)
  qed
qed

lemma torn_down_run:
  assumes "torn_down s" and "schedules ls s"
  shows "\<exists>s'. session_run ls s = Some s' \<and> goroutines s' + length ls = goroutines s"
  using assms
proof (induction ls arbitrary: s)
  case (Cons x ls)
  obtain env l where x: "x = (env, l)" by (cases x)
  obtain s1 where s1: "session_step env l s = Some s1" "Suc (goroutines s1) = goroutines s" "torn_down s1"
    using torn_down_step [of s l env] Cons.prems x by auto
  with Cons.IH [OF s1(3)] Cons.prems x show ?case by auto
qed simp

text \<open>As long as a goroutine is left, one can take a turn.\<close>

lemma torn_down_turn:
  assumes "torn_down s" and "0 < goroutines s"
  shows "\<exists>l. names_task s l"
proof (cases "tasks s")
  case Nil
  with assms have "names_task s (StreamComes None)" by (simp add: names_task_def torn_down_def goroutines_def split: if_splits)
  then show ?thesis ..
next
  case (Cons t ts)
  then have "names_task s (case t of DialTask _ _ _ _ \<Rightarrow> DialEnds 0 None | AcceptTask _ _ \<Rightarrow> Accepts 0 None
      | ReadTask _ \<Rightarrow> Reads 0 [] None)"
    by (cases t) (simp_all add: names_task_def)
  then show ?thesis ..
qed

lemma torn_down_complete:
  "torn_down s \<Longrightarrow> \<exists>ls. schedules ls s \<and> length ls = goroutines s"
proof (induction "goroutines s" arbitrary: s)
  case 0
  then show ?case by (intro exI [of _ "[]"]) simp
next
  case (Suc n)
  then obtain l where l: "names_task s l" using torn_down_turn [of s] by auto
  obtain s1 where s1: "session_step undefined l s = Some s1" "Suc (goroutines s1) = goroutines s" "torn_down s1"
    using torn_down_step [OF Suc.prems l] by blast
  with Suc.hyps obtain ls where "schedules ls s1" "length ls = goroutines s1" by (metis Suc_inject)
  with s1 l show ?case by (intro exI [of _ "(undefined, l) # ls"]) simp
qed

text \<open>C6: The goroutines of a session end after its teardown: when the context is done, no request
  is being handled and every goroutine of a connection belongs to a closed one, each turn of
  a goroutine is its last and starts no other. So however the turns are ordered and
  whatever dials and reads return, a schedule has at most as many turns as there are
  goroutines (\<^verbatim>\<open>acceptStreams\<close> included) and leaves that many fewer, and some schedule ends them
  all. It is taken for granted that \<^verbatim>\<open>AcceptStream\<close> fails once its context is done and that \<^verbatim>\<open>Accept\<close>
  fails on a closed listener.\<close>

theorem closed_goroutines_end:
  assumes "torn_down s"
  shows "(\<forall>ls. schedules ls s \<longrightarrow>
             (\<exists>s'. session_run ls s = Some s' \<and> goroutines s' + length ls = goroutines s))
       \<and> (\<exists>ls s'. schedules ls s \<and> session_run ls s = Some s' \<and> goroutines s' = 0)"
proof -
  obtain ls where "schedules ls s" "length ls = goroutines s" using torn_down_complete [OF assms] by blast
  with torn_down_run [OF assms] show ?thesis by (metis add_eq_self_zero add.commute)
qed

theorem closed_goroutines_end_witness:
  "torn_down ex_over \<and> schedules [(ex_env, Accepts 0 None), (ex_env, StreamComes None)] ex_over
   \<and> goroutines ex_over = 2
   \<and> (\<exists>s'. session_run [(ex_env, Accepts 0 None), (ex_env, StreamComes None)] ex_over = Some s'
        \<and> goroutines s' = 0)"
proof -
  have closed: "torn_down ex_over" and two: "goroutines ex_over = 2" by code_simp+
  have ts: "tasks ex_over = [AcceptTask 0 1]" and "ctxDone ex_over" "accepting ex_over" by code_simp+
  then have "names_task ex_over (Accepts 0 None)" by (simp add: names_task_def)
  moreover have "accepting (the (session_step ex_env (Accepts 0 None) ex_over))"
    "session_step ex_env (Accepts 0 None) ex_over \<noteq> None"
    by code_simp+
  ultimately have sch: "schedules [(ex_env, Accepts 0 None), (ex_env, StreamComes None)] ex_over"
    by (auto simp: names_task_def split: option.split)
  with closed_goroutines_end [OF closed] obtain s'
    where "session_run [(ex_env, Accepts 0 None), (ex_env, StreamComes None)] ex_over = Some s'"
      "goroutines s' + length [(ex_env, Accepts 0 None), (ex_env, StreamComes None)] = 2"
    unfolding two by blast
  with closed sch two show ?thesis by auto
qed

end
