(* ===== verification/Proxy_System.thy ===== *)
theory Proxy_System
  imports Proxy_Server Proxy_Lifecycle "HOL-Library.Multiset"
begin

text \<open>
  The running proxy: one server, whose rate limiter every handler and every session shares, and a
  \<^verbatim>\<open>/connect\<close> handler for each admitted request, which waits for the upgrade, then serves a session until
  its transport is gone. The goroutines of a session may go on after that. The API handlers run beside them. A
  step is a step of one of these parts at a clock reading; those of the sessions are the steps of
  theory \<open>Proxy_Session\<close> on the shared limiter. A panic of one part is the end of the program.

  Whether \<^verbatim>\<open>Upgrade\<close>, a function of the webtransport library, succeeds, and when a transport goes away, is in the
  label of a step.
\<close>

datatype handler =
    Refused
  | Upgrading Request
  | Serving Session
  | Over Session

record System =
  server :: Server
  handlers :: "handler list"
  replies :: "response list"

datatype ('r, 'i) sys_label =
    Connect Request
  | Upgraded nat bool
  | InSession nat session_env label
  | TransportGone nat
  | Pull "('r, 'i) registry" Request
  | Search "string \<Rightarrow> string + byte list list" Request

definition inSession :: "session_env \<Rightarrow> label \<Rightarrow> Session \<Rightarrow> Server \<Rightarrow> (Session \<times> Server) option" where
  \<comment> \<open>a step of a session on the limiter of the server\<close>
  "inSession e l sess srv =
     map_option (\<lambda>sess'. (sess', srv\<lparr>limiter := rateLimiter sess'\<rparr>))
       (session_step e l (sess\<lparr>rateLimiter := limiter srv\<rparr>))"

definition handlerOf :: "nat \<Rightarrow> System \<Rightarrow> handler" where
  "handlerOf i sys = (if i < length (handlers sys) then handlers sys ! i else Refused)"

definition setHandler :: "nat \<Rightarrow> handler \<Rightarrow> Server \<Rightarrow> System \<Rightarrow> System" where
  "setHandler i h srv sys = sys\<lparr>handlers := (handlers sys)[i := h], server := srv\<rparr>"

fun sys_step :: "i64 \<Rightarrow> ('r, 'i) sys_label \<Rightarrow> System \<Rightarrow> System option" where
  "sys_step t (Connect r) sys =
     (case connectStart (server sys) r response_new of
        None \<Rightarrow> None
      | Some (ok, srv, w) \<Rightarrow>
          Some (if ok then sys\<lparr>server := srv, handlers := handlers sys @ [Upgrading r]\<rparr>
                else sys\<lparr>server := srv, replies := replies sys @ [w]\<rparr>))"
| "sys_step t (Upgraded i ok) sys =
     (case handlerOf i sys of
        Upgrading r \<Rightarrow>
          Some (if ok then setHandler i (Serving (newSession (limiter (server sys)) (RemoteAddr r))) (server sys) sys
                else setHandler i Refused (releaseSession (RemoteAddr r) (server sys)) sys)
      | _ \<Rightarrow> Some sys)"
| "sys_step t (InSession i e l) sys =
     (case handlerOf i sys of
        Serving sess \<Rightarrow>
          map_option (\<lambda>(sess', srv). setHandler i (Serving sess') srv sys)
            (inSession (e\<lparr>env_now := t\<rparr>) l sess (server sys))
      | Over sess \<Rightarrow>
          map_option (\<lambda>(sess', srv). setHandler i (Over sess') srv sys)
            (inSession (e\<lparr>env_now := t\<rparr>) l sess (server sys))
      | _ \<Rightarrow> Some sys)"
| "sys_step t (TransportGone i) sys =
     (case handlerOf i sys of
        Serving sess \<Rightarrow> (let (sess', srv) = sessionOver sess (server sys) in Some (setHandler i (Over sess') srv sys))
      | _ \<Rightarrow> Some sys)"
| "sys_step t (Pull reg r) sys =
     map_option (\<lambda>(srv, w). sys\<lparr>server := srv, replies := replies sys @ [w]\<rparr>)
       (handleDockerPull reg t (server sys) r response_new)"
| "sys_step t (Search get r) sys =
     map_option (\<lambda>w. sys\<lparr>replies := replies sys @ [w]\<rparr>) (handleDockerSearch get r response_new)"

fun sys_run :: "(i64 \<times> ('r, 'i) sys_label) list \<Rightarrow> System \<Rightarrow> System option" where
  "sys_run [] sys = Some sys"
| "sys_run ((t, l) # ls) sys = (case sys_step t l sys of None \<Rightarrow> None | Some sys' \<Rightarrow> sys_run ls sys')"

definition sys_start :: "Server \<Rightarrow> System" where
  "sys_start srv = \<lparr>server = srv, handlers = [], replies = []\<rparr>"

text \<open>The addresses of the handlers that hold a session of the limiter.\<close>

fun holds :: "handler \<Rightarrow> string list" where
  "holds (Upgrading r) = [RemoteAddr r]"
| "holds (Serving sess) = [remoteIP sess]"
| "holds _ = []"

definition live :: "System \<Rightarrow> string list" where
  "live sys = concat (map holds (handlers sys))"

text \<open>The requests to the outside that a step makes for the address \<open>ip\<close>: the dials a session starts, and a pull that
  reaches the registry.\<close>

definition dials :: "Session \<Rightarrow> nat" where
  "dials sess = length (filter is_dial (tasks sess))"

fun sessions_of :: "handler \<Rightarrow> Session option" where
  "sessions_of (Serving sess) = Some sess"
| "sessions_of (Over sess) = Some sess"
| "sessions_of _ = None"

fun outbound :: "string \<Rightarrow> ('r, 'i) sys_label \<Rightarrow> System \<Rightarrow> System \<Rightarrow> nat" where
  "outbound ip (InSession i e l) sys sys' =
     (case (sessions_of (handlerOf i sys), sessions_of (handlerOf i sys')) of
        (Some sess, Some sess') \<Rightarrow> if extractIP (remoteIP sess) = ip then dials sess' - dials sess else 0
      | _ \<Rightarrow> 0)"
| "outbound ip (Pull reg r) sys sys' =
     (if extractIP (RemoteAddr r) = ip \<and> map_option fst (answer (Some (last (replies sys')))) \<in> {Some 200, Some 500}
      then 1 else 0)"
| "outbound ip _ sys sys' = 0"

fun outbounds :: "string \<Rightarrow> int \<Rightarrow> int \<Rightarrow> (i64 \<times> ('r, 'i) sys_label) list \<Rightarrow> System \<Rightarrow> nat" where
  "outbounds ip lo hi [] sys = 0"
| "outbounds ip lo hi ((t, l) # ls) sys =
     (case sys_step t l sys of
        None \<Rightarrow> 0
      | Some sys' \<Rightarrow> (if lo \<le> sint t \<and> sint t \<le> hi then outbound ip l sys sys' else 0) + outbounds ip lo hi ls sys')"

subsection \<open>What a session does with the limiter\<close>

text \<open>A step of a session makes at most one call of \<^verbatim>\<open>TryConnection\<close>, and starts a dial exactly when it is granted.\<close>

definition quiet :: "Session \<Rightarrow> Session \<Rightarrow> bool" where
  "quiet s s' \<longleftrightarrow> remoteIP s' = remoteIP s \<and> rateLimiter s' = rateLimiter s \<and> dials s' \<le> dials s"

definition asked :: "i64 \<Rightarrow> Session \<Rightarrow> Session \<Rightarrow> bool" where
  "asked t s s' \<longleftrightarrow> remoteIP s' = remoteIP s
     \<and> (\<exists>ok. TryConnection (rateLimiter s) (remoteIP s) t = (ok, rateLimiter s')
            \<and> dials s' = dials s + (if ok then 1 else 0))"

lemma dials_simps [simp]:
  "dials (sendEvent env m i d s) = dials s" "dials (s\<lparr>connections := m'\<rparr>) = dials s"
  "dials (s\<lparr>socks := k\<rparr>) = dials s" "dials (Connection_Close r s) = dials s"
  "dials (storeConn i r s) = dials s" "dials (deleteConn i s) = dials s"
  "dials (setObj r c s) = dials s" "dials (closeSock k' s) = dials s"
  "dials (s\<lparr>rateLimiter := rl\<rparr>) = dials s" "dials (s\<lparr>objs := os\<rparr>) = dials s" "dials (s\<lparr>nextConnID := n\<rparr>) = dials s"
  "dials (spawn t s) = dials s + (if is_dial t then 1 else 0)"
  by (simp_all add: dials_def storeConn_def deleteConn_def setObj_def spawn_def)

lemma dials_endTask: "dials (endTask i s) \<le> dials s"
proof (cases "i < length (tasks s)")
  case True
  have "length (filter is_dial (tasks s)) =
      length (filter is_dial (take i (tasks s) @ tasks s ! i # drop (Suc i) (tasks s)))"
    by (rule arg_cong [OF id_take_nth_drop [OF True]])
  then show ?thesis by (simp add: dials_def endTask_def)
qed (simp add: dials_def endTask_def)

lemma op_simps [simp]:
  "remoteIP (storeConn i r s) = remoteIP s" "rateLimiter (storeConn i r s) = rateLimiter s"
  "remoteIP (deleteConn i s) = remoteIP s" "rateLimiter (deleteConn i s) = rateLimiter s"
  "remoteIP (setObj r c s) = remoteIP s" "rateLimiter (setObj r c s) = rateLimiter s"
  "remoteIP (spawn t s) = remoteIP s" "rateLimiter (spawn t s) = rateLimiter s"
  "remoteIP (endTask j s) = remoteIP s" "rateLimiter (endTask j s) = rateLimiter s"
  by (simp_all add: storeConn_def deleteConn_def setObj_def spawn_def endTask_def)

lemma quiet_refl [simp]: "quiet s s"
  by (simp add: quiet_def)

lemma startConnect_asks:
  "quiet s (startConnect env i t h p s) \<or> asked (env_now env) s (startConnect env i t h p s)"
  by (auto simp: startConnect_def quiet_def asked_def alloc_def Let_def split: prod.split)

lemma handlers_quiet:
  "handleBind env r s = Some s' \<Longrightarrow> quiet s s'" "handleListen env r s = Some s' \<Longrightarrow> quiet s s'"
  "handleSend env r s = Some s' \<Longrightarrow> quiet s s'" "handleClose env r s = Some s' \<Longrightarrow> quiet s s'"
  unfolding handleBind_bytes handleListen_bytes handleSend_bytes handleClose_bytes
  by (auto simp: quiet_def alloc_def openSock_def Let_def split: if_splits option.splits prod.splits)

lemma handleStream_asks:
  assumes "handleStream env r s = Some s'"
  shows "quiet s s' \<or> asked (env_now env) s s'"
proof -
  have "s' = s \<or> (\<exists>i t h p. s' = startConnect env i t h p s)" if "handleConnect env r' s = Some s'" for r'
    using that by (auto simp: handleConnect_bytes Let_def split: if_splits)
  with handleStream_split [OF assms] handlers_quiet [of env _ s s'] show ?thesis
    using startConnect_asks [of s env] quiet_refl [of s] by metis
qed

lemma quiet_endTask: "quiet s s' \<Longrightarrow> quiet s (endTask i s')"
  using dials_endTask [of i s'] by (simp add: quiet_def)

lemma dialDone_quiet: "quiet s (dialDone env err r i t a (endTask j s))"
  using dials_endTask [of j s]
  by (auto simp: dialDone_def quiet_def openSock_def Let_def split: option.split)

lemma acceptTurn_quiet: "acceptTurn env acc r i s = (goes, s') \<Longrightarrow> quiet s s'"
  by (auto simp: acceptTurn_def quiet_def openSock_def alloc_def Let_def split: option.splits)

lemma readTurn_quiet: "readTurn env got err r s = (goes, s') \<Longrightarrow> quiet s s'"
  by (auto dest!: readTurn_state simp: quiet_def)

lemma session_step_asks:
  assumes "session_step env l s = Some s'"
  shows "quiet s s' \<or> asked (env_now env) s s'"
proof (cases l)
  case (StreamComes r)
  with assms show ?thesis
    by (auto simp: session_step_def acceptStreams_def quiet_def dials_def split: if_splits option.splits)
next
  case (StreamRuns i)
  show ?thesis
  proof (cases "i < length (streams s)")
    case True
    with StreamRuns assms have "handleStream env (streams s ! i) (endStream i s) = Some s'"
      by (simp add: session_step_def)
    from handleStream_asks [OF this] show ?thesis by (simp add: quiet_def asked_def endStream_def dials_def)
  qed (use StreamRuns assms in \<open>simp add: session_step_def\<close>)
next
  case (DialEnds i err)
  with assms dialDone_quiet show ?thesis
    by (auto simp: session_step_def split: if_splits task.splits)
next
  case (Accepts i acc)
  then have "quiet s s'"
    using assms acceptTurn_quiet quiet_endTask
    by (auto simp: session_step_def split: if_splits task.splits prod.splits bool.splits)
  then show ?thesis ..
next
  case (Reads i got err)
  then have "quiet s s'"
    using assms readTurn_quiet quiet_endTask
    by (auto simp: session_step_def split: if_splits task.splits prod.splits bool.splits)
  then show ?thesis ..
qed

subsection \<open>Sessions are counted\<close>

context session_limiter
begin

lemma tracks_mset: "tracks l xs \<Longrightarrow> mset ys = mset xs \<Longrightarrow> tracks l ys"
  by (simp add: tracks_def size_mset [symmetric] mset_filter del: size_mset)

lemma tracks_same: "tracks l xs \<Longrightarrow> inv l' \<Longrightarrow> count l' = count l \<Longrightarrow> tracks l' xs"
  by (simp add: tracks_def)

end

lemma tracks_TryConnection:
  assumes "rl.tracks rl xs" "TryConnection rl a t = (ok, rl')"
  shows "rl.tracks rl' xs"
proof (rule rl.tracks_same [OF assms(1)])
  show "rl_inv rl'" using assms rl_inv_TryConnection by (auto simp: rl.tracks_def)
  show "session_count rl' = session_count rl"
    using assms(2) by (auto simp: TryConnection_def session_count_def Let_def split: if_splits option.splits)
qed

lemma mset_live_update:
  assumes "i < length hs"
  shows "mset (concat (map holds (hs[i := h]))) + mset (holds (hs ! i)) = mset (concat (map holds hs)) + mset (holds h)"
proof -
  have "mset (concat (map holds hs)) = mset (concat (map holds (take i hs @ hs ! i # drop (Suc i) hs)))"
    by (rule arg_cong [OF id_take_nth_drop [OF assms]])
  then show ?thesis using assms by (simp add: upd_conv_take_nth_drop)
qed

lemma mset_live_setHandler:
  "i < length (handlers sys) \<Longrightarrow>
     mset (live (setHandler i h srv sys)) + mset (holds (handlers sys ! i)) = mset (live sys) + mset (holds h)"
  using mset_live_update by (simp add: live_def setHandler_def)

lemma server_setHandler [simp]: "server (setHandler i h srv sys) = srv"
  by (simp add: setHandler_def)

lemma handlerOf_D: "handlerOf i sys = h \<Longrightarrow> h \<noteq> Refused \<Longrightarrow> i < length (handlers sys) \<and> handlers sys ! i = h"
  by (auto simp: handlerOf_def split: if_splits)

definition counted :: "System \<Rightarrow> bool" where
  "counted sys \<longleftrightarrow> rl.tracks (limiter (server sys)) (live sys)"

lemma counted_same_holds:
  assumes "rl.tracks (limiter srv) (live sys)" "handlerOf i sys = h" "h \<noteq> Refused" "holds h' = holds h"
  shows "counted (setHandler i h' srv sys)"
proof -
  have "mset (live (setHandler i h' srv sys)) = mset (live sys)"
    using mset_live_setHandler [of i sys h' srv] handlerOf_D [OF assms(2,3)] assms(4) by simp
  with assms(1) show ?thesis by (simp add: counted_def rl.tracks_mset)
qed

lemma counted_release:
  assumes "counted sys" "handlerOf i sys = h" "holds h = [a]" "holds h' = []"
    "limiter srv = ReleaseSession (limiter (server sys)) a"
  shows "counted (setHandler i h' srv sys)"
proof -
  have h: "i < length (handlers sys)" "handlers sys ! i = h" using handlerOf_D [OF assms(2)] assms(3) by (cases h; simp)+
  have "holds h \<in> set (map holds (handlers sys))" using nth_mem [OF h(1)] h(2) by auto
  then have "a \<in> set (live sys)" unfolding live_def assms(3) set_concat by (rule UN_I) simp
  moreover have "mset (live sys) = add_mset a (mset (live (setHandler i h' srv sys)))"
    using mset_live_setHandler [OF h(1), of h' srv] h(2) assms(3,4) by simp
  then have "mset (live (setHandler i h' srv sys)) = mset (remove1 a (live sys))" by simp
  ultimately show ?thesis
    using assms(1,5) rl.tracks_release [of "limiter (server sys)" "live sys" a] rl.tracks_mset
    by (simp add: counted_def)
qed

lemma inSession_asks:
  assumes "inSession e l sess srv = Some (sess', srv')"
  shows "remoteIP sess' = remoteIP sess"
    and "limiter srv' = limiter srv \<and> dials sess' \<le> dials sess
     \<or> (\<exists>ok. TryConnection (limiter srv) (remoteIP sess) (env_now e) = (ok, limiter srv')
            \<and> dials sess' = dials sess + (if ok then 1 else 0))"
proof -
  let ?s = "sess\<lparr>rateLimiter := limiter srv\<rparr>"
  have step: "session_step e l ?s = Some sess'" and lim: "limiter srv' = rateLimiter sess'"
    using assms by (auto simp: inSession_def)
  note asks = session_step_asks [OF step]
  then show "remoteIP sess' = remoteIP sess" by (elim disjE) (simp_all add: quiet_def asked_def)
  show "limiter srv' = limiter srv \<and> dials sess' \<le> dials sess
     \<or> (\<exists>ok. TryConnection (limiter srv) (remoteIP sess) (env_now e) = (ok, limiter srv')
            \<and> dials sess' = dials sess + (if ok then 1 else 0))"
    using asks unfolding lim by (elim disjE) (simp_all add: quiet_def asked_def)
qed

lemma pull_asks:
  assumes "handleDockerPull reg t s r w = Some (s', w')"
  shows "s' = s \<or> (\<exists>ok. TryConnection (limiter s) (RemoteAddr r) t = (ok, limiter s') \<and> s' = s\<lparr>limiter := limiter s'\<rparr>)"
  using assms
  by (auto simp: handleDockerPull_def Let_def split: if_splits sum.splits prod.splits bool.splits)

lemma counted_Connect:
  assumes "counted sys" "sys_step t (Connect r) sys = Some sys'"
  shows "counted sys'"
proof -
  obtain ok rl where ta: "TryAcquireSession (limiter (server sys)) (RemoteAddr r) = (ok, rl)"
    by (cases "TryAcquireSession (limiter (server sys)) (RemoteAddr r)")
  show ?thesis
  proof (cases ok)
    case True
    with ta assms(1) have "rl.tracks rl (RemoteAddr r # live sys)"
      using rl.tracks_acquire by (auto simp: counted_def)
    then have "rl.tracks rl (live sys @ [RemoteAddr r])" by (rule rl.tracks_mset) simp
    with True ta assms(2) show ?thesis by (auto simp: connectStart_def counted_def live_def)
  next
    case False
    with ta have "rl = limiter (server sys)" using rl.acquire_denied by auto
    with False ta assms show ?thesis by (auto simp: connectStart_def counted_def live_def split: option.splits)
  qed
qed

lemma counted_Upgraded:
  assumes "counted sys" "sys_step t (Upgraded i ok) sys = Some sys'"
  shows "counted sys'"
proof (cases "handlerOf i sys")
  case (Upgrading r)
  have "counted (setHandler i (Serving (newSession rl (RemoteAddr r))) (server sys) sys)" for rl
    using assms(1) by (intro counted_same_holds [OF _ Upgrading]) (simp_all add: counted_def newSession_def)
  moreover have "counted (setHandler i Refused (releaseSession (RemoteAddr r) (server sys)) sys)"
    by (rule counted_release [OF assms(1) Upgrading]) (simp_all add: releaseSession_def)
  ultimately show ?thesis using assms(2) Upgrading by auto
qed (use assms in auto)

lemma inSession_counted:
  assumes "counted sys" "inSession e l sess (server sys) = Some (sess', srv')"
  shows "rl.tracks (limiter srv') (live sys)" and "remoteIP sess' = remoteIP sess"
  using inSession_asks [OF assms(2)] assms(1) by (auto simp: counted_def elim: tracks_TryConnection)

lemma counted_InSession:
  assumes "counted sys" "sys_step t (InSession i e l) sys = Some sys'"
  shows "counted sys'"
proof (cases "handlerOf i sys")
  case (Serving sess)
  with assms(2) obtain sess' srv where step: "inSession (e\<lparr>env_now := t\<rparr>) l sess (server sys) = Some (sess', srv)"
    and sys': "sys' = setHandler i (Serving sess') srv sys" by auto
  from inSession_counted [OF assms(1) step] show ?thesis
    unfolding sys' by (intro counted_same_holds [OF _ Serving]) simp_all
next
  case (Over sess)
  with assms(2) obtain sess' srv where step: "inSession (e\<lparr>env_now := t\<rparr>) l sess (server sys) = Some (sess', srv)"
    and sys': "sys' = setHandler i (Over sess') srv sys" by auto
  from inSession_counted [OF assms(1) step] show ?thesis
    unfolding sys' by (intro counted_same_holds [OF _ Over]) simp_all
qed (use assms in auto)

lemma counted_TransportGone:
  assumes "counted sys" "sys_step t (TransportGone i) sys = Some sys'"
  shows "counted sys'"
proof (cases "handlerOf i sys")
  case (Serving sess)
  have "counted (setHandler i (Over sess') (releaseSession (remoteIP sess) (server sys)) sys)" for sess'
    by (rule counted_release [OF assms(1) Serving]) (simp_all add: releaseSession_def)
  then show ?thesis using assms(2) Serving by (auto simp: sessionOver_def)
qed (use assms in auto)

lemma counted_Pull:
  assumes "counted sys" "sys_step t (Pull reg r) sys = Some sys'"
  shows "counted sys'"
proof -
  from assms(2) obtain srv w where p: "handleDockerPull reg t (server sys) r response_new = Some (srv, w)"
    and sys': "sys' = sys\<lparr>server := srv, replies := replies sys @ [w]\<rparr>" by auto
  have "rl.tracks (limiter srv) (live sys)"
    using pull_asks [OF p] assms(1) by (auto simp: counted_def elim: tracks_TryConnection)
  then show ?thesis by (simp add: sys' counted_def live_def)
qed

lemma counted_step:
  assumes "counted sys" "sys_step t l sys = Some sys'"
  shows "counted sys'"
proof (cases l)
  case (Search get r)
  with assms show ?thesis by (auto simp: counted_def live_def)
qed (use assms in \<open>blast intro: counted_Connect counted_Upgraded counted_InSession counted_TransportGone counted_Pull\<close>)+

lemma counted_run: "sys_run ls sys = Some sys' \<Longrightarrow> counted sys \<Longrightarrow> counted sys'"
  by (induction ls sys rule: sys_run.induct) (auto split: option.splits dest: counted_step)

lemma sys_step_limits:
  assumes "sys_step t l sys = Some sys'"
  shows "\<exists>ops. limiter (server sys') = rl_run (limiter (server sys)) ops"
proof -
  have none: "\<exists>ops. rl = rl_run rl ops" for rl by (rule exI [of _ "[]"]) (simp add: rl_run_def)
  have one: "\<exists>ops. rl_step rl op = rl_run rl ops" for rl op by (rule exI [of _ "[op]"]) (simp add: rl_run_def)
  have conn: "\<exists>ops. rl' = rl_run rl ops" if "TryConnection rl a t' = (ok, rl')" for rl rl' a t' ok
    using one [of rl "ConnectOp a t'"] that by simp
  have sess: "\<exists>ops. limiter srv' = rl_run (limiter (server sys)) ops"
    if "inSession e sl sess (server sys) = Some (sess', srv')" for e sl sess sess' srv'
    using inSession_asks(2) [OF that] none conn by metis
  show ?thesis
  proof (cases l)
    case (Connect r)
    with assms show ?thesis
      using one [of "limiter (server sys)" "AcquireOp (RemoteAddr r)"]
      by (auto simp: connectStart_def split: prod.splits bool.splits option.splits)
  next
    case (Upgraded i ok)
    with assms show ?thesis
      using none one [of "limiter (server sys)" "ReleaseOp a" for a]
      by (auto simp: releaseSession_def split: handler.splits)
  next
    case (InSession i e sl)
    with assms show ?thesis using none sess by (auto split: handler.splits)
  next
    case (TransportGone i)
    with assms show ?thesis
      using none one [of "limiter (server sys)" "ReleaseOp a" for a]
      by (auto simp: releaseSession_def sessionOver_def split: handler.splits)
  next
    case (Pull reg r)
    with assms show ?thesis using none conn by (auto dest!: pull_asks)
  next
    case (Search get r)
    with assms show ?thesis using none by auto
  qed
qed

lemma limits_run [simp]:
  "maxSessions (rl_run rl ops) = maxSessions rl" "maxConnsPerDay (rl_run rl ops) = maxConnsPerDay rl"
  by (induction ops arbitrary: rl) (simp_all add: rl_run_def)

lemma sys_run_limits:
  "sys_run ls sys = Some sys' \<Longrightarrow> maxSessions (limiter (server sys')) = maxSessions (limiter (server sys))"
  by (induction ls sys rule: sys_run.induct) (auto split: option.splits dest: sys_step_limits)

text \<open>C7: In every state of the running proxy the session count of a client address is the number of its \<^verbatim>\<open>/connect\<close>
  handlers that wait for the upgrade or serve a session, and this number does not exceed \<^verbatim>\<open>maxSessions\<close>: every
  admitted request gives its session back exactly once, whether the upgrade fails or the transport of
  the session goes away.\<close>

theorem sessions_counted:
  assumes "sys_run ls (sys_start (NewServer addr cert key (NewRateLimiter ms mc) origins)) = Some sys"
  shows "session_count (limiter (server sys)) ip = int (length (filter (\<lambda>a. extractIP a = ip) (live sys)))
    \<and> int (length (filter (\<lambda>a. extractIP a = ip) (live sys))) \<le> max 0 ms"
proof -
  have "counted (sys_start (NewServer addr cert key (NewRateLimiter ms mc) origins))"
    using rl_inv_New
    by (simp add: counted_def rl.tracks_def sys_start_def live_def NewServer_def NewRateLimiter_def session_count_def)
  then have "counted sys" by (rule counted_run [OF assms])
  moreover have "maxSessions (limiter (server sys)) = ms"
    using sys_run_limits [OF assms] by (simp add: sys_start_def NewServer_def NewRateLimiter_def)
  ultimately show ?thesis
    using rl.tracks_bound [of "limiter (server sys)" "live sys" ip] by (simp add: counted_def rl.tracks_def)
qed

text \<open>A run: a client connects and is upgraded, then asks for a connection to the host \<^verbatim>\<open>a\<close>.\<close>

definition ex_srv :: Server where
  "ex_srv = NewServer ''addr'' ''cert'' ''key'' (NewRateLimiter 2 5) []"

definition ex_client :: Request where
  "ex_client = \<lparr>Method = ''CONNECT'', r_URL = \<lparr>RawQuery = []\<rparr>, r_Header = [], RemoteAddr = ''1.2.3.4:5''\<rparr>"

definition ex_senv :: session_env where
  "ex_senv = \<lparr>env_resolve = (\<lambda>net name. Inr [\<lparr>ia_IP = [8, 8, 8, 8], ia_Zone = []\<rparr>]), env_now = 0, env_open = True,
              env_listen = None, env_written = 9\<rparr>"

definition ex_steps_of :: "(i64 \<times> (unit, unit) sys_label) list" where
  "ex_steps_of =
     [(0, Connect ex_client), (1, Upgraded 0 True),
      (2, InSession 0 ex_senv (StreamComes (Some (ex_stream [1, 0, 0, 0, 1, 1, 0, 1, 97, 0, 7])))),
      (3, InSession 0 ex_senv (StreamRuns 0)), (4, Connect ex_client)]"

theorem sessions_counted_witness:
  "\<exists>sys. sys_run ex_steps_of (sys_start ex_srv) = Some sys \<and> live sys = [''1.2.3.4:5'', ''1.2.3.4:5'']
     \<and> session_count (limiter (server sys)) ''1.2.3.4'' = 2"
proof -
  let ?sys = "the (sys_run ex_steps_of (sys_start ex_srv))"
  have run: "sys_run ex_steps_of (sys_start ex_srv) = Some ?sys" by code_simp
  have live: "live ?sys = [''1.2.3.4:5'', ''1.2.3.4:5'']" by code_simp
  have ip: "extractIP ''1.2.3.4:5'' = ''1.2.3.4''" by code_simp
  have "session_count (limiter (server ?sys)) ''1.2.3.4'' = 2"
    using sessions_counted [OF run [unfolded ex_srv_def], folded ex_srv_def, of "''1.2.3.4''"]
    by (simp add: live ip)
  with run live show ?thesis by blast
qed

subsection \<open>Requests to the outside\<close>

definition conns_eq :: "RateLimiter \<Rightarrow> RateLimiter \<Rightarrow> bool" where
  "conns_eq rl rl' \<longleftrightarrow> ipConnections rl' = ipConnections rl \<and> ipLastReset rl' = ipLastReset rl
     \<and> maxConnsPerDay rl' = maxConnsPerDay rl"

lemma conns_eq_refl [simp]: "conns_eq rl rl"
  by (simp add: conns_eq_def)

lemma TryConnection_conns_eq:
  assumes "conns_eq rl1 rl2" "TryConnection rl1 a t = (ok, rl1')"
  shows "\<exists>rl2'. TryConnection rl2 a t = (ok, rl2') \<and> conns_eq rl1' rl2'"
  using assms by (auto simp: TryConnection_def conns_eq_def Let_def split: option.splits if_splits)

lemma granted_conns_eq: "conns_eq rl1 rl2 \<Longrightarrow> granted rl2 cs ip lo hi = granted rl1 cs ip lo hi"
proof (induction cs arbitrary: rl1 rl2)
  case (Cons c cs)
  obtain a t where c: "c = (a, t)" by (cases c)
  obtain ok rl1' where one: "TryConnection rl1 a t = (ok, rl1')" by (cases "TryConnection rl1 a t")
  obtain rl2' where "TryConnection rl2 a t = (ok, rl2')" "conns_eq rl1' rl2'"
    using TryConnection_conns_eq [OF Cons.prems one] by blast
  with one Cons.IH [of rl1' rl2'] show ?case by (simp add: c)
qed simp

lemma conns_eq_sessions:
  "conns_eq rl (ReleaseSession rl a)" "TryAcquireSession rl a = (ok, rl') \<Longrightarrow> conns_eq rl rl'"
  by (auto simp: conns_eq_def ReleaseSession_def TryAcquireSession_def Let_def split: if_splits)

text \<open>A step that makes \<open>n\<close> requests for \<open>ip\<close> calls \<^verbatim>\<open>TryConnection\<close> at most once, and makes one only when it is granted.\<close>

definition charged :: "string \<Rightarrow> i64 \<Rightarrow> RateLimiter \<Rightarrow> RateLimiter \<Rightarrow> nat \<Rightarrow> bool" where
  "charged ip t rl rl' n \<longleftrightarrow> n = 0 \<and> conns_eq rl rl'
     \<or> (\<exists>a ok. TryConnection rl a t = (ok, rl') \<and> n \<le> (if ok \<and> extractIP a = ip then 1 else 0))"

lemma charged_session:
  assumes "inSession e l sess srv = Some (sess', srv')" "env_now e = t"
  shows "charged ip t (limiter srv) (limiter srv') (if extractIP (remoteIP sess) = ip then dials sess' - dials sess else 0)"
  using inSession_asks(2) [OF assms(1)]
proof
  assume "limiter srv' = limiter srv \<and> dials sess' \<le> dials sess"
  then show ?thesis by (simp add: charged_def)
next
  assume "\<exists>ok. TryConnection (limiter srv) (remoteIP sess) (env_now e) = (ok, limiter srv')
            \<and> dials sess' = dials sess + (if ok then 1 else 0)"
  then obtain ok where "TryConnection (limiter srv) (remoteIP sess) t = (ok, limiter srv')"
    "dials sess' = dials sess + (if ok then 1 else 0)" using assms(2) by blast
  then show ?thesis unfolding charged_def by (intro disjI2 exI [of _ "remoteIP sess"] exI [of _ ok]) simp
qed

lemma charged_pull:
  assumes "handleDockerPull reg t s r response_new = Some (s', w)"
  shows "charged ip t (limiter s) (limiter s')
    (if extractIP (RemoteAddr r) = ip \<and> map_option fst (answer (Some w)) \<in> {Some 200, Some 500} then 1 else 0)"
proof -
  obtain ok rl where call: "TryConnection (limiter s) (RemoteAddr r) t = (ok, rl)"
    by (cases "TryConnection (limiter s) (RemoteAddr r) t")
  let ?code = "map_option fst (answer (Some w))"
  have "s' = s \<and> ?code \<notin> {Some 200, Some 500}
      \<or> limiter s' = rl \<and> (ok \<or> ?code \<notin> {Some 200, Some 500})"
    using pull_answers [of reg t s r] assms call by (auto simp: Let_def split: if_splits sum.splits)
  then show ?thesis
  proof
    assume "s' = s \<and> ?code \<notin> {Some 200, Some 500}"
    then show ?thesis by (simp add: charged_def)
  next
    assume "limiter s' = rl \<and> (ok \<or> ?code \<notin> {Some 200, Some 500})"
    with call show ?thesis unfolding charged_def by (intro disjI2 exI [of _ "RemoteAddr r"] exI [of _ ok]) auto
  qed
qed

lemma handlerOf_setHandler: "handlerOf i sys \<noteq> Refused \<Longrightarrow> handlerOf i (setHandler i h srv sys) = h"
  by (auto simp: handlerOf_def setHandler_def split: if_splits)

lemma charged_step:
  assumes "sys_step t l sys = Some sys'"
  shows "charged ip t (limiter (server sys)) (limiter (server sys')) (outbound ip l sys sys')"
proof (cases l)
  case (Connect r)
  with assms conns_eq_sessions(2) [of "limiter (server sys)" "RemoteAddr r"] show ?thesis
    by (auto simp: charged_def connectStart_def split: prod.splits bool.splits option.splits)
next
  case (Upgraded i ok)
  with assms show ?thesis
    by (auto simp: charged_def releaseSession_def conns_eq_sessions(1) split: handler.splits)
next
  case (InSession i e sl)
  show ?thesis
  proof (cases "handlerOf i sys")
    case (Serving sess)
    with InSession assms obtain sess' srv where "inSession (e\<lparr>env_now := t\<rparr>) sl sess (server sys) = Some (sess', srv)"
      and "sys' = setHandler i (Serving sess') srv sys" by auto
    with charged_session [OF this(1)] Serving InSession show ?thesis by (simp add: handlerOf_setHandler)
  next
    case (Over sess)
    with InSession assms obtain sess' srv where "inSession (e\<lparr>env_now := t\<rparr>) sl sess (server sys) = Some (sess', srv)"
      and "sys' = setHandler i (Over sess') srv sys" by auto
    with charged_session [OF this(1)] Over InSession show ?thesis by (simp add: handlerOf_setHandler)
  qed (use InSession assms in \<open>simp_all add: charged_def\<close>)
next
  case (TransportGone i)
  with assms show ?thesis
    by (auto simp: charged_def releaseSession_def sessionOver_def conns_eq_sessions(1) split: handler.splits)
next
  case (Pull reg r)
  with assms obtain srv w where p: "handleDockerPull reg t (server sys) r response_new = Some (srv, w)"
    and sys': "sys' = sys\<lparr>server := srv, replies := replies sys @ [w]\<rparr>" by auto
  from charged_pull [OF p, of ip] show ?thesis by (simp add: Pull sys')
next
  case (Search get r)
  with assms show ?thesis by (auto simp: charged_def)
qed

lemma outbounds_granted:
  assumes "sorted (map (\<lambda>x. sint (fst x)) ls)"
  shows "\<exists>cs. in_order cs \<and> snd ` set cs \<subseteq> fst ` set ls
    \<and> int (outbounds ip lo hi ls sys) \<le> granted (limiter (server sys)) cs ip lo hi"
  using assms
proof (induction ls arbitrary: sys)
  case Nil
  show ?case by (rule exI [of _ "[]"]) simp
next
  case (Cons x ls)
  obtain t l where x: "x = (t, l)" by (cases x)
  show ?case
  proof (cases "sys_step t l sys")
    case None
    then show ?thesis by (intro exI [of _ "[]"]) (simp add: x)
  next
    case (Some sys')
    let ?n = "outbound ip l sys sys'" and ?rl = "limiter (server sys)" and ?rl' = "limiter (server sys')"
    from Cons obtain cs where cs: "in_order cs" "snd ` set cs \<subseteq> fst ` set ls"
      "int (outbounds ip lo hi ls sys') \<le> granted ?rl' cs ip lo hi" by force
    from charged_step [OF Some, of ip] consider "?n = 0" "conns_eq ?rl ?rl'"
      | a ok where "TryConnection ?rl a t = (ok, ?rl')" "?n \<le> (if ok \<and> extractIP a = ip then 1 else 0)"
      unfolding charged_def by (elim disjE conjE exE) metis+
    then show ?thesis
    proof cases
      case 1
      with cs Some granted_conns_eq [OF 1(2), of cs ip lo hi] show ?thesis
        by (intro exI [of _ cs]) (auto simp: x)
    next
      case (2 a ok)
      have "in_order ((a, t) # cs)" using cs(1,2) Cons.prems by (fastforce simp: x)
      moreover have "int (outbounds ip lo hi (x # ls) sys) \<le> granted ?rl ((a, t) # cs) ip lo hi"
        using cs(3) 2 Some by (auto simp: x split: if_splits)
      ultimately show ?thesis using cs(2) by (intro exI [of _ "(a, t) # cs"]) (auto simp: x)
    qed
  qed
qed

text \<open>C8: Whatever the sessions and the API handlers of the running proxy do, in which order and for how many
  clients, within any 24 hours the proxy makes at most twice \<^verbatim>\<open>maxConnsPerDay\<close> requests to the outside for a client
  address, counting the dials that its sessions start (also those that are over) and its pulls that reach the
  registry, when the clock does not go back.\<close>

theorem outbounds_per_day:
  assumes "sorted (map (\<lambda>x. sint (fst x)) ls)" and "hi - lo \<le> sint day" and "0 \<le> mc"
  shows "int (outbounds ip lo hi ls (sys_start (NewServer addr cert key (NewRateLimiter ms mc) origins))) \<le> 2 * mc"
proof -
  let ?sys = "sys_start (NewServer addr cert key (NewRateLimiter ms mc) origins)"
  have rl: "limiter (server ?sys) = NewRateLimiter ms mc" by (simp add: sys_start_def NewServer_def)
  obtain cs where "in_order cs" "int (outbounds ip lo hi ls ?sys) \<le> granted (NewRateLimiter ms mc) cs ip lo hi"
    using outbounds_granted [OF assms(1), of ip lo hi ?sys] unfolding rl by blast
  moreover have "granted (NewRateLimiter ms mc) cs ip lo hi \<le> 2 * mc"
    using granted_any_window [OF rl_inv_New [of ms mc] \<open>in_order cs\<close> assms(2), of ip] assms(3)
    by (simp add: NewRateLimiter_def)
  ultimately show ?thesis by simp
qed

theorem outbounds_per_day_witness:
  "sorted (map (\<lambda>x. sint (fst x)) ex_steps_of) \<and> 10 - 0 \<le> sint day
   \<and> outbounds ''1.2.3.4'' 0 10 ex_steps_of (sys_start ex_srv) = 1
   \<and> int (outbounds ''1.2.3.4'' 0 10 ex_steps_of (sys_start ex_srv)) \<le> 10"
proof -
  have s: "sorted (map (\<lambda>x. sint (fst x)) ex_steps_of)" by (simp add: ex_steps_of_def)
  have d: "10 - 0 \<le> sint day" by simp
  have "outbounds ''1.2.3.4'' 0 10 ex_steps_of (sys_start ex_srv) = 1" by code_simp
  with s d show ?thesis
    using outbounds_per_day [OF s d, of 5 "''1.2.3.4''" "''addr''" "''cert''" "''key''" 2 "[]", folded ex_srv_def] by simp
qed

end
