(* ===== verification/Proxy_SSRF.thy ===== *)
theory Proxy_SSRF
  imports Proxy_Invariant
begin

text \<open>
  Which addresses a connect request can reach (\<^verbatim>\<open>isPrivateAddr\<close> and \<^verbatim>\<open>handleConnect\<close> of
  \<^verbatim>\<open>proxy/main.go\<close> with the address lookup of \<^verbatim>\<open>net.Dial\<close>). The guard looks the host up and
  refuses loopback, private and link-local addresses; the dialler then takes the text
  \<^verbatim>\<open>host:port\<close> apart and looks the host up again. The two agree on the host unless it is
  empty or in square brackets, and on its addresses as long as the resolver answers both
  lookups alike.
\<close>

unbundle bit_operations_syntax

definition blocked :: "IP \<Rightarrow> bool" where
  "blocked ip \<longleftrightarrow> IP_IsLoopback ip \<or> IP_IsPrivate ip \<or> IP_IsLinkLocalUnicast ip \<or> IP_IsLinkLocalMulticast ip"

text \<open>The ranges of the guard, byte by byte. IPv4, also in its mapped form: \<^verbatim>\<open>127.0.0.0/8\<close>,
  \<^verbatim>\<open>10.0.0.0/8\<close>, \<^verbatim>\<open>172.16.0.0/12\<close>, \<^verbatim>\<open>192.168.0.0/16\<close>, \<^verbatim>\<open>169.254.0.0/16\<close>, \<^verbatim>\<open>224.0.0.0/24\<close>. IPv6: \<^verbatim>\<open>::1\<close>,
  \<^verbatim>\<open>fc00::/7\<close>, \<^verbatim>\<open>fe80::/10\<close> and the multicast addresses of link scope.\<close>

definition local_range :: "IP \<Rightarrow> bool" where
  "local_range ip \<longleftrightarrow>
     (case To4 ip of
        Some p \<Rightarrow>
          p ! 0 = 127 \<or> p ! 0 = 10 \<or> p ! 0 = 172 \<and> 16 \<le> p ! 1 \<and> p ! 1 \<le> 31 \<or> p ! 0 = 192 \<and> p ! 1 = 168
          \<or> p ! 0 = 169 \<and> p ! 1 = 254 \<or> p ! 0 = 224 \<and> p ! 1 = 0 \<and> p ! 2 = 0
      | None \<Rightarrow>
          ip = replicate 15 0 @ [1]
          \<or> length ip = 16 \<and> (ip ! 0 = 0xfc \<or> ip ! 0 = 0xfd \<or> ip ! 0 = 0xfe \<and> 0x80 \<le> ip ! 1 \<and> ip ! 1 \<le> 0xbf
                             \<or> ip ! 0 = 0xff \<and> ip ! 1 mod 16 = 2))"

definition dialNet :: "int \<Rightarrow> string" where
  "dialNet sockType = (if sockType = SOCK_STREAM then ''tcp'' else ''udp'')"

definition dialHosts ::
  "resolver \<Rightarrow> (string \<Rightarrow> string \<Rightarrow> net_error + int) \<Rightarrow> (string \<Rightarrow> net_error + nat) \<Rightarrow> bool \<Rightarrow> int \<Rightarrow> string
   \<Rightarrow> net_error + netaddr list" where
  \<comment> \<open>all the addresses that the goroutine of \<^verbatim>\<open>handleConnect\<close> may try\<close>
  "dialHosts resolve lookupPort lookupProtocol dualStack sockType addr =
     (case dialAddrs resolve lookupPort lookupProtocol dualStack (dialNet sockType) addr of
        Inl e \<Rightarrow> Inl e
      | Inr (primaries, fallbacks) \<Rightarrow> Inr (primaries @ fallbacks))"

text \<open>A request to connect to port 7 of the host \<^verbatim>\<open>a\<close>, where the resolver knows one public address,
  and a resolver that knows no host.\<close>

definition ex_dns :: resolver where
  "ex_dns net name = Inr [\<lparr>ia_IP = [8, 8, 8, 8], ia_Zone = []\<rparr>]"

definition ex_nodns :: resolver where
  "ex_nodns net name = Inl errMissingAddress"

definition ex_denv :: session_env where
  "ex_denv = \<lparr>env_resolve = ex_dns, env_now = 0, env_open = True, env_listen = None, env_written = 9\<rparr>"

definition ex_connect :: reader where
  "ex_connect = \<lparr>chunks = [[1, 0, 0, 0, 1, 1], [0, 1, 97, 0, 7]], finErr = EOF, eager = False\<rparr>"

definition ex_dnew :: Session where
  "ex_dnew = newSession (NewRateLimiter 3 100) ''10.0.0.1:5000''"

definition ex_dialled :: Session where
  "ex_dialled = the (handleStream ex_denv ex_connect ex_dnew)"

subsection \<open>The ranges of the guard\<close>

lemma byte_high: "uint ((b :: u8) AND NOT (mask n)) = uint b div 2 ^ n * 2 ^ n"
proof -
  have "uint (b AND NOT (mask n)) = uint b AND NOT (mask n)"
    by (rule bit_eqI) (auto simp: bit_simps bit_uint_iff dest: bit_imp_le_length)
  also have "\<dots> = push_bit n (drop_bit n (uint b))" by (rule bit_eqI) (auto simp: bit_simps)
  also have "\<dots> = uint b div 2 ^ n * 2 ^ n" by (simp add: push_bit_eq_mult drop_bit_eq_div)
  finally show ?thesis .
qed

lemma byte_masks:
  "(0xf0 :: u8) = NOT (mask 4)" "(0xfe :: u8) = NOT (mask 1)" "(0xc0 :: u8) = NOT (mask 6)" "(0x0f :: u8) = mask 4"
  by code_simp+

lemma byte_ranges:
  "(b :: u8) AND 0xf0 = 16 \<longleftrightarrow> 16 \<le> b \<and> b \<le> 31"
  "b AND 0xfe = 0xfc \<longleftrightarrow> b = 0xfc \<or> b = 0xfd"
  "b AND 0xc0 = 0x80 \<longleftrightarrow> 0x80 \<le> b \<and> b \<le> 0xbf"
  "b AND 0x0f = 2 \<longleftrightarrow> b mod 16 = 2"
proof -
  have "b AND NOT (mask 4) = 16 \<longleftrightarrow> 16 \<le> b \<and> b \<le> 31"
    "b AND NOT (mask 6) = 0x80 \<longleftrightarrow> 0x80 \<le> b \<and> b \<le> 0xbf"
    "b AND NOT (mask 1) = 0xfc \<longleftrightarrow> b = 0xfc \<or> b = 0xfd"
    unfolding word_uint_eq_iff word_le_def byte_high by auto
  moreover have "b AND mask 4 = 2 \<longleftrightarrow> b mod 16 = 2"
    by (simp flip: take_bit_eq_mask add: take_bit_eq_mod)
  ultimately show "b AND 0xf0 = 16 \<longleftrightarrow> 16 \<le> b \<and> b \<le> 31" "b AND 0xfe = 0xfc \<longleftrightarrow> b = 0xfc \<or> b = 0xfd"
    "b AND 0xc0 = 0x80 \<longleftrightarrow> 0x80 \<le> b \<and> b \<le> 0xbf" "b AND 0x0f = 2 \<longleftrightarrow> b mod 16 = 2"
    unfolding byte_masks by blast+
qed

lemma loopback6: "To4 ip = None \<Longrightarrow> IP_Equal ip IPv6loopback \<longleftrightarrow> ip = replicate 15 0 @ [1]"
  by (auto simp: IP_Equal_def IPv6loopback_def To4_def numeral_eq_Suc)

lemma blocked_ranges: "blocked ip \<longleftrightarrow> local_range ip"
proof (cases "To4 ip")
  case None
  then show ?thesis by (auto simp: blocked_def local_range_def ip_preds byte_ranges loopback6)
next
  case (Some p)
  then show ?thesis by (auto simp: blocked_def local_range_def ip_preds byte_ranges)
qed
subsection \<open>What the dialler looks up\<close>

lemma isPrivateAddr_blocked:
  "isPrivateAddr resolve host \<longleftrightarrow> (\<exists>ips. LookupIP resolve host = Inr ips \<and> (\<exists>ip \<in> set ips. blocked ip))"
  by (auto simp: isPrivateAddr_def blocked_def list_ex_iff split: sum.splits)

lemma LookupIP_iff:
  "LookupIP resolve host = Inr ips \<longleftrightarrow> (\<exists>as. lookupIPAddr resolve ''ip'' host = Inr as \<and> ips = map ia_IP as)"
  by (auto simp: LookupIP_def LookupIPAddr_def split: sum.splits)

lemma dialNet_simps [simp]:
  "dialNet t \<in> set tcp_nets \<longleftrightarrow> t = SOCK_STREAM" "dialNet t \<in> set udp_nets \<longleftrightarrow> t \<noteq> SOCK_STREAM"
  "dialNet t \<notin> set unix_nets" "last (dialNet t) = CHR ''p''"
  by (auto simp: dialNet_def tcp_nets_def udp_nets_def unix_nets_def)

lemma parseNetwork_dialNet: "parseNetwork lookupProtocol (dialNet t) True = Inr (dialNet t, 0)"
proof -
  have "LastIndexByteString (dialNet t) (CHR '':'') = None"
    by (simp add: LastIndexByteString_None dialNet_def)
  then show ?thesis by (auto simp: parseNetwork_def)
qed

lemma unat_port: "unat (port :: u16) \<le> 65535"
  using unsigned_less [of port, where 'a = nat] by simp

lemma split_first: "x \<notin> set a \<Longrightarrow> x \<notin> set b \<Longrightarrow> a @ x # u = b @ x # v \<longleftrightarrow> a = b \<and> u = v"
proof (induction a arbitrary: b)
  case Nil
  then show ?case by (cases b) auto
next
  case (Cons y a)
  then show ?case by (cases b) auto
qed

text \<open>The dialler takes the address apart as the proxy put it together, unless the host is in
  brackets.\<close>

lemma Split_connectAddr:
  "SplitHostPort (connectAddr host port) = Inr (h, p) \<longleftrightarrow>
     p = Uitoa (unat port) \<and> no_brackets h
     \<and> (host = h \<and> CHR '':'' \<notin> set h \<or> host = ''['' @ h @ '']'')"
proof -
  let ?d = "Uitoa (unat port)"
  have d: "CHR '':'' \<notin> set ?d" "no_brackets ?d" using Uitoa_chars by auto
  have last: "u @ '':'' @ p = v @ '':'' @ ?d \<longleftrightarrow> u = v \<and> p = ?d" if "CHR '':'' \<notin> set p" for u v p
  proof -
    have "u @ '':'' @ p = v @ '':'' @ ?d \<longleftrightarrow>
        rev p @ CHR '':'' # rev u = rev ?d @ CHR '':'' # rev v"
      by (metis append.assoc append_Cons append_Nil rev_append rev_is_rev_conv rev_singleton_conv)
    also have "\<dots> \<longleftrightarrow> rev p = rev ?d \<and> rev u = rev v"
      using that d(1) by (simp add: split_first)
    finally show ?thesis by auto
  qed
  have "host @ '':'' @ ?d = h @ '':'' @ p \<longleftrightarrow> host = h \<and> p = ?d" if "CHR '':'' \<notin> set p"
    using last [OF that, of h host] by auto
  moreover have "host @ '':'' @ ?d = ''['' @ h @ '']:'' @ p \<longleftrightarrow> host = ''['' @ h @ '']'' \<and> p = ?d"
    if "CHR '':'' \<notin> set p"
    using last [OF that, of "''['' @ h @ '']''" host] by auto
  ultimately show ?thesis
    unfolding SplitHostPort_forms connectAddr_def using d by auto
qed

abbreviation mkAddr :: "int \<Rightarrow> u16 \<Rightarrow> IPAddr \<Rightarrow> netaddr" where
  "mkAddr t port ip \<equiv>
     (if t = SOCK_STREAM then TCPAddr (ia_IP ip) (int (unat port)) (ia_Zone ip)
      else UDPAddr (ia_IP ip) (int (unat port)) (ia_Zone ip))"

lemma connectAddr_nonempty [simp]: "connectAddr host port \<noteq> []"
  by (simp add: connectAddr_def)

lemma internetAddrList_connect:
  assumes "SplitHostPort (connectAddr host port) = Inr (h, p)"
  shows "internetAddrList resolve lookupPort (dialNet t) (connectAddr host port) =
     (if h = [] then Inr [mkAddr t port \<lparr>ia_IP = [], ia_Zone = []\<rparr>]
      else case lookupIPAddr resolve (dialNet t) h of
             Inl e \<Rightarrow> Inl e
           | Inr ips0 \<Rightarrow>
               filterAddrList None
                 (if length ips0 = 1 \<and> IP_Equal (ia_IP (hd ips0)) IPv6unspecified
                  then ips0 @ [\<lparr>ia_IP = IPv4zero, ia_Zone = []\<rparr>] else ips0)
                 (mkAddr t port) h)"
proof -
  have "LookupPort lookupPort (dialNet t) p = Inr (int (unat port))"
    using assms LookupPort_Uitoa_value [OF unat_port] by (simp add: Split_connectAddr)
  with assms show ?thesis
    by (auto simp: internetAddrList_def Let_def cong: if_cong split: sum.split)
qed

lemma dialHosts_connect:
  assumes "dialHosts resolve lookupPort lookupProtocol dual t (connectAddr host port) = Inr addrs"
  obtains h p l where "SplitHostPort (connectAddr host port) = Inr (h, p)"
    and "internetAddrList resolve lookupPort (dialNet t) (connectAddr host port) = Inr l" and "set addrs = set l"
proof -
  obtain l where l: "internetAddrList resolve lookupPort (dialNet t) (connectAddr host port) = Inr l"
      "set addrs = set l"
    using assms addrList_partition_set
    by (fastforce simp: dialHosts_def dialAddrs_def resolveAddrList_def parseNetwork_dialNet
        split: sum.splits if_splits prod.splits)
  moreover have "\<exists>h p. SplitHostPort (connectAddr host port) = Inr (h, p)"
    using l(1) by (auto simp: internetAddrList_def Let_def split: sum.splits if_splits)
  ultimately show thesis using that by blast
qed

lemma dialHosts_of_list:
  assumes "internetAddrList resolve lookupPort (dialNet t) (connectAddr host port) = Inr l"
  shows "\<exists>addrs. dialHosts resolve lookupPort lookupProtocol dual t (connectAddr host port) = Inr addrs
       \<and> set addrs = set l"
proof -
  obtain p f where pf: "addrList_partition isIPv4 l = (p, f)" by (cases "addrList_partition isIPv4 l")
  then have "set (p @ f) = set l" using addrList_partition_set by simp
  with assms pf show ?thesis
    by (simp add: dialHosts_def dialAddrs_def resolveAddrList_def parseNetwork_dialNet)
qed

lemma blocked_IPv4zero: "\<not> blocked IPv4zero"
  by code_simp

lemma guarded_addresses:
  assumes "dialHosts resolve lookupPort lookupProtocol dual t (connectAddr host port) = Inr addrs"
    and "resolve (dialNet t) host = resolve ''ip'' host"
    and "\<not> isPrivateAddr resolve host" and "host \<noteq> []" and "\<nexists>h. host = ''['' @ h @ '']''" and "a \<in> set addrs"
  shows "\<not> blocked (na_IP a)"
proof -
  obtain h p l where sp: "SplitHostPort (connectAddr host port) = Inr (h, p)"
    and il: "internetAddrList resolve lookupPort (dialNet t) (connectAddr host port) = Inr l"
    and l: "set addrs = set l"
    using dialHosts_connect [OF assms(1)] .
  have h: "h = host" using sp assms(5) by (auto simp: Split_connectAddr)
  obtain ips where ips: "lookupIPAddr resolve (dialNet t) host = Inr ips"
    using il assms(4) h unfolding internetAddrList_connect [OF sp] by (auto split: sum.splits)
  have "lookupIPAddr resolve ''ip'' host = Inr ips"
    using ips by (simp add: lookupIPAddr_def assms(2) split: if_splits sum.splits)
  then have ok: "\<forall>ip \<in> set ips. \<not> blocked (ia_IP ip)"
    using assms(3) by (auto simp: isPrivateAddr_blocked LookupIP_iff)
  have "na_IP a \<in> ia_IP ` set ips \<union> {IPv4zero}"
    using il assms(4,6) h ips unfolding internetAddrList_connect [OF sp] l
    by (auto simp: filterAddrList_def Let_def split: if_splits)
  with ok blocked_IPv4zero show ?thesis by auto
qed

subsection \<open>What a request dials\<close>

lemma tasks_startConnect:
  assumes "tasks (startConnect env i t host port s) = tasks s @ [DialTask c i' t' addr]"
  shows "t' = t \<and> addr = connectAddr host port \<and> \<not> isPrivateAddr (env_resolve env) host
       \<and> fst (TryConnection (rateLimiter s) (remoteIP s) (env_now env))"
  using assms by (auto simp: startConnect_def session_ops Let_def split: if_splits prod.splits)

lemma new_dial:
  assumes "handleStream env r s = Some s'" and "tasks s' = tasks s @ [DialTask c i t addr]"
  shows "\<exists>host port. addr = connectAddr host port \<and> \<not> isPrivateAddr (env_resolve env) host
       \<and> fst (TryConnection (rateLimiter s) (remoteIP s) (env_now env))"
proof -
  have none: "tasks s' \<noteq> tasks s @ [DialTask c i t addr]"
    if "handleBind env r' s = Some s' \<or> handleListen env r' s = Some s' \<or> handleSend env r' s = Some s'
        \<or> handleClose env r' s = Some s'" for r'
    using that unfolding handleBind_bytes handleListen_bytes handleSend_bytes handleClose_bytes
    by (auto simp: Let_def session_ops split: if_splits option.splits prod.splits)
  from handleStream_split [OF assms(1)] assms(2) none obtain r' where "handleConnect env r' s = Some s'" by auto
  with assms(2) tasks_startConnect show ?thesis
    by (fastforce simp: handleConnect_bytes Let_def split: if_splits)
qed

text \<open>C2: When a request makes the proxy dial, no address that the dialler may try lies in
  \<^verbatim>\<open>127.0.0.0/8\<close>, \<^verbatim>\<open>10.0.0.0/8\<close>, \<^verbatim>\<open>172.16.0.0/12\<close>, \<^verbatim>\<open>192.168.0.0/16\<close>, \<^verbatim>\<open>169.254.0.0/16\<close> or
  \<^verbatim>\<open>224.0.0.0/24\<close>, mapped to IPv6 or not, nor is it \<^verbatim>\<open>::1\<close> or in \<^verbatim>\<open>fc00::/7\<close>, \<^verbatim>\<open>fe80::/10\<close> or the
  link-local multicast range. This is provided that the resolver answers the dialler's
  lookup, which asks for the network \<^verbatim>\<open>tcp\<close> or \<^verbatim>\<open>udp\<close> and so for all addresses, as it answered the
  guard's, and that the host of the request was neither empty nor in square brackets.
  Nothing more is refused: the unspecified addresses \<^verbatim>\<open>0.0.0.0\<close> and \<^verbatim>\<open>::\<close> are not in these ranges.\<close>

theorem dialled_addresses_not_local:
  assumes "handleStream env r s = Some s'" and "tasks s' = tasks s @ [DialTask c i t addr]"
    and "\<And>name. env_resolve env (dialNet t) name = env_resolve env ''ip'' name"
    and "dialHosts (env_resolve env) lookupPort lookupProtocol dual t addr = Inr addrs" and "a \<in> set addrs"
  shows "\<not> local_range (na_IP a)
       \<or> (\<exists>port. addr = connectAddr [] port) \<or> (\<exists>h port. addr = connectAddr (''['' @ h @ '']'') port)"
proof -
  obtain host port where addr: "addr = connectAddr host port" and guard: "\<not> isPrivateAddr (env_resolve env) host"
    using new_dial [OF assms(1,2)] by blast
  show ?thesis
  proof (cases "host = [] \<or> (\<exists>h. host = ''['' @ h @ '']'')")
    case True
    then show ?thesis using addr by blast
  next
    case False
    then show ?thesis
      using guarded_addresses [OF assms(4) [unfolded addr] assms(3) guard _ _ assms(5)]
      unfolding blocked_ranges by blast
  qed
qed

definition ex_addrs :: "netaddr list" where
  "ex_addrs = (case dialHosts ex_dns (\<lambda>_ _. Inr 0) (\<lambda>_. Inr 0) True 1 ''a:7'' of Inr l \<Rightarrow> l | Inl _ \<Rightarrow> [])"

theorem dialled_addresses_not_local_witness:
  "handleStream ex_denv ex_connect ex_dnew = Some ex_dialled
   \<and> tasks ex_dialled = tasks ex_dnew @ [DialTask 0 1 1 ''a:7'']
   \<and> dialHosts (env_resolve ex_denv) (\<lambda>_ _. Inr 0) (\<lambda>_. Inr 0) True 1 ''a:7'' = Inr ex_addrs
   \<and> ex_addrs ! 0 \<in> set ex_addrs
   \<and> \<not> local_range (na_IP (ex_addrs ! 0))"
proof (intro conjI)
  show run: "handleStream ex_denv ex_connect ex_dnew = Some ex_dialled"
    "tasks ex_dialled = tasks ex_dnew @ [DialTask 0 1 1 ''a:7'']"
    by code_simp+
  have dns: "env_resolve ex_denv (dialNet 1) name = env_resolve ex_denv ''ip'' name" for name
    by (simp add: ex_denv_def ex_dns_def)
  show ok: "dialHosts (env_resolve ex_denv) (\<lambda>_ _. Inr 0) (\<lambda>_. Inr 0) True 1 ''a:7'' = Inr ex_addrs"
    "ex_addrs ! 0 \<in> set ex_addrs"
    by code_simp+
  show "\<not> local_range (na_IP (ex_addrs ! 0))"
    using dialled_addresses_not_local [OF run dns ok] by (simp add: connectAddr_def)
qed

subsection \<open>Ways around the guard\<close>

lemma ParseAddr_bracket: "\<exists>e. ParseAddr (CHR ''['' # s) = Inl e"
proof -
  let ?t = "CHR ''['' # s"
  have v4: "\<exists>e. parseIPv4 ?t = Inl e" by (simp add: parseIPv4_def)
  have hex: "hexValue (CHR ''['') = None" by (simp add: hexValue_def)
  have rest: "\<exists>e. parseIPv6_rest ?t z (CHR ''['' # u) = Inl e" for z u
    by (simp add: parseIPv6_rest_def parseIPv6_loop.simps hex Let_def)
  have v6: "\<exists>e. parseIPv6 ?t = Inl e"
    using rest by (auto simp: parseIPv6_def Let_def split: option.splits)
  have "\<exists>e. ParseAddr_scan ?t u = Inl e" for u
    using v4 v6 by (induction u) auto
  then show ?thesis by (simp add: ParseAddr_def)
qed

lemma parseIPv4_z: "parseIPv4 s = Inr ip \<Longrightarrow> ip_z ip = z4"
  by (auto simp: parseIPv4_def AddrFrom4_def split: sum.splits if_splits)

lemma WithZone_z:
  "ip_z (Addr_WithZone (AddrFrom16 bs) zone) \<noteq> z0" "ip_z (Addr_WithZone IPv6Unspecified zone) \<noteq> z0"
  by (auto simp: Addr_WithZone_def AddrFrom16_def IPv6Unspecified_def addr_defs)

lemma parseIPv6_z:
  assumes "parseIPv6 s = Inr ip"
  shows "ip_z ip \<noteq> z0"
proof -
  have "ip_z a \<noteq> z0" if "parseIPv6_finish inp zone st = Inr a" for inp zone st a
    using that WithZone_z
    by (auto simp: parseIPv6_finish_def Let_def split: prod.splits if_splits option.splits)
  then have "ip_z a \<noteq> z0" if "parseIPv6_rest inp zone u = Inr a" for inp zone u a
    using that WithZone_z(2) [of zone]
    by (auto simp: parseIPv6_rest_def Let_def split: if_splits sum.splits)
  then show ?thesis
    using assms by (auto simp: parseIPv6_def Let_def split: option.splits if_splits)
qed

lemma ParseAddr_To16:
  assumes "ParseAddr h = Inr ip"
  shows "\<exists>p. To16 (Addr_AsSlice ip) = Some p"
proof -
  have "ip_z ip \<noteq> z0" if "ParseAddr_scan h u = Inr ip" for u
    using that parseIPv4_z parseIPv6_z by (induction u) (fastforce split: if_splits)+
  then have "ip_z ip \<noteq> z0" using assms by (simp add: ParseAddr_def)
  then have "length (Addr_AsSlice ip) = 4 \<or> length (Addr_AsSlice ip) = 16"
    by (cases "ip_z ip") (simp_all add: Addr_AsSlice_def bePutUint32_def bePutUint64_def)
  then show ?thesis using To16_cases by blast
qed

lemma isDomainName_bracket: "\<not> isDomainName (CHR ''['' # s)"
  by (simp add: isDomainName_def Let_def)

text \<open>C9: A literal address in square brackets passes the guard and is dialled: the guard looks up
  the text with its brackets, which is neither an address nor a domain name, so a resolver
  that finds no host for such names lets it pass, while the dialler takes the brackets
  off and connects to the address, whatever it is.\<close>

theorem bracketed_literal_bypasses_guard:
  assumes "\<And>name. \<not> isDomainName name \<Longrightarrow> \<exists>e. resolve ''ip'' name = Inl e"
    and "ParseAddr h = Inr ip" and "no_brackets h"
  shows "\<not> isPrivateAddr resolve (''['' @ h @ '']'')
       \<and> (\<exists>addrs. dialHosts resolve lookupPort lookupProtocol dual t (connectAddr (''['' @ h @ '']'') port) = Inr addrs
            \<and> (\<exists>a \<in> set addrs. na_IP a = the (To16 (Addr_AsSlice ip))))"
proof
  obtain e where "ParseAddr (''['' @ h @ '']'') = Inl e" using ParseAddr_bracket by auto
  moreover obtain e' where "resolve ''ip'' (''['' @ h @ '']'') = Inl e'"
    using assms(1) isDomainName_bracket by auto
  ultimately show "\<not> isPrivateAddr resolve (''['' @ h @ '']'')"
    by (simp add: isPrivateAddr_blocked LookupIP_iff lookupIPAddr_def)
  have sp: "SplitHostPort (connectAddr (''['' @ h @ '']'') port) = Inr (h, Uitoa (unat port))"
    using assms(3) by (simp add: Split_connectAddr)
  have "h \<noteq> []" using assms(2) by (auto simp: ParseAddr_def)
  let ?ip = "\<lparr>ia_IP = (case To16 (Addr_AsSlice ip) of Some p \<Rightarrow> p | None \<Rightarrow> []), ia_Zone = Addr_Zone ip\<rparr>"
  let ?l = "if IP_Equal (ia_IP ?ip) IPv6unspecified then [mkAddr t port \<lparr>ia_IP = IPv4zero, ia_Zone = []\<rparr>] else []"
  have l: "internetAddrList resolve lookupPort (dialNet t) (connectAddr (''['' @ h @ '']'') port)
      = Inr (mkAddr t port ?ip # ?l)"
    using \<open>h \<noteq> []\<close> assms(2) unfolding internetAddrList_connect [OF sp]
    by (simp add: lookupIPAddr_def filterAddrList_def Let_def)
  obtain addrs where addrs: "dialHosts resolve lookupPort lookupProtocol dual t (connectAddr (''['' @ h @ '']'') port)
      = Inr addrs" "set addrs = set (mkAddr t port ?ip # ?l)"
    using dialHosts_of_list [OF l] by blast
  have "mkAddr t port ?ip \<in> set addrs" unfolding addrs(2) by (rule list.set_intros(1))
  moreover have "na_IP (mkAddr t port ?ip) = the (To16 (Addr_AsSlice ip))"
    using ParseAddr_To16 [OF assms(2)] by auto
  ultimately show "\<exists>addrs. dialHosts resolve lookupPort lookupProtocol dual t (connectAddr (''['' @ h @ '']'') port) = Inr addrs
            \<and> (\<exists>a \<in> set addrs. na_IP a = the (To16 (Addr_AsSlice ip)))"
    using addrs(1) by blast
qed

theorem bracketed_literal_bypasses_guard_witness:
  "\<not> isPrivateAddr ex_nodns ''[127.0.0.1]''
   \<and> (\<exists>addrs. dialHosts ex_nodns (\<lambda>_ _. Inr 0) (\<lambda>_. Inr 0) True 1 (connectAddr ''[127.0.0.1]'' 7) = Inr addrs
        \<and> (\<exists>a \<in> set addrs. blocked (na_IP a)))"
proof -
  let ?ip = "case ParseAddr ''127.0.0.1'' of Inr ip \<Rightarrow> ip | Inl _ \<Rightarrow> Addr_zero"
  have ip: "ParseAddr ''127.0.0.1'' = Inr ?ip" "no_brackets ''127.0.0.1''" by code_simp+
  have bl: "blocked (the (To16 (Addr_AsSlice ?ip)))" by code_simp
  have dns: "\<exists>e. ex_nodns ''ip'' name = Inl e" for name by (simp add: ex_nodns_def)
  have br: "''['' @ ''127.0.0.1'' @ '']'' = ''[127.0.0.1]''" by simp
  note by_thm = bracketed_literal_bypasses_guard
    [of ex_nodns, OF dns ip, of "\<lambda>_ _. Inr 0" "\<lambda>_. Inr 0" True 1 7, unfolded br]
  obtain addrs a where "dialHosts ex_nodns (\<lambda>_ _. Inr 0) (\<lambda>_. Inr 0) True 1 (connectAddr ''[127.0.0.1]'' 7) = Inr addrs"
    "a \<in> set addrs" "na_IP a = the (To16 (Addr_AsSlice ?ip))"
    using by_thm by (elim conjE exE bexE)
  with bl by_thm show ?thesis by metis
qed

text \<open>C10: An empty host passes the guard too, and the dialler turns it into the unspecified address,
  which the system connects to itself.\<close>

theorem empty_host_bypasses_guard:
  "\<not> isPrivateAddr resolve []
   \<and> (\<exists>a. dialHosts resolve lookupPort lookupProtocol dual t (connectAddr [] port) = Inr [a]
        \<and> na_IP a = [] \<and> netaddr_isWildcard a)"
proof -
  have sp: "SplitHostPort (connectAddr [] port) = Inr ([], Uitoa (unat port))"
    by (simp add: Split_connectAddr no_brackets_def)
  let ?a = "mkAddr t port \<lparr>ia_IP = [], ia_Zone = []\<rparr>"
  have il: "internetAddrList resolve lookupPort (dialNet t) (connectAddr [] port) = Inr [?a]"
    unfolding internetAddrList_connect [OF sp] by simp
  have "dialHosts resolve lookupPort lookupProtocol dual t (connectAddr [] port) = Inr [?a]"
    using il by (simp add: dialHosts_def dialAddrs_def resolveAddrList_def parseNetwork_dialNet
        addrList_partition_def Let_def)
  moreover have "na_IP ?a = []" "netaddr_isWildcard ?a" by (auto simp: netaddr_isWildcard_def)
  moreover have "\<not> isPrivateAddr resolve []"
    by (simp add: isPrivateAddr_blocked LookupIP_iff lookupIPAddr_def)
  ultimately show ?thesis by blast
qed

end
