(* ===== verification/Spec2Isabelle.thy ===== *)
theory Spec2Isabelle
  imports Proxy_System Proxy_SSRF
begin

text \<open>
  A verification of the networking side of friscy: the proxy through which programs that run in
  the browser reach the network (\<^verbatim>\<open>src/proxy/main.go\<close>), together with those parts of the patched Go
  library (\<^verbatim>\<open>src/tools/go-patched/src\<close>, below \<^verbatim>\<open>go/\<close>) that the proxy's behaviour rests on.

  \<^bold>\<open>The program.\<close> The server (\<^verbatim>\<open>Server\<close>) accepts WebTransport sessions on \<^verbatim>\<open>/connect\<close> and HTTP requests on a
  small API. A \<^verbatim>\<open>/connect\<close> request first takes a session of the rate limiter (\<^verbatim>\<open>RateLimiter\<close>), is then
  upgraded if its origin is allowed, and is served by \<^verbatim>\<open>handleSession\<close>. A session reads requests from
  streams, one per stream: connect, bind, listen, send, close. \<^verbatim>\<open>handleConnect\<close> checks the host
  against private addresses and the daily limit and dials in a goroutine; \<^verbatim>\<open>handleListen\<close> accepts in a
  goroutine; every connection is read in a goroutine; what happens is sent to the client as
  events. When the transport is gone, the session closes the connections of its table, a \<^verbatim>\<open>sync.Map\<close>.
  The API pulls container images, under the same daily limit, and searches for them.

  \<^bold>\<open>Conventions.\<close> Go's fixed-width integers are words of their width, \<^verbatim>\<open>int\<close> is \<^typ>\<open>int\<close> where it is only
  counted and compared; a \<^verbatim>\<open>[]byte\<close> is a list of 8-bit words and a \<^verbatim>\<open>string\<close> a list of characters
  (bytes). A Go map is an association list behind the locale \<open>go_map\<close>. A \<^verbatim>\<open>panic\<close> is \<^term>\<open>None\<close>, an
  error value the left side of a sum. State is passed explicitly. What code outside the repository
  answers (resolver, clock, streams, sockets, registry, search service, upgrade) is an argument or part
  of a step's label; what a claim needs of it is a hypothesis of the claim, with a witness.

  \<^bold>\<open>The theories\<close>, from the bottom up. Library of Go:
  \<^item> \<open>Go_Prelude\<close>: types, conversions, byte search (\<^verbatim>\<open>go/internal/bytealg\<close>), shared simplification rules.
  \<^item> \<open>Go_IO\<close>: readers, \<^verbatim>\<open>ReadAtLeast\<close> and \<^verbatim>\<open>ReadFull\<close> (\<^verbatim>\<open>go/io/io.go\<close>); the result depends on the bytes and not on
    how they arrive.
  \<^item> \<open>Go_Binary\<close>, \<open>Go_Varint\<close>: \<^verbatim>\<open>go/encoding/binary\<close>. Both byte orders interpret the locale \<open>byte_order\<close>, which
    extends \<open>uint_codec\<close>; varints are read back, and the two readers of varints agree.
  \<^item> \<open>Go_Map\<close>, \<open>Go_SyncMap\<close>: the locale \<open>go_map\<close>, Go's map as its first instance, and \<^verbatim>\<open>go/sync/map.go\<close> with its read
    and dirty maps as its second. \<^verbatim>\<open>sync.Map\<close> refines a mathematical map, also when its locked sections run late.
  \<^item> \<open>Go_Time\<close>: durations and clock differences with their saturation.
  \<^item> \<open>Go_UTF8\<close>: \<^verbatim>\<open>go/unicode/utf8\<close>; decoding inverts encoding, and validity is being a concatenation of encodings.
  \<^item> \<open>Go_Strings\<close>: \<^verbatim>\<open>Index\<close> with its small, large and Rabin-Karp searches, \<^verbatim>\<open>Split\<close> and its relatives, \<^verbatim>\<open>Join\<close>.
  \<^item> \<open>Go_Space\<close>: white space with its range tables, \<^verbatim>\<open>TrimSpace\<close> and \<^verbatim>\<open>TrimFunc\<close>.
  \<^item> \<open>Go_Strconv\<close>: \<^verbatim>\<open>ParseUint\<close>, \<^verbatim>\<open>ParseInt\<close> and \<^verbatim>\<open>Atoi\<close>.
  \<^item> \<open>Net_HostPort\<close>: \<^verbatim>\<open>SplitHostPort\<close> and \<^verbatim>\<open>JoinHostPort\<close>.
  \<^item> \<open>Netip_Uint128\<close>, \<open>Netip_Addr\<close>, \<open>Netip_Text\<close>, \<open>Netip_Roundtrip\<close>: \<^verbatim>\<open>go/net/netip\<close>. The 128-bit arithmetic on two
    halves, the type \<^verbatim>\<open>Addr\<close> and its order (locale \<open>comparison\<close>), the parser and the printer, and that the
    one inverts the other.
  \<^item> \<open>Net_IP\<close>: \<^verbatim>\<open>go/net/ip.go\<close>: addresses, masks, networks; agreement with \<^verbatim>\<open>netip\<close>.
  \<^item> \<open>Net_Dial\<close>: how \<^verbatim>\<open>Dial\<close> and \<^verbatim>\<open>LookupIP\<close> get from a text to addresses.
  \<^item> \<open>Net_URL\<close>, \<open>Net_HTTP\<close>: escaping and query strings, headers and the response writer.

  The proxy, all of \<^verbatim>\<open>src/proxy/main.go\<close>:
  \<^item> \<open>Rate_Limiter\<close>: \<^verbatim>\<open>RateLimiter\<close>. Bounds of the counters, independence of addresses, what a day allows; the
    locale \<open>session_limiter\<close> is what the server relies on.
  \<^item> \<open>Proxy_Session\<close>: \<^verbatim>\<open>Connection\<close>, \<^verbatim>\<open>Session\<close>, the handlers and the goroutines. The fields of the record
    \<open>Session\<close> after those of the Go type are the heap of connections, the sockets, the events sent, and the
    goroutines that are alive. \<open>session_step\<close> picks which of them moves.
  \<^item> \<open>Proxy_Wire\<close>: the handlers as functions of the bytes of a request, and which requests panic.
  \<^item> \<open>Proxy_Invariant\<close>: the invariant of a session and that every step keeps it.
  \<^item> \<open>Proxy_Lifecycle\<close>: who owns an open socket, what the teardown reaches, that goroutines end.
  \<^item> \<open>Proxy_SSRF\<close>: which addresses a connect request can reach, and the ways around the guard.
  \<^item> \<open>Proxy_Server\<close>: \<^verbatim>\<open>Server\<close>, \<^verbatim>\<open>main\<close>, the origin check and the API handlers.
  \<^item> \<open>Proxy_System\<close>: server, handlers and sessions together on one limiter: sessions are given back exactly
    once, and the daily limit bounds the requests to the outside.

  \<^bold>\<open>Steps.\<close> A request handler is one step, and so is a turn of a goroutine's loop. \<^verbatim>\<open>sync.Map\<close> and the
  limiter are used by one call at a time; \<open>Go_SyncMap\<close> separates the lock-free and the locked section of
  a call.

  \<^bold>\<open>Termination.\<close> Every function is total. Loops are structural recursions or have a measure: what is
  left of a text, of a buffer, or of a reader (its chunks and bytes, so that empty reads are
  allowed). Two counters are chosen by hand: the search for a run of zero fields of an IPv6 address and the
  leading ones of a mask byte take at most eight rounds, one per field or bit. The loops of goroutines are
  not run to their end but turn by turn.

  \<^bold>\<open>Not modelled.\<close> Log output; the TLS and HTTP servers and the WebTransport library; how sockets race
  when a host has several addresses; name resolution itself; prefixes and address ports of \<^verbatim>\<open>netip\<close>; parsing of
  whole URLs. Of the repository, the emulator (\<^verbatim>\<open>src/runtime\<close>, C++), the translators (\<^verbatim>\<open>src/aot\<close>,
  \<^verbatim>\<open>src/aot-jit\<close>, Rust), the browser side (\<^verbatim>\<open>src/friscy-bundle\<close>, \<^verbatim>\<open>src/bridge\<close>), tests and scripts, and the rest of
  the Go tree.
\<close>

end
